(* ===== verification/Prelude.thy ===== *)
theory Prelude
  imports Main "HOL-Library.Word" "HOL-Library.Signed_Division"
begin

text \<open>
  Shared vocabulary of the development: the machine integers of the C sources, the faults a C
  operation can run into (the sum type \<open>'a res\<close>), arrays behind a pointer that may be NULL, and
  the generic lemmas on lists and words the component theories share. A C \<^verbatim>\<open>uint32_t\<close> is a
  \<open>32 word\<close> (arithmetic wraps), a C \<^verbatim>\<open>int\<close> is an \<open>int\<close> and the conversions between the two
  are written out as \<open>int_of_u32\<close> and \<open>u32_of_int\<close>. Allocation always succeeds in the model.
\<close>

section \<open>Machine integers\<close>

type_synonym u8 = "8 word"
type_synonym u32 = "32 word"
type_synonym iid_t = u32
type_synonym ballot_t = u32

text \<open>The implicit conversions of C between \<^verbatim>\<open>int\<close> and \<^verbatim>\<open>uint32_t\<close> on a 32-bit int.\<close>

definition u32_of_int :: "int \<Rightarrow> u32" where
  "u32_of_int i = word_of_int i"

definition int_of_u32 :: "u32 \<Rightarrow> int" where
  "int_of_u32 w = sint w"

section \<open>Faults and the result type\<close>

text \<open>
  What a C function can do instead of returning: read through NULL, read or write outside an
  array, fail an \<^verbatim>\<open>assert\<close>, call through an invalid function pointer, read a union member that
  does not hold the value (\<open>UnionMisread\<close>), use memory that was freed (\<open>Dangling\<close>) or run a loop
  that never ends. Each is a value, so that the absence of faults is a theorem and not a convention.
\<close>

datatype fault = NullDeref | OutOfBounds | AssertFailed | BadCall | Diverges | UnionMisread | Dangling

type_synonym 'a res = "fault + 'a"

fun bind_res :: "'a res \<Rightarrow> ('a \<Rightarrow> 'b res) \<Rightarrow> 'b res" where
  "bind_res (Inl e) f = Inl e"
| "bind_res (Inr x) f = f x"

definition cassert :: "bool \<Rightarrow> 'a res \<Rightarrow> 'a res" where
  "cassert b k = (if b then k else Inl AssertFailed)"

lemma bind_res_Inr_iff:
  "bind_res m f = Inr y \<longleftrightarrow> (\<exists>x. m = Inr x \<and> f x = Inr y)"
  by (cases m) auto

lemma bind_res_Inl_iff:
  "bind_res m f = Inl e \<longleftrightarrow> m = Inl e \<or> (\<exists>x. m = Inr x \<and> f x = Inl e)"
  by (cases m) auto

lemma bind_res_assoc [simp]:
  "bind_res (bind_res m f) g = bind_res m (\<lambda>x. bind_res (f x) g)"
  by (cases m) auto

lemma cassert_True [simp]: "cassert True k = k"
  by (simp add: cassert_def)

lemma cassert_False [simp]: "cassert False k = Inl AssertFailed"
  by (simp add: cassert_def)

lemma cassert_Inr_iff: "cassert b k = Inr y \<longleftrightarrow> b \<and> k = Inr y"
  by (simp add: cassert_def)

lemmas res_iffs = bind_res_Inr_iff bind_res_Inl_iff cassert_Inr_iff

section \<open>Arrays behind a pointer\<close>

text \<open>
  A pointer to a heap array is an optional list: \<open>None\<close> is NULL, \<open>Some xs\<close> an allocation of
  exactly \<open>length xs\<close> elements. \<open>aread\<close> is \<^verbatim>\<open>a[i]\<close>, \<open>awrite\<close> is \<^verbatim>\<open>a[i] = x\<close>, and \<open>acopy\<close>
  reads the first \<open>n\<close> elements, as a copying loop or \<^verbatim>\<open>memcpy\<close> does (nothing is read when
  \<open>n = 0\<close>).
\<close>

type_synonym 'a arr = "'a list option"

definition aread :: "'a arr \<Rightarrow> nat \<Rightarrow> 'a res" where
  "aread a i = (case a of
      None \<Rightarrow> Inl NullDeref
    | Some xs \<Rightarrow> if i < length xs then Inr (xs ! i) else Inl OutOfBounds)"

definition awrite :: "'a arr \<Rightarrow> nat \<Rightarrow> 'a \<Rightarrow> 'a arr res" where
  "awrite a i x = (case a of
      None \<Rightarrow> Inl NullDeref
    | Some xs \<Rightarrow> if i < length xs then Inr (Some (xs[i := x])) else Inl OutOfBounds)"

definition acopy :: "'a arr \<Rightarrow> nat \<Rightarrow> 'a list res" where
  "acopy a n = (if n = 0 then Inr [] else (case a of
      None \<Rightarrow> Inl NullDeref
    | Some xs \<Rightarrow> if n \<le> length xs then Inr (take n xs) else Inl OutOfBounds))"

lemma aread_Some [simp]:
  "aread (Some xs) i = (if i < length xs then Inr (xs ! i) else Inl OutOfBounds)"
  by (simp add: aread_def)

lemma aread_None [simp]: "aread None i = Inl NullDeref"
  by (simp add: aread_def)

lemma aread_Inr_iff: "aread a i = Inr x \<longleftrightarrow> (\<exists>xs. a = Some xs \<and> i < length xs \<and> xs ! i = x)"
  by (auto simp: aread_def split: option.splits if_splits)

lemma awrite_Some [simp]:
  "awrite (Some xs) i x = (if i < length xs then Inr (Some (xs[i := x])) else Inl OutOfBounds)"
  by (simp add: awrite_def)

lemma awrite_Inr_iff:
  "awrite a i x = Inr b \<longleftrightarrow> (\<exists>xs. a = Some xs \<and> i < length xs \<and> b = Some (xs[i := x]))"
  by (auto simp: awrite_def split: option.splits if_splits)

lemma acopy_exact [simp]: "acopy (Some xs) (length xs) = Inr xs"
  by (simp add: acopy_def)

lemma acopy_0 [simp]: "acopy a 0 = Inr []"
  by (simp add: acopy_def)

lemma acopy_Some: "n \<le> length xs \<Longrightarrow> acopy (Some xs) n = Inr (take n xs)"
  by (simp add: acopy_def)

section \<open>Collections of facts\<close>

text \<open>
  \<open>op_defs\<close> holds the unfolding equations of the operations, \<open>inv_defs\<close> those of the
  invariants; a component adds its own with the attribute.
\<close>

named_theorems op_defs \<open>definitions of the modelled operations\<close>
named_theorems inv_defs \<open>definitions of the invariants\<close>

section \<open>Generic lemmas\<close>

text \<open>Incrementing a 32-bit counter that does not wrap around.\<close>

lemma u32_Suc: "unat (n::u32) + 1 < 2 ^ 32 \<Longrightarrow> unat (n + 1) = unat n + 1"
  by (simp add: unat_word_ariths)

lemma u32_inc_room: "(n::u32) + 1 \<noteq> 0 \<Longrightarrow> unat n + 1 < 2 ^ 32"
proof -
  assume "n + 1 \<noteq> 0"
  then have "unat (n + 1) \<noteq> 0" by (simp add: unat_eq_zero)
  then have "(unat n + 1) mod 2 ^ 32 \<noteq> 0" by (simp add: unat_word_ariths)
  moreover have "unat n < 2 ^ 32" using unsigned_less[of n] by simp
  ultimately show ?thesis by (cases "unat n + 1 = 2 ^ 32") auto
qed

lemma u32_inc_unat: "(n::u32) + 1 \<noteq> 0 \<Longrightarrow> unat (n + 1) = unat n + 1"
  by (rule u32_Suc[OF u32_inc_room])

lemma u32_inc_less: "(n::u32) + 1 \<noteq> 0 \<Longrightarrow> n < n + 1"
  using u32_inc_unat[of n] by (simp add: word_less_nat_alt)

lemma map_of_filter_distinct:
  assumes "distinct (map fst xs)"
  shows "map_of (filter P xs) k = (case map_of xs k of
      None \<Rightarrow> None | Some v \<Rightarrow> if P (k, v) then Some v else None)"
  using assms
proof (induction xs)
  case Nil
  then show ?case by simp
next
  case (Cons x xs)
  have "map_of xs (fst x) = None"
    using Cons.prems by (simp add: map_of_eq_None_iff)
  moreover have "map_of (filter P xs) (fst x) = None"
    using Cons.prems by (auto simp: map_of_eq_None_iff)
  ultimately show ?case
    using Cons by (cases x) auto
qed

lemma card_dom_map_of:
  assumes "distinct (map fst xs)"
  shows "card (dom (map_of xs)) = length xs"
  by (metis assms distinct_card dom_map_of_conv_image_fst length_map set_map)

end
