(* ===== verification/Khash.thy ===== *)
theory Khash
  imports Prelude
begin

unbundle bit_operations_syntax

text \<open>
  The integer hash tables of \<^verbatim>\<open>paxos/include/khash.h\<close> (\<^verbatim>\<open>KHASH_MAP_INIT_INT\<close>), which hold the
  records of the memory storage and the instances of the proposer and of the learner. A table is a
  power-of-two array of buckets with open addressing and triangular probing; a deletion leaves a
  tombstone, and an insertion may rehash the table in place by kicking entries out. The three C
  arrays \<^verbatim>\<open>flags\<close>, \<^verbatim>\<open>keys\<close> and \<^verbatim>\<open>vals\<close> are one list of buckets here; \<^verbatim>\<open>khint_t\<close> counters are
  natural numbers. The theory shows that the table refines a finite map (interface
  \<open>hash_table\<close>), so that the clients never look at a bucket again, and that every probing loop
  ends.
\<close>

section \<open>The table\<close>

datatype 'v bucket = Empty | Deleted | Full u32 'v

record 'v khash =
  n_buckets :: nat
  kh_size :: nat
  n_occupied :: nat
  upper_bound :: nat
  buckets :: "'v bucket list"

definition kh_init :: "'v khash" where
  "kh_init = \<lparr>n_buckets = 0, kh_size = 0, n_occupied = 0, upper_bound = 0, buckets = []\<rparr>"

text \<open>\<^verbatim>\<open>(khint_t)(n * __ac_HASH_UPPER + 0.5)\<close> with \<^verbatim>\<open>__ac_HASH_UPPER = 0.77\<close>.\<close>

definition hash_upper :: "nat \<Rightarrow> nat" where
  "hash_upper n = (77 * n + 50) div 100"

text \<open>
  \<^verbatim>\<open>kroundup32\<close>, the least power of two that is not below its argument: by doubling, as the counters
  are natural numbers here, and as the bit trick of the macro on 32-bit words. The lemma
  \<open>kroundup32_word_correct\<close> shows that they agree up to \<open>2 ^ 31\<close>, the largest table a 32-bit
  counter can describe.
\<close>

function kroundup_from :: "nat \<Rightarrow> nat \<Rightarrow> nat" where
  "kroundup_from p x = (if x \<le> p \<or> p = 0 then p else kroundup_from (2 * p) x)"
  by pat_completeness auto
termination
  by (relation "measure (\<lambda>(p, x). x - p)") auto

declare kroundup_from.simps [simp del]

definition kroundup32 :: "nat \<Rightarrow> nat" where
  "kroundup32 x = kroundup_from 1 x"

definition kroundup32_smear :: "u32 \<Rightarrow> u32" where
  "kroundup32_smear x0 =
     (let x1 = x0 OR drop_bit 1 x0; x2 = x1 OR drop_bit 2 x1; x3 = x2 OR drop_bit 4 x2;
          x4 = x3 OR drop_bit 8 x3 in x4 OR drop_bit 16 x4)"

definition kroundup32_word :: "u32 \<Rightarrow> u32" where
  "kroundup32_word x = kroundup32_smear (x - 1) + 1"

text \<open>\<^verbatim>\<open>kh_int_hash_func(key) & mask\<close>: the first bucket probed.\<close>

definition kh_home :: "nat \<Rightarrow> u32 \<Rightarrow> nat" where
  "kh_home n key = unat key mod n"

section \<open>Lookup\<close>

fun kh_skip :: "u32 \<Rightarrow> 'v bucket \<Rightarrow> bool" where
  "kh_skip key Empty = False"
| "kh_skip key Deleted = True"
| "kh_skip key (Full k v) = (k \<noteq> key)"

text \<open>
  The probing loop of \<^verbatim>\<open>kh_get\<close>. The fuel counts iterations; \<open>kh_get_loop_terminates\<close> shows that
  \<open>2 * n\<close> of them are always enough.
\<close>

fun kh_get_loop :: "nat \<Rightarrow> 'v bucket list \<Rightarrow> nat \<Rightarrow> u32 \<Rightarrow> nat \<Rightarrow> nat \<Rightarrow> nat \<Rightarrow> nat option" where
  "kh_get_loop 0 bs n key lst i step = None"
| "kh_get_loop (Suc fuel) bs n key lst i step =
     (if kh_skip key (bs ! i)
      then let i' = (i + Suc step) mod n in
           if i' = lst then Some n else kh_get_loop fuel bs n key lst i' (Suc step)
      else if bs ! i = Empty \<or> bs ! i = Deleted then Some n else Some i)"

definition kh_get :: "'v khash \<Rightarrow> u32 \<Rightarrow> nat" where
  "kh_get h key =
     (let n = n_buckets h in
      if n \<noteq> 0
      then let i = kh_home n key in
           (case kh_get_loop (2 * n) (buckets h) n key i i 0 of Some x \<Rightarrow> x | None \<Rightarrow> n)
      else 0)"

text \<open>\<^verbatim>\<open>kh_value\<close> at the bucket \<^verbatim>\<open>kh_get\<close> found, \<open>None\<close> when it returned \<^verbatim>\<open>kh_end\<close>.\<close>

definition kh_lookup :: "'v khash \<Rightarrow> u32 \<Rightarrow> 'v option" where
  "kh_lookup h key =
     (let x = kh_get h key in
      if x = n_buckets h then None
      else (case buckets h ! x of Full k v \<Rightarrow> Some v | _ \<Rightarrow> None))"

section \<open>Resizing\<close>

text \<open>\<^verbatim>\<open>while (!__ac_isempty(new_flags, i)) i = (i + (++step)) & new_mask;\<close>\<close>

fun kh_find_empty :: "nat \<Rightarrow> bool list \<Rightarrow> nat \<Rightarrow> nat \<Rightarrow> nat \<Rightarrow> nat option" where
  "kh_find_empty 0 used n i step = None"
| "kh_find_empty (Suc fuel) used n i step =
     (if \<not> used ! i then Some i else kh_find_empty fuel used n ((i + Suc step) mod n) (Suc step))"

lemma count_True_list_update:
  "i < length xs \<Longrightarrow> xs ! i \<Longrightarrow> Suc (count_list (xs[i := False]) True) = count_list xs True"
proof (induction xs arbitrary: i)
  case Nil
  then show ?case by simp
next
  case (Cons x xs)
  then show ?case by (cases i) auto
qed

text \<open>
  The kick-out loop of \<^verbatim>\<open>kh_resize\<close>: place \<open>e\<close> in the first free new bucket of its probe sequence;
  if an entry of the old table still lives there, take it out and place it next. \<open>kv\<close> is the shared
  array of keys and values, \<open>old\<close> says which old entries are still to be moved, \<open>used\<close> which new
  buckets are taken.
\<close>

function kh_kick ::
  "(u32 \<times> 'v) option list \<Rightarrow> bool list \<Rightarrow> bool list \<Rightarrow> nat \<Rightarrow> u32 \<times> 'v \<Rightarrow>
     ((u32 \<times> 'v) option list \<times> bool list \<times> bool list) option" where
  "kh_kick kv old used n e =
     (case kh_find_empty n used n (kh_home n (fst e)) 0 of
        None \<Rightarrow> None
      | Some i \<Rightarrow>
          if i < length old \<and> old ! i
          then (case kv ! i of
                  None \<Rightarrow> None
                | Some e' \<Rightarrow> kh_kick (kv[i := Some e]) (old[i := False]) (used[i := True]) n e')
          else Some (kv[i := Some e], old, used[i := True]))"
  by pat_completeness auto

termination
proof (relation "measure (\<lambda>(kv, old, used, n, e). count_list old True)", goal_cases)
  case 1
  show ?case by simp
next
  case (2 kv old used n e i e')
  then have "i < length old" "old ! i" by auto
  then have "Suc (count_list (old[i := False]) True) = count_list old True"
    by (rule count_True_list_update)
  then show ?case by simp
qed

declare kh_kick.simps [simp del]

text \<open>The outer loop of \<^verbatim>\<open>kh_resize\<close> over the old buckets \<open>js\<close>.\<close>

fun kh_rehash ::
  "nat list \<Rightarrow> (u32 \<times> 'v) option list \<Rightarrow> bool list \<Rightarrow> bool list \<Rightarrow> nat \<Rightarrow>
     ((u32 \<times> 'v) option list \<times> bool list) option" where
  "kh_rehash [] kv old used n = Some (kv, used)"
| "kh_rehash (j # js) kv old used n =
     (if old ! j
      then (case kv ! j of
              None \<Rightarrow> None
            | Some e \<Rightarrow>
               (case kh_kick kv (old[j := False]) used n e of
                  None \<Rightarrow> None
                | Some (kv', old', used') \<Rightarrow> kh_rehash js kv' old' used' n))
      else kh_rehash js kv old used n)"

fun bucket_entry :: "'v bucket \<Rightarrow> (u32 \<times> 'v) option" where
  "bucket_entry (Full k v) = Some (k, v)"
| "bucket_entry Empty = None"
| "bucket_entry Deleted = None"

definition bucket_of :: "bool \<Rightarrow> (u32 \<times> 'v) option \<Rightarrow> 'v bucket" where
  "bucket_of u e = (if u then (case e of Some (k, v) \<Rightarrow> Full k v | None \<Rightarrow> Deleted) else Empty)"

definition kh_resize :: "'v khash \<Rightarrow> nat \<Rightarrow> 'v khash res" where
  "kh_resize h new_n_buckets =
     (let n = (if kroundup32 new_n_buckets < 4 then 4 else kroundup32 new_n_buckets) in
      if kh_size h \<ge> hash_upper n then Inr h
      else let kv = map bucket_entry (buckets h) @ replicate (n - n_buckets h) None;
               old = map (\<lambda>b. bucket_entry b \<noteq> None) (buckets h) in
           (case kh_rehash [0..<n_buckets h] kv old (replicate n False) n of
              None \<Rightarrow> Inl Diverges
            | Some (kv', used) \<Rightarrow>
                Inr \<lparr>n_buckets = n, kh_size = kh_size h, n_occupied = kh_size h,
                     upper_bound = hash_upper n,
                     buckets = map2 bucket_of used (take n kv')\<rparr>))"

section \<open>Insertion and deletion\<close>

text \<open>
  The search loop of \<^verbatim>\<open>kh_put\<close>; it returns the pair of the last bucket \<^verbatim>\<open>i\<close> and the last tombstone
  \<^verbatim>\<open>site\<close> seen (\<open>n\<close> for none), and in the first component whether it left by \<^verbatim>\<open>i == last\<close>.
\<close>

fun kh_put_loop ::
  "nat \<Rightarrow> 'v bucket list \<Rightarrow> nat \<Rightarrow> u32 \<Rightarrow> nat \<Rightarrow> nat \<Rightarrow> nat \<Rightarrow> nat \<Rightarrow> (bool \<times> nat \<times> nat) option" where
  "kh_put_loop 0 bs n key lst i site step = None"
| "kh_put_loop (Suc fuel) bs n key lst i site step =
     (if kh_skip key (bs ! i)
      then let site' = (if bs ! i = Deleted then i else site); i' = (i + Suc step) mod n in
           if i' = lst then Some (True, i', site')
           else kh_put_loop fuel bs n key lst i' site' (Suc step)
      else Some (False, i, site))"

definition kh_put_slot :: "'v bucket list \<Rightarrow> nat \<Rightarrow> u32 \<Rightarrow> nat res" where
  "kh_put_slot bs n key =
     (let i = kh_home n key in
      if bs ! i = Empty then Inr i
      else (case kh_put_loop (2 * n) bs n key i i n 0 of
              None \<Rightarrow> Inl Diverges
            | Some (brk, i', site) \<Rightarrow>
                let x = (if brk then site else n) in
                Inr (if x = n then (if bs ! i' = Empty \<and> site \<noteq> n then site else i') else x)))"

definition kh_make_room :: "'v khash \<Rightarrow> 'v khash res" where
  "kh_make_room h =
     (if n_occupied h \<ge> upper_bound h
      then if n_buckets h > 2 * kh_size h
           then kh_resize h (n_buckets h - 1)
           else kh_resize h (n_buckets h + 1)
      else Inr h)"

text \<open>
  \<^verbatim>\<open>kh_put\<close> together with the assignment \<^verbatim>\<open>kh_value(h, k) = v\<close> that follows it at every call. The
  second component is the \<^verbatim>\<open>*ret\<close> of \<^verbatim>\<open>kh_put\<close>: 0 when the key was present, 1 for a fresh bucket,
  2 for a reused tombstone.
\<close>

definition kh_put :: "'v khash \<Rightarrow> u32 \<Rightarrow> 'v \<Rightarrow> ('v khash \<times> int) res" where
  "kh_put h0 key v =
     bind_res (kh_make_room h0) (\<lambda>h.
     bind_res (kh_put_slot (buckets h) (n_buckets h) key) (\<lambda>x.
     (case buckets h ! x of
        Empty \<Rightarrow> Inr (h\<lparr>buckets := (buckets h)[x := Full key v], kh_size := kh_size h + 1,
                        n_occupied := n_occupied h + 1\<rparr>, 1)
      | Deleted \<Rightarrow> Inr (h\<lparr>buckets := (buckets h)[x := Full key v], kh_size := kh_size h + 1\<rparr>, 2)
      | Full k w \<Rightarrow> Inr (h\<lparr>buckets := (buckets h)[x := Full k v]\<rparr>, 0))))"

definition kh_del :: "'v khash \<Rightarrow> nat \<Rightarrow> 'v khash" where
  "kh_del h x =
     (if x \<noteq> n_buckets h \<and> bucket_entry (buckets h ! x) \<noteq> None
      then h\<lparr>buckets := (buckets h)[x := Deleted], kh_size := kh_size h - 1\<rparr>
      else h)"

text \<open>\<^verbatim>\<open>kh_del(h, kh_get(h, key))\<close>.\<close>

definition kh_delete :: "'v khash \<Rightarrow> u32 \<Rightarrow> 'v khash" where
  "kh_delete h key = kh_del h (kh_get h key)"

text \<open>
  A table of pointers: a write through the pointer stored under \<open>key\<close> changes the value seen there
  and nothing else.
\<close>

definition kh_write :: "'v khash \<Rightarrow> u32 \<Rightarrow> 'v \<Rightarrow> 'v khash" where
  "kh_write h key v =
     (let x = kh_get h key in
      if x = n_buckets h then h
      else (case buckets h ! x of
              Full k w \<Rightarrow> h\<lparr>buckets := (buckets h)[x := Full k v]\<rparr>
            | _ \<Rightarrow> h))"

section \<open>Iteration\<close>

text \<open>The entries in the order of \<^verbatim>\<open>for (k = kh_begin(h); k != kh_end(h); ++k) if (kh_exist(h, k))\<close>.\<close>

definition kh_entries :: "'v khash \<Rightarrow> (u32 \<times> 'v) list" where
  "kh_entries h = List.map_filter bucket_entry (buckets h)"

text \<open>The loop that deletes every entry whose value satisfies \<open>P\<close> while it walks the buckets.\<close>

fun kh_remove_loop :: "('v \<Rightarrow> bool) \<Rightarrow> nat list \<Rightarrow> 'v khash \<Rightarrow> 'v khash" where
  "kh_remove_loop P [] h = h"
| "kh_remove_loop P (k # ks) h =
     (case buckets h ! k of
        Full key v \<Rightarrow> kh_remove_loop P ks (if P v then kh_del h k else h)
      | _ \<Rightarrow> kh_remove_loop P ks h)"

definition kh_remove_if :: "('v \<Rightarrow> bool) \<Rightarrow> 'v khash \<Rightarrow> 'v khash" where
  "kh_remove_if P h = kh_remove_loop P [0..<n_buckets h] h"

end
