(* ===== verification/Khash_Refine.thy ===== *)
theory Khash_Refine
  imports Khash "HOL-Library.Log_Nat"
begin

text \<open>
  The table of \<open>Khash\<close> refines a finite map. The theory first shows that triangular probing visits
  every bucket of a power-of-two table, then that the loops of \<^verbatim>\<open>kh_get\<close>, \<^verbatim>\<open>kh_put\<close> and \<^verbatim>\<open>kh_resize\<close>
  end with the right bucket under the invariant \<open>kh_ok\<close>, and closes with the interface
  \<open>hash_table\<close> and its interpretation, which is all the other theories use.
\<close>

section \<open>Triangular probing\<close>

definition kh_probe :: "nat \<Rightarrow> u32 \<Rightarrow> nat \<Rightarrow> nat" where
  "kh_probe n key s = (unat key + s * (s + 1) div 2) mod n"

lemma kh_probe_0: "kh_probe n key 0 = kh_home n key"
  by (simp add: kh_probe_def kh_home_def)

lemma kh_probe_Suc: "Suc (kh_probe n key s + s) mod n = kh_probe n key (Suc s)"
proof -
  have "Suc s * (Suc s + 1) div 2 = s * (s + 1) div 2 + Suc s"
    by (simp add: algebra_simps)
  then have "kh_probe n key (Suc s) = ((unat key + s * (s + 1) div 2) + Suc s) mod n"
    by (simp add: kh_probe_def add.assoc)
  also have "\<dots> = ((unat key + s * (s + 1) div 2) mod n + Suc s) mod n"
    by (simp only: mod_add_left_eq)
  finally show ?thesis by (simp add: kh_probe_def)
qed

lemma kh_probe_less: "0 < n \<Longrightarrow> kh_probe n key s < n"
  by (simp add: kh_probe_def)

lemma kh_probe_wrap: "0 < n \<Longrightarrow> kh_probe n key (2 * n - 1) = kh_probe n key 0"
proof -
  assume "0 < n"
  then have "(2 * n - 1) * (2 * n - 1 + 1) div 2 = (2 * n - 1) * n"
    by simp
  then show ?thesis by (simp add: kh_probe_def)
qed

lemma pow2_dvd_odd_mult:
  assumes "(2::nat) ^ m dvd a * b" and "odd b"
  shows "2 ^ m dvd a"
proof -
  have "coprime (2 ^ m) b" using assms(2) by simp
  then show ?thesis using assms(1) by (simp add: coprime_dvd_mult_left_iff)
qed

lemma triangle_diff:
  assumes "a < (b::nat)"
  shows "(b * (b + 1) div 2 - a * (a + 1) div 2) * 2 = (b - a) * (a + b + 1)"
    and "a * (a + 1) div 2 \<le> b * (b + 1) div 2"
proof -
  have le: "a * (a + 1) \<le> b * (b + 1)"
    using assms by (intro mult_le_mono) auto
  then show "a * (a + 1) div 2 \<le> b * (b + 1) div 2"
    by (rule div_le_mono)
  have "(b * (b + 1) div 2 - a * (a + 1) div 2) * 2 = b * (b + 1) - a * (a + 1)"
    by (simp add: diff_mult_distrib)
  also have "\<dots> = (b - a) * (a + b + 1)"
  proof -
    obtain d where "b = a + d" using assms less_imp_add_positive by blast
    then show ?thesis by (simp add: algebra_simps)
  qed
  finally show "(b * (b + 1) div 2 - a * (a + 1) div 2) * 2 = (b - a) * (a + b + 1)" .
qed

lemma triangle_inj:
  fixes a b x m :: nat
  assumes "a < b" "b < 2 ^ m" "(x + a * (a + 1) div 2) mod 2 ^ m = (x + b * (b + 1) div 2) mod 2 ^ m"
  shows False
proof -
  let ?T = "\<lambda>s::nat. s * (s + 1) div 2"
  have "2 ^ m dvd (x + ?T b) - (x + ?T a)"
    using assms(3) triangle_diff(2)[OF assms(1)] by (metis add_le_mono1 add.commute mod_eq_dvd_iff_nat)
  then have "2 ^ m dvd ?T b - ?T a" by simp
  then have "2 ^ m * 2 dvd (?T b - ?T a) * 2" by (rule mult_dvd_mono) simp
  then have d: "2 ^ Suc m dvd (b - a) * (a + b + 1)"
    unfolding triangle_diff(1)[OF assms(1)] by (simp add: mult.commute)
  show False
  proof (cases "even (b - a)")
    case True
    with assms(1) have "odd (a + b + 1)" by (simp add: even_diff_nat)
    with d have "2 ^ Suc m dvd b - a" by (rule pow2_dvd_odd_mult)
    with assms(1) have "2 ^ Suc m \<le> b - a" by (intro dvd_imp_le) auto
    with assms(2) show False by (simp add: power_Suc)
  next
    case False
    with d have "2 ^ Suc m dvd a + b + 1" by (metis mult.commute pow2_dvd_odd_mult)
    then have "2 ^ Suc m \<le> a + b + 1" by (intro dvd_imp_le) auto
    with assms(1,2) show False by (simp add: power_Suc)
  qed
qed

lemma kh_probe_inj: "inj_on (kh_probe (2 ^ m) key) {..<2 ^ m}"
  unfolding inj_on_def kh_probe_def
  by (metis lessThan_iff linorder_neqE_nat triangle_inj)

lemma kh_probe_surj:
  assumes "j < 2 ^ m"
  shows "\<exists>s < 2 ^ m. kh_probe (2 ^ m) key s = j"
proof -
  have "kh_probe (2 ^ m) key ` {..<2 ^ m} = {..<2 ^ m}"
    by (rule endo_inj_surj) (auto simp: kh_probe_inj kh_probe_less)
  with assms show ?thesis by (metis (no_types, lifting) image_iff lessThan_iff)
qed

lemma kh_probe_not_home:
  assumes "0 < s" "s < 2 ^ m"
  shows "kh_probe (2 ^ m) key s \<noteq> kh_home (2 ^ m) key"
  using kh_probe_inj[of m key] assms unfolding kh_probe_0[symmetric] inj_on_def
  by (metis lessThan_iff less_nat_zero_code zero_less_numeral zero_less_power)

lemma kroundup_from_pow2:
  assumes "2 ^ a < x" "x \<le> 2 ^ Suc b" "a \<le> b" "2 ^ b < x"
  shows "kroundup_from (2 ^ a) x = 2 ^ Suc b"
  using assms
proof (induction "b - a" arbitrary: a)
  case 0
  then have "a = b" by simp
  with 0 show ?case by (simp add: kroundup_from.simps)
next
  case (Suc d)
  then have "2 ^ Suc a \<le> (2::nat) ^ b" by (intro power_increasing) auto
  with Suc.prems have "2 ^ Suc a < x" by linarith
  moreover have "d = b - Suc a" "Suc a \<le> b" using Suc.hyps(2) by auto
  ultimately have "kroundup_from (2 ^ Suc a) x = 2 ^ Suc b"
    using Suc.hyps(1)[of "Suc a"] Suc.prems by blast
  with Suc.prems show ?case by (simp add: kroundup_from.simps[of "2 ^ a" x])
qed

lemma kroundup32_1: "kroundup32 1 = 1"
  by (simp add: kroundup32_def kroundup_from.simps)

lemma kroundup32_pred: "2 \<le> m \<Longrightarrow> kroundup32 (2 ^ m - 1) = 2 ^ m"
proof -
  assume "2 \<le> m"
  then obtain k where k: "m = Suc (Suc k)" by (metis add_2_eq_Suc le_Suc_ex)
  have "(1::nat) \<le> 2 ^ k" by simp
  then have "1 < 4 * 2 ^ k - (1::nat)" "2 * 2 ^ k < 4 * 2 ^ k - (1::nat)" by linarith+
  then have "kroundup_from (2 ^ 0) (2 ^ m - 1) = 2 ^ Suc (Suc k)"
    by (intro kroundup_from_pow2) (auto simp: k)
  then show ?thesis by (simp add: kroundup32_def k)
qed

lemma kroundup32_succ: "kroundup32 (2 ^ m + 1) = 2 ^ Suc m"
  unfolding kroundup32_def using kroundup_from_pow2[of 0 "2 ^ m + 1" m] by simp

section \<open>The rounding macro\<close>

lemma smear_step:
  fixes x y :: "u32"
  assumes "\<And>i. bit x i \<longleftrightarrow> (\<exists>k < n. bit y (i + k))"
  shows "bit (x OR drop_bit n x) i \<longleftrightarrow> (\<exists>k < 2 * n. bit y (i + k))"
proof -
  have "bit (x OR drop_bit n x) i \<longleftrightarrow> (\<exists>k < n. bit y (i + k)) \<or> (\<exists>k < n. bit y (i + n + k))"
    by (simp add: bit_or_iff bit_drop_bit_eq assms add.commute add.left_commute)
  also have "\<dots> \<longleftrightarrow> (\<exists>k < 2 * n. bit y (i + k))"
  proof
    assume "(\<exists>k < n. bit y (i + k)) \<or> (\<exists>k < n. bit y (i + n + k))"
    then show "\<exists>k < 2 * n. bit y (i + k)"
    proof
      assume "\<exists>k < n. bit y (i + n + k)"
      then obtain k where "k < n" "bit y (i + (n + k))" by (auto simp: add.assoc)
      then show ?thesis by (intro exI[of _ "n + k"]) simp
    next
      assume "\<exists>k < n. bit y (i + k)"
      then show ?thesis by (metis add_lessD1 mult_2 trans_less_add1)
    qed
  next
    assume "\<exists>k < 2 * n. bit y (i + k)"
    then obtain k where k: "k < 2 * n" "bit y (i + k)" by blast
    show "(\<exists>k < n. bit y (i + k)) \<or> (\<exists>k < n. bit y (i + n + k))"
    proof (cases "k < n")
      case False
      then have "k - n < n" "i + n + (k - n) = i + k" using k(1) by auto
      with k(2) show ?thesis by metis
    qed (use k in auto)
  qed
  finally show ?thesis .
qed

lemma smear_bit: "bit (kroundup32_smear y) i \<longleftrightarrow> (\<exists>k < 32. bit y (i + k))"
proof -
  have s0: "bit y i \<longleftrightarrow> (\<exists>k < 1. bit y (i + k))" for i by auto
  note s1 = smear_step[OF s0, simplified]
  note s2 = smear_step[OF s1, simplified]
  note s3 = smear_step[OF s2, simplified]
  note s4 = smear_step[OF s3, simplified]
  show ?thesis using smear_step[OF s4, simplified] by (simp add: kroundup32_smear_def Let_def)
qed

lemma smear_mask:
  assumes "2 ^ m \<le> unat y" "unat y < 2 ^ Suc m"
  shows "kroundup32_smear y = mask (Suc m)"
proof (rule bit_word_eqI)
  fix i assume i: "i < LENGTH(32)"
  have bw: "bit y j \<longleftrightarrow> odd (unat y div 2 ^ j)" for j
  proof -
    have "bit y j \<longleftrightarrow> bit (unat y) j" by (simp add: bit_unsigned_iff)
    then show ?thesis by (simp add: bit_iff_odd)
  qed
  have top: "bit y m" 
  proof -
    have "unat y div 2 ^ m = 1" using assms by (simp add: Euclidean_Rings.div_nat_eqI)
    then show ?thesis by (simp add: bw)
  qed
  have none: "\<not> bit y j" if "m < j" for j
  proof -
    have "(2::nat) ^ Suc m \<le> 2 ^ j" using that by (intro power_increasing) auto
    then have "unat y div 2 ^ j = 0" using assms(2) by simp
    then show ?thesis by (simp add: bw)
  qed
  have "m < 32" using top bit_imp_le_length[OF top] by simp
  have "(\<exists>k < 32. bit y (i + k)) \<longleftrightarrow> i \<le> m"
  proof
    assume "\<exists>k < 32. bit y (i + k)"
    then obtain k where "bit y (i + k)" by blast
    then have "i + k \<le> m" using none not_less by blast
    then show "i \<le> m" by simp
  next
    assume "i \<le> m"
    then show "\<exists>k < 32. bit y (i + k)" using top \<open>m < 32\<close> by (intro exI[of _ "m - i"]) auto
  qed
  then show "bit (kroundup32_smear y) i \<longleftrightarrow> bit (mask (Suc m) :: u32) i"
    using i by (simp add: smear_bit bit_mask_iff less_Suc_eq_le)
qed

lemma kroundup32_word_pow2:
  assumes "2 ^ m < unat x" "unat x \<le> 2 ^ Suc m" "m < 31"
  shows "unat (kroundup32_word x) = 2 ^ Suc m"
proof -
  have "unat (x - 1) = unat x - 1" using assms(1) by (intro unat_minus_one) auto
  then have "kroundup32_smear (x - 1) = mask (Suc m)" using assms(1,2) by (intro smear_mask) auto
  then have "kroundup32_word x = 2 ^ Suc m" by (simp add: kroundup32_word_def mask_eq_exp_minus_1)
  then have "kroundup32_word x = of_nat (2 ^ Suc m)" by simp
  moreover have "(2::nat) ^ Suc m < 2 ^ 32" using assms(3) by (intro power_strict_increasing) auto
  moreover have "unat (of_nat n :: u32) = n" if "n < 2 ^ 32" for n
    using that by (simp add: unsigned_of_nat take_bit_nat_eq_self)
  ultimately show ?thesis by metis
qed

text \<open>The macro and the doubling loop agree on every size a 32-bit counter can hold.\<close>

lemma kroundup32_word_correct:
  assumes "2 \<le> unat x" "unat x \<le> 2 ^ 31"
  shows "unat (kroundup32_word x) = kroundup32 (unat x)"
proof -
  define m where "m = floorlog 2 (unat x - 1) - 1"
  have "floorlog 2 (unat x - 1) \<noteq> 0" using assms(1) by (simp add: floorlog_eq_zero_iff)
  then have "2 ^ m \<le> unat x - 1" "unat x - 1 < 2 ^ Suc m"
    using floorlog_bounds[of "unat x - 1" 2] assms(1) by (simp_all add: m_def)
  then have m: "2 ^ m < unat x" "unat x \<le> 2 ^ Suc m" using assms(1) by linarith+
  have "(2::nat) ^ m < 2 ^ 31" using m(1) assms(2) by linarith
  then have "m < 31" by (rule power_less_imp_less_exp[rotated]) simp
  have "kroundup_from (2 ^ 0) (unat x) = 2 ^ Suc m"
    using m assms(1) by (intro kroundup_from_pow2) auto
  then have "kroundup32 (unat x) = 2 ^ Suc m" by (simp add: kroundup32_def)
  with kroundup32_word_pow2[OF m \<open>m < 31\<close>] show ?thesis by simp
qed

section \<open>Lookup\<close>

definition bs_reach :: "'v bucket list \<Rightarrow> nat \<Rightarrow> bool" where
  "bs_reach bs n \<longleftrightarrow> (\<forall>j k v. j < n \<longrightarrow> bs ! j = Full k v \<longrightarrow>
     (\<exists>s < n. kh_probe n k s = j \<and> (\<forall>t < s. bs ! kh_probe n k t \<noteq> Empty)))"

definition bs_keys_distinct :: "'v bucket list \<Rightarrow> nat \<Rightarrow> bool" where
  "bs_keys_distinct bs n \<longleftrightarrow> (\<forall>i j k v w. i < n \<longrightarrow> j < n \<longrightarrow>
     bs ! i = Full k v \<longrightarrow> bs ! j = Full k w \<longrightarrow> i = j)"

lemma kh_skip_iff: "\<not> kh_skip key b \<longleftrightarrow> b = Empty \<or> (\<exists>v. b = Full key v)"
  by (cases b) auto

lemma kh_get_loop_terminates_aux:
  assumes "0 < n" "step < 2 * n - 1" "fuel + step = 2 * n"
  shows "\<exists>x. kh_get_loop fuel bs n key (kh_probe n key 0) (kh_probe n key step) step = Some x"
  using assms(2,3)
proof (induction fuel arbitrary: step)
  case 0
  then show ?case by simp
next
  case (Suc fuel)
  show ?case
  proof (cases "Suc step = 2 * n - 1")
    case True
    then have "kh_probe n key (Suc step) = kh_probe n key 0"
      using kh_probe_wrap[OF assms(1), of key] by simp
    then show ?thesis by (simp add: kh_probe_Suc Let_def)
  next
    case False
    with Suc show ?thesis by (simp add: kh_probe_Suc Let_def)
  qed
qed

lemma kh_get_loop_terminates:
  "0 < n \<Longrightarrow> \<exists>x. kh_get_loop (2 * n) bs n key (kh_home n key) (kh_home n key) 0 = Some x"
  using kh_get_loop_terminates_aux[of n 0 "2 * n"] by (simp add: kh_probe_0)

lemma kh_get_loop_sound:
  assumes "kh_get_loop fuel bs n key lst i step = Some x" "i < n" "0 < n"
  shows "x = n \<or> (x < n \<and> (\<exists>v. bs ! x = Full key v))"
  using assms(1,2)
proof (induction fuel arbitrary: i step)
  case 0
  then show ?case by simp
next
  case (Suc fuel)
  then show ?case
    using assms(3) by (auto simp: Let_def kh_skip_iff split: if_splits)
qed

lemma kh_get_loop_complete:
  assumes "s < 2 ^ m" "bs ! kh_probe (2 ^ m) key s = Full key v"
    "\<forall>t < s. kh_skip key (bs ! kh_probe (2 ^ m) key t)" "step \<le> s" "s < fuel + step"
  shows "kh_get_loop fuel bs (2 ^ m) key (kh_home (2 ^ m) key) (kh_probe (2 ^ m) key step) step
           = Some (kh_probe (2 ^ m) key s)"
  using assms(4,5)
proof (induction fuel arbitrary: step)
  case 0
  then show ?case by simp
next
  case (Suc fuel)
  show ?case
  proof (cases "step = s")
    case True
    with assms(2) show ?thesis by simp
  next
    case False
    with Suc.prems have "Suc step \<le> s" by simp
    then have "kh_probe (2 ^ m) key (Suc step) \<noteq> kh_home (2 ^ m) key"
      using assms(1) by (intro kh_probe_not_home) auto
    moreover have "kh_skip key (bs ! kh_probe (2 ^ m) key step)"
      using assms(3) False Suc.prems(1) by simp
    ultimately show ?thesis
      using Suc.IH[of "Suc step"] Suc.prems \<open>Suc step \<le> s\<close> by (simp add: Let_def kh_probe_Suc)
  qed
qed

lemma bs_path_skips:
  assumes "bs_keys_distinct bs (2 ^ m)" "s < 2 ^ m" "bs ! kh_probe (2 ^ m) key s = Full key v"
    "\<forall>t < s. bs ! kh_probe (2 ^ m) key t \<noteq> Empty" "t < s"
  shows "kh_skip key (bs ! kh_probe (2 ^ m) key t)"
proof (rule ccontr)
  assume "\<not> ?thesis"
  with assms(4,5) obtain w where "bs ! kh_probe (2 ^ m) key t = Full key w"
    by (auto simp: kh_skip_iff)
  with assms(1,3) have "kh_probe (2 ^ m) key t = kh_probe (2 ^ m) key s"
    unfolding bs_keys_distinct_def by (metis kh_probe_less zero_less_numeral zero_less_power)
  with kh_probe_inj[of m key] assms(2,5) show False
    unfolding inj_on_def by (metis lessThan_iff less_trans nat_neq_iff)
qed

text \<open>The table invariant.\<close>

definition kh_ok :: "'v khash \<Rightarrow> bool" where
  "kh_ok h \<longleftrightarrow>
     length (buckets h) = n_buckets h \<and>
     (n_buckets h = 0 \<or> (\<exists>m \<ge> 2. n_buckets h = 2 ^ m)) \<and>
     kh_size h = card {j. j < n_buckets h \<and> bucket_entry (buckets h ! j) \<noteq> None} \<and>
     n_occupied h = card {j. j < n_buckets h \<and> buckets h ! j \<noteq> Empty} \<and>
     upper_bound h = hash_upper (n_buckets h) \<and>
     n_occupied h \<le> upper_bound h \<and>
     bs_keys_distinct (buckets h) (n_buckets h) \<and>
     bs_reach (buckets h) (n_buckets h)"

lemma kh_get_found:
  assumes "kh_ok h" "j < n_buckets h" "buckets h ! j = Full key v"
  shows "kh_get h key = j"
proof -
  from assms(1,2) obtain m where n: "n_buckets h = 2 ^ m" unfolding kh_ok_def by auto
  have reach: "bs_reach (buckets h) (2 ^ m)" and dist: "bs_keys_distinct (buckets h) (2 ^ m)"
    using assms(1) n by (simp_all add: kh_ok_def)
  from reach assms(2,3) n obtain s where s: "s < 2 ^ m" "kh_probe (2 ^ m) key s = j"
      "\<forall>t < s. buckets h ! kh_probe (2 ^ m) key t \<noteq> Empty"
    unfolding bs_reach_def by auto
  have "\<forall>t < s. kh_skip key (buckets h ! kh_probe (2 ^ m) key t)"
    using bs_path_skips[OF dist s(1) _ s(3)] assms(3) s(2) by simp
  then have "kh_get_loop (2 * 2 ^ m) (buckets h) (2 ^ m) key (kh_home (2 ^ m) key)
      (kh_probe (2 ^ m) key 0) 0 = Some j"
    using kh_get_loop_complete[of s m "buckets h" key v 0 "2 * 2 ^ m"] s assms(3) by simp
  then show ?thesis by (simp add: kh_get_def n kh_probe_0 Let_def)
qed

lemma kh_get_sound:
  "kh_get h key = n_buckets h \<or>
   (kh_get h key < n_buckets h \<and> (\<exists>v. buckets h ! kh_get h key = Full key v))"
proof (cases "n_buckets h = 0")
  case True
  then show ?thesis by (simp add: kh_get_def)
next
  case False
  then obtain x where x: "kh_get_loop (2 * n_buckets h) (buckets h) (n_buckets h) key
      (kh_home (n_buckets h) key) (kh_home (n_buckets h) key) 0 = Some x"
    using kh_get_loop_terminates by blast
  then have "x = n_buckets h \<or> (x < n_buckets h \<and> (\<exists>v. buckets h ! x = Full key v))"
    by (rule kh_get_loop_sound) (use False in \<open>auto simp: kh_home_def\<close>)
  with x False show ?thesis by (simp add: kh_get_def Let_def)
qed

lemma kh_lookup_iff:
  assumes "kh_ok h"
  shows "kh_lookup h key = Some v \<longleftrightarrow> (\<exists>j < n_buckets h. buckets h ! j = Full key v)"
proof
  assume "kh_lookup h key = Some v"
  then show "\<exists>j < n_buckets h. buckets h ! j = Full key v"
    using kh_get_sound[of h key] by (auto simp: kh_lookup_def Let_def split: if_splits)
next
  assume "\<exists>j < n_buckets h. buckets h ! j = Full key v"
  then show "kh_lookup h key = Some v"
    using kh_get_found[OF assms] by (auto simp: kh_lookup_def)
qed

lemma kh_lookup_None_iff:
  assumes "kh_ok h"
  shows "kh_lookup h key = None \<longleftrightarrow> (\<forall>j < n_buckets h. \<forall>v. buckets h ! j \<noteq> Full key v)"
  using kh_lookup_iff[OF assms, of key] by (metis not_None_eq)

lemma kh_get_end_iff:
  assumes "kh_ok h"
  shows "kh_get h key = n_buckets h \<longleftrightarrow> kh_lookup h key = None"
  using kh_get_sound[of h key] kh_get_found[OF assms] kh_lookup_None_iff[OF assms, of key]
  by (metis nat_neq_iff)

section \<open>Where \<^verbatim>\<open>kh_put\<close> puts a key\<close>

lemma kh_put_loop_terminates_aux:
  assumes "0 < n" "step < 2 * n - 1" "fuel + step = 2 * n"
  shows "\<exists>r. kh_put_loop fuel bs n key (kh_probe n key 0) (kh_probe n key step) site step = Some r"
  using assms(2,3)
proof (induction fuel arbitrary: step site)
  case 0
  then show ?case by simp
next
  case (Suc fuel)
  show ?case
  proof (cases "Suc step = 2 * n - 1")
    case True
    then have "kh_probe n key (Suc step) = kh_probe n key 0"
      using kh_probe_wrap[OF assms(1), of key] by simp
    then show ?thesis by (cases "kh_skip key (bs ! kh_probe n key step)") (auto simp: kh_probe_Suc Let_def)
  next
    case False
    with Suc show ?thesis
      by (cases "kh_skip key (bs ! kh_probe n key step)") (auto simp: kh_probe_Suc Let_def)
  qed
qed

lemma kh_put_loop_terminates:
  "0 < n \<Longrightarrow> \<exists>r. kh_put_loop (2 * n) bs n key (kh_home n key) (kh_home n key) n 0 = Some r"
  using kh_put_loop_terminates_aux[of n 0 "2 * n"] by (simp add: kh_probe_0)

lemma kh_put_loop_stops:
  assumes "s < 2 ^ m" "\<not> kh_skip key (bs ! kh_probe (2 ^ m) key s)"
    "\<forall>t < s. kh_skip key (bs ! kh_probe (2 ^ m) key t)" "step \<le> s" "s < fuel + step"
  shows "\<exists>site'. kh_put_loop fuel bs (2 ^ m) key (kh_home (2 ^ m) key)
             (kh_probe (2 ^ m) key step) site step = Some (False, kh_probe (2 ^ m) key s, site') \<and>
           (site' = site \<or> (\<exists>t < s. site' = kh_probe (2 ^ m) key t \<and> bs ! site' = Deleted))"
  using assms(4,5)
proof (induction fuel arbitrary: step site)
  case 0
  then show ?case by simp
next
  case (Suc fuel)
  show ?case
  proof (cases "step = s")
    case True
    with assms(2) show ?thesis by simp
  next
    case False
    let ?site = "if bs ! kh_probe (2 ^ m) key step = Deleted then kh_probe (2 ^ m) key step else site"
    from False Suc.prems have le: "Suc step \<le> s" by simp
    then have "kh_probe (2 ^ m) key (Suc step) \<noteq> kh_home (2 ^ m) key"
      using assms(1) by (intro kh_probe_not_home) auto
    moreover have "kh_skip key (bs ! kh_probe (2 ^ m) key step)"
      using assms(3) False Suc.prems(1) by simp
    ultimately have "kh_put_loop (Suc fuel) bs (2 ^ m) key (kh_home (2 ^ m) key)
             (kh_probe (2 ^ m) key step) site step =
        kh_put_loop fuel bs (2 ^ m) key (kh_home (2 ^ m) key)
             (kh_probe (2 ^ m) key (Suc step)) ?site (Suc step)"
      by (simp add: Let_def kh_probe_Suc)
    moreover obtain site' where "kh_put_loop fuel bs (2 ^ m) key (kh_home (2 ^ m) key)
             (kh_probe (2 ^ m) key (Suc step)) ?site (Suc step) =
               Some (False, kh_probe (2 ^ m) key s, site')"
        "site' = ?site \<or> (\<exists>t < s. site' = kh_probe (2 ^ m) key t \<and> bs ! site' = Deleted)"
      using Suc.IH[of "Suc step" ?site] le Suc.prems by auto
    moreover have "?site = site \<or> (\<exists>t < s. ?site = kh_probe (2 ^ m) key t \<and> bs ! ?site = Deleted)"
      using le by (metis Suc_le_lessD)
    ultimately show ?thesis by metis
  qed
qed

text \<open>The first bucket of the probe sequence that is empty or holds the key.\<close>

lemma first_stop_exists:
  assumes "e < 2 ^ m" "bs ! e = Empty"
  shows "\<exists>s < 2 ^ m. \<not> kh_skip key (bs ! kh_probe (2 ^ m) key s) \<and>
           (\<forall>t < s. kh_skip key (bs ! kh_probe (2 ^ m) key t))"
proof -
  let ?stop = "\<lambda>s. \<not> kh_skip key (bs ! kh_probe (2 ^ m) key s)"
  from assms obtain s where s: "s < 2 ^ m" "kh_probe (2 ^ m) key s = e"
    using kh_probe_surj by blast
  with assms(2) have "?stop s" by simp
  define l where "l = (LEAST s. ?stop s)"
  have "?stop l" "l \<le> s"
    unfolding l_def using \<open>?stop s\<close> by (rule LeastI, rule Least_le)
  moreover have "\<forall>t < l. \<not> ?stop t" unfolding l_def using not_less_Least by blast
  ultimately have "l < 2 ^ m \<and> ?stop l \<and> (\<forall>t < l. kh_skip key (bs ! kh_probe (2 ^ m) key t))"
    using s(1) by simp
  then show ?thesis by blast
qed

lemma skip_not_Empty: "kh_skip key b \<Longrightarrow> b \<noteq> Empty"
  by auto

lemma kh_put_slot_spec:
  assumes "e < 2 ^ m" "bs ! e = Empty"
  obtains s x where "kh_put_slot bs (2 ^ m) key = Inr x" "s < 2 ^ m" "kh_probe (2 ^ m) key s = x"
    "\<forall>t < s. bs ! kh_probe (2 ^ m) key t \<noteq> Empty"
    "(\<exists>v. bs ! x = Full key v) \<or>
     (bucket_entry (bs ! x) = None \<and>
      (\<exists>z < 2 ^ m. bs ! kh_probe (2 ^ m) key z = Empty \<and>
         (\<forall>t < z. kh_skip key (bs ! kh_probe (2 ^ m) key t))))"
proof -
  from first_stop_exists[of e m bs key] assms obtain s where s: "s < 2 ^ m"
    "\<not> kh_skip key (bs ! kh_probe (2 ^ m) key s)"
    "\<forall>t < s. kh_skip key (bs ! kh_probe (2 ^ m) key t)" by blast
  then have ne: "\<forall>t < s. bs ! kh_probe (2 ^ m) key t \<noteq> Empty" by (auto dest: skip_not_Empty)
  show thesis
  proof (cases "bs ! kh_home (2 ^ m) key = Empty")
    case True
    then have "kh_put_slot bs (2 ^ m) key = Inr (kh_home (2 ^ m) key)"
      by (simp add: kh_put_slot_def Let_def)
    then show thesis
    proof (rule that[of _ 0])
      show "(\<exists>v. bs ! kh_home (2 ^ m) key = Full key v) \<or>
          (bucket_entry (bs ! kh_home (2 ^ m) key) = None \<and>
           (\<exists>z < 2 ^ m. bs ! kh_probe (2 ^ m) key z = Empty \<and>
              (\<forall>t < z. kh_skip key (bs ! kh_probe (2 ^ m) key t))))"
        using True by (intro disjI2 conjI exI[of _ 0]) (auto simp: kh_probe_0)
    qed (auto simp: kh_probe_0)
  next
    case False
    obtain site where loop: "kh_put_loop (2 * 2 ^ m) bs (2 ^ m) key (kh_home (2 ^ m) key)
        (kh_home (2 ^ m) key) (2 ^ m) 0 = Some (False, kh_probe (2 ^ m) key s, site)"
      and site: "site = 2 ^ m \<or> (\<exists>t < s. site = kh_probe (2 ^ m) key t \<and> bs ! site = Deleted)"
      using kh_put_loop_stops[OF s, of 0 "2 * 2 ^ m" "2 ^ m"] s(1) by (auto simp: kh_probe_0)
    show thesis
    proof (cases "bs ! kh_probe (2 ^ m) key s = Empty \<and> site \<noteq> 2 ^ m")
      case True
      with site obtain t where t: "t < s" "site = kh_probe (2 ^ m) key t" "bs ! site = Deleted"
        by auto
      have "kh_put_slot bs (2 ^ m) key = Inr site"
        using loop True False by (simp add: kh_put_slot_def Let_def)
      then show thesis
      proof (rule that[of _ t])
        show "(\<exists>v. bs ! site = Full key v) \<or> (bucket_entry (bs ! site) = None \<and>
            (\<exists>z < 2 ^ m. bs ! kh_probe (2 ^ m) key z = Empty \<and>
               (\<forall>t < z. kh_skip key (bs ! kh_probe (2 ^ m) key t))))"
          using t(3) s True by (intro disjI2 conjI exI[of _ s]) auto
      qed (use t s(1) ne in auto)
    next
      case not: False
      have "kh_put_slot bs (2 ^ m) key = Inr (kh_probe (2 ^ m) key s)"
        using loop not False by (auto simp: kh_put_slot_def Let_def)
      then show thesis
      proof (rule that[of _ s])
        show "(\<exists>v. bs ! kh_probe (2 ^ m) key s = Full key v) \<or>
          (bucket_entry (bs ! kh_probe (2 ^ m) key s) = None \<and>
            (\<exists>z < 2 ^ m. bs ! kh_probe (2 ^ m) key z = Empty \<and>
               (\<forall>t < z. kh_skip key (bs ! kh_probe (2 ^ m) key t))))"
          using s unfolding kh_skip_iff by (metis bucket_entry.simps(2))
      qed (use s(1) ne in auto)
    qed
  qed
qed

section \<open>Deleting and writing keep the invariant\<close>

lemma hash_upper_less: "4 \<le> n \<Longrightarrow> hash_upper n < n"
  by (simp add: hash_upper_def)

lemma kh_ok_has_Empty:
  assumes "kh_ok h" "n_buckets h \<noteq> 0"
  shows "\<exists>e < n_buckets h. buckets h ! e = Empty"
proof (rule ccontr)
  assume "\<not> ?thesis"
  then have "{j. j < n_buckets h \<and> buckets h ! j \<noteq> Empty} = {..<n_buckets h}" by auto
  then have "n_occupied h = n_buckets h" using assms(1) by (simp add: kh_ok_def)
  moreover have "4 \<le> n_buckets h"
  proof -
    from assms obtain m where "2 \<le> m" "n_buckets h = 2 ^ m" by (auto simp: kh_ok_def)
    moreover have "(2::nat) ^ 2 \<le> 2 ^ m" using \<open>2 \<le> m\<close> by (intro power_increasing) auto
    ultimately show ?thesis by simp
  qed
  ultimately show False using assms(1) hash_upper_less[of "n_buckets h"] by (simp add: kh_ok_def)
qed

lemma bs_reach_update:
  assumes "bs_reach bs n" "x < length bs" "length bs = n" "b \<noteq> Empty"
    "\<And>k v. b = Full k v \<Longrightarrow> \<exists>s < n. kh_probe n k s = x \<and> (\<forall>t < s. bs ! kh_probe n k t \<noteq> Empty)"
  shows "bs_reach (bs[x := b]) n"
  unfolding bs_reach_def
proof (intro allI impI)
  fix j k v
  assume j: "j < n" "bs[x := b] ! j = Full k v"
  have "\<exists>s < n. kh_probe n k s = j \<and> (\<forall>t < s. bs ! kh_probe n k t \<noteq> Empty)"
  proof (cases "j = x")
    case True
    with j assms show ?thesis by simp
  next
    case False
    with j have "bs ! j = Full k v" by simp
    with assms(1) j(1) show ?thesis unfolding bs_reach_def by blast
  qed
  then obtain s where s: "s < n" "kh_probe n k s = j" "\<forall>t < s. bs ! kh_probe n k t \<noteq> Empty" by blast
  moreover have "\<forall>t < s. bs[x := b] ! kh_probe n k t \<noteq> Empty"
    using s(3) assms(2,4) by (metis nth_list_update)
  ultimately show "\<exists>s < n. kh_probe n k s = j \<and> (\<forall>t < s. bs[x := b] ! kh_probe n k t \<noteq> Empty)"
    by blast
qed

lemma bs_keys_distinct_update:
  assumes "bs_keys_distinct bs n" "length bs = n"
    "\<And>k v j w. b = Full k v \<Longrightarrow> j < n \<Longrightarrow> bs ! j = Full k w \<Longrightarrow> j = x"
  shows "bs_keys_distinct (bs[x := b]) n"
  unfolding bs_keys_distinct_def
proof (intro allI impI)
  fix i j k v w
  assume ij: "i < n" "j < n" "bs[x := b] ! i = Full k v" "bs[x := b] ! j = Full k w"
  consider "i = x" "j = x" | "i = x" "j \<noteq> x" | "i \<noteq> x" "j = x" | "i \<noteq> x" "j \<noteq> x" by blast
  then show "i = j"
  proof cases
    case 2
    with ij assms(2) have "b = Full k v" "bs ! j = Full k w" by auto
    then have "j = x" using assms(3) ij(2) by blast
    with 2 show ?thesis by simp
  next
    case 3
    with ij assms(2) have "b = Full k w" "bs ! i = Full k v" by auto
    then have "i = x" using assms(3) ij(1) by blast
    with 3 show ?thesis by simp
  next
    case 4
    with ij have "bs ! i = Full k v" "bs ! j = Full k w" by auto
    with ij assms(1) show ?thesis unfolding bs_keys_distinct_def by blast
  qed simp
qed

lemma card_index_update:
  assumes "x < length bs" "n = length bs"
  shows "card {j. j < n \<and> P (bs[x := b] ! j)} =
    (if P b then card (insert x {j. j < n \<and> P (bs ! j)}) else card ({j. j < n \<and> P (bs ! j)} - {x}))"
proof -
  have "{j. j < n \<and> P (bs[x := b] ! j)} =
    (if P b then insert x {j. j < n \<and> P (bs ! j)} else {j. j < n \<and> P (bs ! j)} - {x})"
    using assms by (auto simp: nth_list_update)
  then show ?thesis by simp
qed

lemma card_index_cases:
  fixes n :: nat
  assumes "x < n"
  shows "card (insert x {j. j < n \<and> Q j}) =
      (if Q x then card {j. j < n \<and> Q j} else Suc (card {j. j < n \<and> Q j}))"
    and "card ({j. j < n \<and> Q j} - {x}) =
      (if Q x then card {j. j < n \<and> Q j} - 1 else card {j. j < n \<and> Q j})"
proof -
  have fin: "finite {j. j < n \<and> Q j}" by simp
  show "card (insert x {j. j < n \<and> Q j}) =
      (if Q x then card {j. j < n \<and> Q j} else Suc (card {j. j < n \<and> Q j}))"
    using assms by (simp add: card_insert_if)
  show "card ({j. j < n \<and> Q j} - {x}) =
      (if Q x then card {j. j < n \<and> Q j} - 1 else card {j. j < n \<and> Q j})"
    using assms by (simp add: card_Diff_singleton_if)
qed

text \<open>The invariant after one bucket has changed, with the counters the operation writes.\<close>

lemma kh_ok_update:
  assumes "kh_ok h" "x < n_buckets h"
    "bs_reach ((buckets h)[x := b]) (n_buckets h)" "bs_keys_distinct ((buckets h)[x := b]) (n_buckets h)"
    "sz = (if bucket_entry b = None
             then if bucket_entry (buckets h ! x) = None then kh_size h else kh_size h - 1
             else if bucket_entry (buckets h ! x) = None then kh_size h + 1 else kh_size h)"
    "b \<noteq> Empty" "oc = (if buckets h ! x = Empty then n_occupied h + 1 else n_occupied h)"
    "oc \<le> upper_bound h"
  shows "kh_ok (h\<lparr>buckets := (buckets h)[x := b], kh_size := sz, n_occupied := oc\<rparr>)"
proof -
  have len: "length (buckets h) = n_buckets h" using assms(1) by (simp add: kh_ok_def)
  have "kh_size h = card {j. j < n_buckets h \<and> bucket_entry (buckets h ! j) \<noteq> None}"
    "n_occupied h = card {j. j < n_buckets h \<and> buckets h ! j \<noteq> Empty}"
    using assms(1) by (simp_all add: kh_ok_def)
  then have "sz = card {j. j < n_buckets h \<and> bucket_entry ((buckets h)[x := b] ! j) \<noteq> None}"
    and "oc = card {j. j < n_buckets h \<and> (buckets h)[x := b] ! j \<noteq> Empty}"
    using assms(2,5-7) len
    unfolding card_index_update[OF _ len[symmetric], of x "\<lambda>b. bucket_entry b \<noteq> None" b, simplified len, OF assms(2)]
      card_index_update[OF _ len[symmetric], of x "\<lambda>b. b \<noteq> Empty" b, simplified len, OF assms(2)]
      card_index_cases[OF assms(2)]
    by auto
  moreover have "length ((buckets h)[x := b]) = n_buckets h" "upper_bound h = hash_upper (n_buckets h)"
    "n_buckets h = 0 \<or> (\<exists>m \<ge> 2. n_buckets h = 2 ^ m)"
    using assms(1) by (simp_all add: kh_ok_def)
  ultimately show ?thesis
    using assms(3,4,8) by (simp add: kh_ok_def del: not_None_eq)
qed

lemma ex_Full_update:
  assumes "length bs = n" "x < n" "bs ! x = Full key u" "bs_keys_distinct bs n"
    "b = Deleted \<or> b = Full key v"
  shows "(\<exists>j < n. bs[x := b] ! j = Full k w) \<longleftrightarrow>
    (if k = key then b = Full key w else (\<exists>j < n. bs ! j = Full k w))"
proof (cases "k = key")
  case True
  have "j = x" if "j < n" "bs ! j = Full key w'" for j w'
    using assms that unfolding bs_keys_distinct_def by blast
  then have "bs[x := b] ! j = Full key w \<longleftrightarrow> j = x \<and> b = Full key w" if "j < n" for j
    using that assms(1) by (cases "j = x") auto
  with True assms(2) show ?thesis by auto
next
  case False
  have "bs[x := b] ! j = Full k w \<longleftrightarrow> bs ! j = Full k w" if "j < n" for j
    using that assms False by (cases "j = x") auto
  with False show ?thesis by auto
qed

lemma kh_lookup_eqI:
  assumes "kh_ok h" "kh_ok h'"
    "\<And>k v. (\<exists>j < n_buckets h'. buckets h' ! j = Full k v) \<longleftrightarrow> f k = Some v"
  shows "kh_lookup h' = f"
proof
  fix k
  show "kh_lookup h' k = f k"
    using assms(3)[of k] kh_lookup_iff[OF assms(2), of k]
    by (metis not_None_eq)
qed

lemma kh_del_ok:
  assumes ok: "kh_ok h" and x: "x < n_buckets h" "buckets h ! x = Full key v"
  shows "kh_ok (kh_del h x)" and "kh_lookup (kh_del h x) = (kh_lookup h)(key := None)"
    and "n_buckets (kh_del h x) = n_buckets h"
    and "buckets (kh_del h x) = (buckets h)[x := Deleted]"
proof -
  let ?bs = "(buckets h)[x := Deleted]" and ?n = "n_buckets h"
  have len: "length (buckets h) = ?n" using ok by (simp add: kh_ok_def)
  have del: "kh_del h x = h\<lparr>buckets := ?bs, kh_size := kh_size h - 1\<rparr>"
    using x by (simp add: kh_del_def)
  show "n_buckets (kh_del h x) = n_buckets h" "buckets (kh_del h x) = ?bs" by (simp_all add: del)
  have "bs_reach ?bs ?n"
    using ok x len by (intro bs_reach_update) (auto simp: kh_ok_def)
  moreover have "bs_keys_distinct ?bs ?n"
    using ok len by (intro bs_keys_distinct_update) (auto simp: kh_ok_def)
  ultimately show ok': "kh_ok (kh_del h x)"
    using kh_ok_update[OF ok x(1), of Deleted "kh_size h - 1" "n_occupied h"] ok x
    by (simp add: del kh_ok_def[of h])
  show "kh_lookup (kh_del h x) = (kh_lookup h)(key := None)"
    using ok ok' ex_Full_update[OF len x, of Deleted]
    by (intro kh_lookup_eqI[OF ok ok']) (simp add: del kh_lookup_iff kh_ok_def)
qed

lemma kh_delete_ok:
  assumes "kh_ok h"
  shows "kh_ok (kh_delete h key)" and "kh_lookup (kh_delete h key) = (kh_lookup h)(key := None)"
proof -
  have "kh_ok (kh_delete h key) \<and> kh_lookup (kh_delete h key) = (kh_lookup h)(key := None)"
  proof (cases "kh_get h key = n_buckets h")
    case True
    then have "kh_lookup h key = None" using kh_get_end_iff[OF assms] by blast
    with True assms show ?thesis by (auto simp: kh_delete_def kh_del_def)
  next
    case False
    then obtain v where "kh_get h key < n_buckets h" "buckets h ! kh_get h key = Full key v"
      using kh_get_sound[of h key] by auto
    with assms show ?thesis unfolding kh_delete_def by (simp add: kh_del_ok)
  qed
  then show "kh_ok (kh_delete h key)" "kh_lookup (kh_delete h key) = (kh_lookup h)(key := None)"
    by auto
qed

lemma kh_overwrite_ok:
  assumes ok: "kh_ok h" and x: "x < n_buckets h" "buckets h ! x = Full key w"
  shows "kh_ok (h\<lparr>buckets := (buckets h)[x := Full key v]\<rparr>)"
    and "kh_lookup (h\<lparr>buckets := (buckets h)[x := Full key v]\<rparr>) = (kh_lookup h)(key \<mapsto> v)"
proof -
  let ?bs = "(buckets h)[x := Full key v]" and ?n = "n_buckets h"
  let ?h = "h\<lparr>buckets := ?bs\<rparr>"
  have len: "length (buckets h) = ?n" using ok by (simp add: kh_ok_def)
  have uniq: "j = x" if "j < ?n" "buckets h ! j = Full key w'" for j w'
    using ok x that unfolding kh_ok_def bs_keys_distinct_def by blast
  have "\<exists>s < ?n. kh_probe ?n key s = x \<and> (\<forall>t < s. buckets h ! kh_probe ?n key t \<noteq> Empty)"
    using ok x unfolding kh_ok_def bs_reach_def by blast
  then have "bs_reach ?bs ?n"
    using ok x len by (intro bs_reach_update) (auto simp: kh_ok_def)
  moreover have "bs_keys_distinct ?bs ?n"
    using ok len uniq by (intro bs_keys_distinct_update) (auto simp: kh_ok_def)
  ultimately show ok': "kh_ok ?h"
    using kh_ok_update[OF ok x(1), of "Full key v" "kh_size h" "n_occupied h"] ok x
    by (simp add: kh_ok_def[of h])
  show "kh_lookup ?h = (kh_lookup h)(key \<mapsto> v)"
    using ok ok' ex_Full_update[OF len x, of "Full key v" v]
    by (intro kh_lookup_eqI[OF ok ok']) (auto simp: kh_lookup_iff kh_ok_def)
qed

lemma kh_write_ok:
  assumes "kh_ok h" "kh_lookup h key = Some w"
  shows "kh_ok (kh_write h key v)" and "kh_lookup (kh_write h key v) = (kh_lookup h)(key \<mapsto> v)"
proof -
  have "kh_get h key \<noteq> n_buckets h" using assms kh_get_end_iff[OF assms(1)] by simp
  then obtain u where "kh_get h key < n_buckets h" "buckets h ! kh_get h key = Full key u"
    using kh_get_sound[of h key] by auto
  with assms(1) show "kh_ok (kh_write h key v)"
      "kh_lookup (kh_write h key v) = (kh_lookup h)(key \<mapsto> v)"
    by (simp_all add: kh_write_def Let_def kh_overwrite_ok)
qed

section \<open>Inserting when there is room\<close>

lemma kh_fill_ok:
  fixes h :: "'v khash" and v :: 'v
  assumes ok: "kh_ok h" and x: "x < n_buckets h" "bucket_entry (buckets h ! x) = None"
    and path: "\<exists>s < n_buckets h. kh_probe (n_buckets h) key s = x \<and>
                 (\<forall>t < s. buckets h ! kh_probe (n_buckets h) key t \<noteq> Empty)"
    and absent: "kh_lookup h key = None"
    and oc: "oc = (if buckets h ! x = Empty then n_occupied h + 1 else n_occupied h)"
      "oc \<le> upper_bound h"
  defines "h' \<equiv> h\<lparr>buckets := (buckets h)[x := Full key v], kh_size := kh_size h + 1, n_occupied := oc\<rparr>"
  shows "kh_ok h'" and "kh_lookup h' = (kh_lookup h)(key \<mapsto> v)"
proof -
  let ?bs = "(buckets h)[x := Full key v]" and ?n = "n_buckets h"
  have len: "length (buckets h) = ?n" and r: "bs_reach (buckets h) ?n"
    and d: "bs_keys_distinct (buckets h) ?n"
    using ok by (simp_all add: kh_ok_def)
  have none: "buckets h ! j \<noteq> Full key w" if "j < ?n" for j w
    using absent that kh_lookup_None_iff[OF ok] by blast
  have "bs_reach ?bs ?n"
    using r x len path by (intro bs_reach_update) auto
  moreover have "bs_keys_distinct ?bs ?n"
    using d len none by (intro bs_keys_distinct_update) auto
  ultimately show ok': "kh_ok h'"
    unfolding h'_def using kh_ok_update[OF ok x(1), of "Full key v" "kh_size h + 1" oc] x oc by simp
  show "kh_lookup h' = (kh_lookup h)(key \<mapsto> v)"
  proof (rule kh_lookup_eqI[OF ok ok'])
    fix k w
    have "(\<exists>j < ?n. ?bs ! j = Full k w) \<longleftrightarrow> ((k = key \<and> w = v) \<or> (\<exists>j < ?n. buckets h ! j = Full k w))"
    proof
      assume "\<exists>j < ?n. ?bs ! j = Full k w"
      then obtain j where "j < ?n" "?bs ! j = Full k w" by blast
      then show "(k = key \<and> w = v) \<or> (\<exists>j < ?n. buckets h ! j = Full k w)"
        using len by (cases "j = x") auto
    next
      assume "(k = key \<and> w = v) \<or> (\<exists>j < ?n. buckets h ! j = Full k w)"
      then show "\<exists>j < ?n. ?bs ! j = Full k w"
        using x len by (metis bucket_entry.simps(1) nth_list_update_eq nth_list_update_neq option.distinct(1))
    qed
    then show "(\<exists>j < n_buckets h'. buckets h' ! j = Full k w) \<longleftrightarrow>
        ((kh_lookup h)(key \<mapsto> v)) k = Some w"
      using kh_lookup_iff[OF ok, of k w] absent by (auto simp: h'_def)
  qed
qed

lemma kh_absent_if_stop:
  assumes "kh_ok h" "n_buckets h = 2 ^ m" "z < 2 ^ m"
    "buckets h ! kh_probe (2 ^ m) key z = Empty"
    "\<forall>t < z. kh_skip key (buckets h ! kh_probe (2 ^ m) key t)"
  shows "kh_lookup h key = None"
proof (rule ccontr)
  assume "kh_lookup h key \<noteq> None"
  then obtain v j where j: "j < 2 ^ m" "buckets h ! j = Full key v"
    using kh_lookup_iff[OF assms(1)] assms(2) by auto
  then obtain s where s: "s < 2 ^ m" "kh_probe (2 ^ m) key s = j"
      "\<forall>t < s. buckets h ! kh_probe (2 ^ m) key t \<noteq> Empty"
    using assms(1,2) unfolding kh_ok_def bs_reach_def by metis
  consider "s < z" | "s = z" | "z < s" by linarith
  then show False
  proof cases
    case 1
    with assms(5) have "kh_skip key (buckets h ! j)" using s(2) by blast
    with j(2) show False by simp
  next
    case 2
    with assms(4) s(2) j(2) show False by simp
  next
    case 3
    with s(3) assms(4) show False by blast
  qed
qed

lemma kh_put_with_room:
  assumes ok: "kh_ok h" and room: "n_occupied h < upper_bound h"
  shows "\<exists>h' rv. kh_make_room h = Inr h \<and> kh_put h key v = Inr (h', rv) \<and> kh_ok h' \<and>
           kh_lookup h' = (kh_lookup h)(key \<mapsto> v) \<and> (rv = 0 \<longleftrightarrow> kh_lookup h key \<noteq> None) \<and> 0 \<le> rv"
proof -
  have make: "kh_make_room h = Inr h" using room by (simp add: kh_make_room_def)
  have "n_buckets h \<noteq> 0" using ok room by (auto simp: kh_ok_def hash_upper_def)
  then obtain m e where n: "n_buckets h = 2 ^ m" and e: "e < 2 ^ m" "buckets h ! e = Empty"
    using kh_ok_has_Empty[OF ok] ok unfolding kh_ok_def by metis
  from kh_put_slot_spec[of e m "buckets h" key] e obtain s x where
    slot: "kh_put_slot (buckets h) (2 ^ m) key = Inr x" and s: "s < 2 ^ m" "kh_probe (2 ^ m) key s = x"
    "\<forall>t < s. buckets h ! kh_probe (2 ^ m) key t \<noteq> Empty"
    and cases: "(\<exists>w. buckets h ! x = Full key w) \<or> (bucket_entry (buckets h ! x) = None \<and>
      (\<exists>z < 2 ^ m. buckets h ! kh_probe (2 ^ m) key z = Empty \<and>
         (\<forall>t < z. kh_skip key (buckets h ! kh_probe (2 ^ m) key t))))"
    by metis
  have x: "x < n_buckets h" using s n kh_probe_less[of "2 ^ m" key s] by simp
  from cases show ?thesis
  proof
    assume "\<exists>w. buckets h ! x = Full key w"
    then obtain w where w: "buckets h ! x = Full key w" ..
    have "kh_lookup h key \<noteq> None" using w x kh_lookup_iff[OF ok] by auto
    with kh_overwrite_ok[OF ok x w, of v] slot w make n show ?thesis
      by (simp add: kh_put_def)
  next
    assume c: "bucket_entry (buckets h ! x) = None \<and>
      (\<exists>z < 2 ^ m. buckets h ! kh_probe (2 ^ m) key z = Empty \<and>
         (\<forall>t < z. kh_skip key (buckets h ! kh_probe (2 ^ m) key t)))"
    then have absent: "kh_lookup h key = None" using kh_absent_if_stop[OF ok n] by blast
    have path: "\<exists>s < n_buckets h. kh_probe (n_buckets h) key s = x \<and>
        (\<forall>t < s. buckets h ! kh_probe (n_buckets h) key t \<noteq> Empty)"
      using s n by auto
    have "bucket_entry (buckets h ! x) = None" using c by blast
    note fill = kh_fill_ok[OF ok x this path absent, of _ v]
    show ?thesis
    proof (cases "buckets h ! x")
      case Empty
      with fill[of "n_occupied h + 1"] room slot make n absent show ?thesis
        by (simp add: kh_put_def)
    next
      case Deleted
      with fill[of "n_occupied h"] room slot make n absent show ?thesis
        by (simp add: kh_put_def)
    next
      case (Full k w)
      with c show ?thesis by simp
    qed
  qed
qed

end
