(* ===== verification/Khash_Map.thy ===== *)
theory Khash_Map
  imports Khash_Refine
begin

text \<open>
  The in-place rehashing of \<^verbatim>\<open>kh_resize\<close> keeps every entry, so \<^verbatim>\<open>kh_put\<close> always succeeds; iteration
  and deletion while iterating agree with the map; and the interface \<open>hash_table\<close>, interpreted on
  the modelled operations as \<open>kh\<close>, which the client theories use.
\<close>

section \<open>Rehashing in place\<close>

definition slots :: "(u32 \<times> 'v) option list \<Rightarrow> bool list \<Rightarrow> (u32 \<times> 'v) set" where
  "slots kv fl = {e. \<exists>i < length fl. fl ! i \<and> kv ! i = Some e}"

lemma slots_upd_out:
  assumes "i < length fl \<Longrightarrow> \<not> fl ! i"
  shows "slots (kv[i := x]) fl = slots kv fl"
proof -
  have "fl ! j \<and> kv[i := x] ! j = Some e \<longleftrightarrow> fl ! j \<and> kv ! j = Some e" if "j < length fl" for j e
    using assms that by (cases "j = i") auto
  then show ?thesis unfolding slots_def by blast
qed

lemma slots_set:
  assumes "i < length fl" "i < length kv" "\<not> fl ! i"
  shows "slots (kv[i := Some e]) (fl[i := True]) = insert e (slots kv fl)"
proof
  show "slots (kv[i := Some e]) (fl[i := True]) \<subseteq> insert e (slots kv fl)"
  proof
    fix z assume "z \<in> slots (kv[i := Some e]) (fl[i := True])"
    then obtain j where "j < length fl" "fl[i := True] ! j" "kv[i := Some e] ! j = Some z"
      by (auto simp: slots_def)
    then show "z \<in> insert e (slots kv fl)"
      using assms by (cases "j = i") (auto simp: slots_def)
  qed
next
  have "fl[i := True] ! j \<and> kv[i := Some e] ! j = Some z" if "j < length fl" "fl ! j" "kv ! j = Some z" for j z
    using that assms by (cases "j = i") auto
  moreover have "fl[i := True] ! i \<and> kv[i := Some e] ! i = Some e" using assms by simp
  ultimately show "insert e (slots kv fl) \<subseteq> slots (kv[i := Some e]) (fl[i := True])"
    using assms(1) unfolding slots_def by auto
qed

lemma slots_clear:
  assumes "i < length fl" "fl ! i" "kv ! i = Some e"
  shows "insert e (slots kv (fl[i := False])) = slots kv fl"
proof -
  have "fl[i := False] ! j \<longleftrightarrow> fl ! j \<and> j \<noteq> i" if "j < length fl" for j
    using that by (cases "j = i") auto
  then have "slots kv (fl[i := False]) = {z. \<exists>j < length fl. fl ! j \<and> j \<noteq> i \<and> kv ! j = Some z}"
    unfolding slots_def by auto
  with assms show ?thesis unfolding slots_def by auto
qed

lemma count_True_set:
  "i < length xs \<Longrightarrow> \<not> xs ! i \<Longrightarrow> count_list (xs[i := True]) True = Suc (count_list xs True)"
proof (induction xs arbitrary: i)
  case Nil
  then show ?case by simp
next
  case (Cons x xs)
  then show ?case by (cases i) auto
qed

lemma count_True_less: "count_list xs True < length xs \<Longrightarrow> \<exists>i < length xs. \<not> xs ! i"
proof (induction xs)
  case Nil
  then show ?case by simp
next
  case (Cons x xs)
  then show ?case by (cases x) (auto intro: exI[of _ "Suc _"])
qed

lemma count_True_card: "count_list xs True = card {i. i < length xs \<and> xs ! i}"
proof -
  have "count_list xs True = length (filter (\<lambda>b. b) xs)"
    by (induction xs) auto
  then show ?thesis by (simp add: length_filter_conv_card)
qed

lemma kh_find_empty_at:
  assumes "\<not> used ! kh_probe n key s" "\<forall>t < s. used ! kh_probe n key t" "step \<le> s" "s < fuel + step"
  shows "kh_find_empty fuel used n (kh_probe n key step) step = Some (kh_probe n key s)"
  using assms(3,4)
proof (induction fuel arbitrary: step)
  case 0
  then show ?case by simp
next
  case (Suc fuel)
  show ?case
  proof (cases "step = s")
    case True
    with assms(1) show ?thesis by simp
  next
    case False
    with Suc assms(2) show ?thesis by (simp add: kh_probe_Suc)
  qed
qed

lemma kh_find_empty_spec:
  assumes "n = 2 ^ m" "length used = n" "count_list used True < n"
  shows "\<exists>s < n. kh_find_empty n used n (kh_home n key) 0 = Some (kh_probe n key s) \<and>
           \<not> used ! kh_probe n key s \<and> (\<forall>t < s. used ! kh_probe n key t)"
proof -
  let ?free = "\<lambda>s. \<not> used ! kh_probe n key s"
  from assms obtain e where "e < n" "\<not> used ! e" using count_True_less[of used] by auto
  then obtain s where s: "s < n" "?free s" using kh_probe_surj[of e m key] assms(1) by auto
  define l where "l = (LEAST s. ?free s)"
  have "?free l" "l \<le> s" unfolding l_def using s(2) by (rule LeastI, rule Least_le)
  moreover have "\<forall>t < l. \<not> ?free t" unfolding l_def using not_less_Least by blast
  ultimately have "l < n" "?free l" "\<forall>t < l. used ! kh_probe n key t" using s(1) by auto
  with kh_find_empty_at[of used n key l 0 n] show ?thesis by (auto simp: kh_probe_0)
qed

definition used_reach :: "(u32 \<times> 'v) option list \<Rightarrow> bool list \<Rightarrow> nat \<Rightarrow> bool" where
  "used_reach kv used n \<longleftrightarrow> (\<forall>i k v. i < n \<longrightarrow> used ! i \<longrightarrow> kv ! i = Some (k, v) \<longrightarrow>
     (\<exists>s < n. kh_probe n k s = i \<and> (\<forall>t < s. used ! kh_probe n k t)))"

definition kick_inv :: "(u32 \<times> 'v) option list \<Rightarrow> bool list \<Rightarrow> bool list \<Rightarrow> nat \<Rightarrow> bool" where
  "kick_inv kv old used n \<longleftrightarrow>
     length used = n \<and> n \<le> length kv \<and> length old \<le> length kv \<and>
     (\<forall>i < n. used ! i \<longrightarrow> kv ! i \<noteq> None) \<and>
     (\<forall>i < length old. old ! i \<longrightarrow> kv ! i \<noteq> None \<and> (i < n \<longrightarrow> \<not> used ! i)) \<and>
     used_reach kv used n"

lemma used_reach_place:
  assumes "used_reach kv used n" "i < n" "length used = n" "n \<le> length kv" "\<not> used ! i"
    "s < n" "kh_probe n (fst e) s = i" "\<forall>t < s. used ! kh_probe n (fst e) t"
  shows "used_reach (kv[i := Some e]) (used[i := True]) n"
  unfolding used_reach_def
proof (intro allI impI)
  fix j k v
  assume j: "j < n" "used[i := True] ! j" "kv[i := Some e] ! j = Some (k, v)"
  have mono: "used ! t \<Longrightarrow> used[i := True] ! t" if "t < n" for t
    using that assms(3) by (cases "t = i") auto
  have "\<exists>s < n. kh_probe n k s = j \<and> (\<forall>t < s. used ! kh_probe n k t)"
  proof (cases "j = i")
    case True
    with j assms(2,4) have "e = (k, v)" by simp
    with assms True show ?thesis by auto
  next
    case False
    with j have "used ! j" "kv ! j = Some (k, v)" by auto
    with assms(1) j(1) show ?thesis unfolding used_reach_def by blast
  qed
  then show "\<exists>s < n. kh_probe n k s = j \<and> (\<forall>t < s. used[i := True] ! kh_probe n k t)"
    using mono kh_probe_less[of n k] assms(2) by (metis gr_zeroI less_nat_zero_code)
qed

lemma kick_inv_place:
  assumes inv: "kick_inv kv old used n" and i: "i < n" "\<not> used ! i"
    and s: "s < n" "kh_probe n (fst e) s = i" "\<forall>t < s. used ! kh_probe n (fst e) t"
  shows "kick_inv (kv[i := Some e]) (old[i := False]) (used[i := True]) n"
proof -
  have "used_reach (kv[i := Some e]) (used[i := True]) n"
    using inv i s by (intro used_reach_place) (auto simp: kick_inv_def)
  moreover have "kv[i := Some e] ! j \<noteq> None" if "j < n" "used[i := True] ! j" for j
    using inv i that by (cases "j = i") (auto simp: kick_inv_def)
  moreover have "kv[i := Some e] ! j \<noteq> None \<and> (j < n \<longrightarrow> \<not> used[i := True] ! j)"
    if "j < length old" "old[i := False] ! j" for j
    using inv i that by (cases "j = i") (auto simp: kick_inv_def)
  ultimately show ?thesis using inv by (simp add: kick_inv_def)
qed

lemma kh_kick_spec:
  assumes "kick_inv kv old used n" "n = 2 ^ m" "count_list used True + count_list old True < n"
  shows "\<exists>kv' old' used'. kh_kick kv old used n e = Some (kv', old', used') \<and>
    kick_inv kv' old' used' n \<and> length old' = length old \<and> length kv' = length kv \<and>
    (\<forall>j < length old. old' ! j \<longrightarrow> old ! j) \<and>
    count_list used' True + count_list old' True = count_list used True + count_list old True + 1 \<and>
    slots kv' old' \<union> slots kv' used' = insert e (slots kv old \<union> slots kv used)"
  using assms
proof (induction kv old used n e rule: kh_kick.induct)
  case (1 kv old used n e)
  have len: "length used = n" "n \<le> length kv" using 1(2) by (auto simp: kick_inv_def)
  obtain s where s: "s < n" "kh_find_empty n used n (kh_home n (fst e)) 0 = Some (kh_probe n (fst e) s)"
    "\<not> used ! kh_probe n (fst e) s" "\<forall>t < s. used ! kh_probe n (fst e) t"
    using kh_find_empty_spec[of n m used "fst e"] len 1(3,4) by auto
  define i where "i = kh_probe n (fst e) s"
  have i: "i < n" "\<not> used ! i" using s kh_probe_less[of n "fst e" s] 1(3) by (auto simp: i_def)
  note placed = kick_inv_place[OF 1(2) i s(1) i_def[symmetric] s(4)]
  have cu: "count_list (used[i := True]) True = Suc (count_list used True)"
    using i len by (simp add: count_True_set)
  have su: "slots (kv[i := Some e]) (used[i := True]) = insert e (slots kv used)"
    using i len by (intro slots_set) auto
  show ?case
  proof (cases "i < length old \<and> old ! i")
    case True
    then obtain e' where e': "kv ! i = Some e'" using 1(2) by (auto simp: kick_inv_def)
    have co: "Suc (count_list (old[i := False]) True) = count_list old True"
      using True by (intro count_True_list_update) auto
    have so: "slots (kv[i := Some e]) (old[i := False]) = slots kv (old[i := False])"
      using True by (intro slots_upd_out) simp
    have "count_list (used[i := True]) True + count_list (old[i := False]) True < n"
      using 1(4) cu co by simp
    from "1.IH"[OF s(2)[folded i_def] True e' placed 1(3) this]
    obtain kv' old' used' where IH: "kh_kick (kv[i := Some e]) (old[i := False]) (used[i := True]) n e'
          = Some (kv', old', used')" "kick_inv kv' old' used' n" "length old' = length old"
        "length kv' = length kv" "\<forall>j < length old. old' ! j \<longrightarrow> old[i := False] ! j"
        "count_list used' True + count_list old' True =
           count_list (used[i := True]) True + count_list (old[i := False]) True + 1"
        "slots kv' old' \<union> slots kv' used' = insert e' (slots kv (old[i := False]) \<union> insert e (slots kv used))"
      by (auto simp: so su)
    have "insert e' (slots kv (old[i := False])) = slots kv old"
      using True e' by (intro slots_clear) auto
    then have "slots kv' old' \<union> slots kv' used' = insert e (slots kv old \<union> slots kv used)"
      using IH(7) by blast
    moreover have "\<forall>j < length old. old' ! j \<longrightarrow> old ! j"
      using IH(5) by (metis nth_list_update_eq nth_list_update_neq)
    moreover have "kh_kick kv old used n e = Some (kv', old', used')"
      using IH(1) s(2) True e' by (subst kh_kick.simps) (simp add: i_def[symmetric])
    ultimately show ?thesis using IH cu co by auto
  next
    case False
    have upd: "old[i := False] = old"
      using False by (metis (full_types) list_update_beyond list_update_id not_less)
    have so: "slots (kv[i := Some e]) old = slots kv old"
      using False by (intro slots_upd_out) simp
    have "kh_kick kv old used n e = Some (kv[i := Some e], old, used[i := True])"
      using s(2) False by (subst kh_kick.simps) (auto simp: i_def[symmetric])
    moreover have "kick_inv (kv[i := Some e]) old (used[i := True]) n"
      using placed upd by simp
    ultimately show ?thesis using cu so su by auto
  qed
qed

lemma kh_rehash_spec:
  assumes "kick_inv kv old used n" "n = 2 ^ m" "count_list used True + count_list old True < n"
    "{j. j < length old \<and> old ! j} \<subseteq> set js" "set js \<subseteq> {..<length old}"
  shows "\<exists>kv' used'. kh_rehash js kv old used n = Some (kv', used') \<and>
    length used' = n \<and> length kv' = length kv \<and> n \<le> length kv' \<and>
    (\<forall>i < n. used' ! i \<longrightarrow> kv' ! i \<noteq> None) \<and>
    used_reach kv' used' n \<and>
    count_list used' True = count_list used True + count_list old True \<and>
    slots kv' used' = slots kv old \<union> slots kv used"
  using assms
proof (induction js arbitrary: kv old used)
  case Nil
  then have "{j. j < length old \<and> old ! j} = {}" by simp
  then have "count_list old True = 0" by (simp add: count_True_card)
  moreover have "slots kv old = {}"
    using \<open>{j. j < length old \<and> old ! j} = {}\<close> unfolding slots_def by blast
  ultimately show ?case using Nil by (auto simp: kick_inv_def)
next
  case (Cons j js)
  show ?case
  proof (cases "old ! j")
    case False
    then have "{j. j < length old \<and> old ! j} \<subseteq> set js" using Cons.prems(4) by auto
    with Cons False show ?thesis by simp
  next
    case True
    have j: "j < length old" using Cons.prems(5) by simp
    then obtain e where e: "kv ! j = Some e" using True Cons.prems(1) by (auto simp: kick_inv_def)
    let ?old = "old[j := False]"
    have sub: "?old ! i \<Longrightarrow> old ! i" for i by (metis list_update_beyond not_less nth_list_update_eq nth_list_update_neq)
    have inv: "kick_inv kv ?old used n" using Cons.prems(1) sub by (auto simp: kick_inv_def)
    have co: "Suc (count_list ?old True) = count_list old True"
      using True j by (intro count_True_list_update)
    have so: "insert e (slots kv ?old) = slots kv old" using j True e by (intro slots_clear)
    obtain kv1 old1 used1 where K: "kh_kick kv ?old used n e = Some (kv1, old1, used1)"
        "kick_inv kv1 old1 used1 n" "length old1 = length old" "length kv1 = length kv"
        "\<forall>j < length old. old1 ! j \<longrightarrow> ?old ! j"
        "count_list used1 True + count_list old1 True = count_list used True + count_list ?old True + 1"
        "slots kv1 old1 \<union> slots kv1 used1 = insert e (slots kv ?old \<union> slots kv used)"
      using kh_kick_spec[OF inv Cons.prems(2), of e] Cons.prems(3) co by auto
    have "i \<in> set js" if "i < length old1" "old1 ! i" for i
    proof -
      have "?old ! i" using K(3,5) that by auto
      then have "old ! i" "i \<noteq> j" using sub j by auto
      with that K(3) Cons.prems(4) show ?thesis by auto
    qed
    then have "{i. i < length old1 \<and> old1 ! i} \<subseteq> set js" by blast
    moreover have "count_list used1 True + count_list old1 True < n" using K(6) co Cons.prems(3) by simp
    moreover have "set js \<subseteq> {..<length old1}" using Cons.prems(5) K(3) by auto
    ultimately obtain kv' used' where R: "kh_rehash js kv1 old1 used1 n = Some (kv', used')"
        "length used' = n" "length kv' = length kv1" "n \<le> length kv'"
        "\<forall>i < n. used' ! i \<longrightarrow> kv' ! i \<noteq> None" "used_reach kv' used' n"
        "count_list used' True = count_list used1 True + count_list old1 True"
        "slots kv' used' = slots kv1 old1 \<union> slots kv1 used1"
      using Cons.IH[OF K(2) Cons.prems(2)] by blast
    have "slots kv' used' = slots kv old \<union> slots kv used" using R(8) K(7) so by blast
    with R K(1,4,6) True e co show ?thesis by auto
  qed
qed

section \<open>Resizing and insertion\<close>

definition kh_graph :: "'v khash \<Rightarrow> (u32 \<times> 'v) set" where
  "kh_graph h = {(k, v). kh_lookup h k = Some v}"

lemma kh_graph_slots:
  assumes "kh_ok h"
  shows "slots (map bucket_entry (buckets h) @ xs) (map (\<lambda>b. bucket_entry b \<noteq> None) (buckets h)) = kh_graph h"
    (is "slots ?kv ?old = _")
proof -
  have len: "length (buckets h) = n_buckets h" using assms by (simp add: kh_ok_def)
  have be: "bucket_entry b = Some (k, v) \<longleftrightarrow> b = Full k v" for b and k and v :: 'a
    by (cases b) auto
  have "(k, v) \<in> slots ?kv ?old \<longleftrightarrow> (\<exists>j < n_buckets h. bucket_entry (buckets h ! j) = Some (k, v))" for k v
    unfolding slots_def using len by (auto simp: nth_append)
  then have "(k, v) \<in> slots ?kv ?old \<longleftrightarrow> (k, v) \<in> kh_graph h" for k v
    using kh_lookup_iff[OF assms, of k v] by (simp add: be kh_graph_def)
  then show ?thesis by auto
qed

lemma kh_size_card_graph:
  assumes "kh_ok h"
  shows "card (kh_graph h) = kh_size h"
proof -
  let ?J = "{j. j < n_buckets h \<and> bucket_entry (buckets h ! j) \<noteq> None}"
  let ?f = "\<lambda>j. the (bucket_entry (buckets h ! j))"
  have be: "bucket_entry b = Some (k, v) \<longleftrightarrow> b = Full k v" for b and k and v :: 'a
    by (cases b) auto
  have "inj_on ?f ?J"
  proof (rule inj_onI)
    fix i j assume a: "i \<in> ?J" "j \<in> ?J" "?f i = ?f j"
    then obtain k v where "bucket_entry (buckets h ! i) = Some (k, v)" "bucket_entry (buckets h ! j) = Some (k, v)"
      by auto
    with a(1,2) assms show "i = j" unfolding kh_ok_def bs_keys_distinct_def be by blast
  qed
  moreover have "?f ` ?J = kh_graph h"
  proof (intro set_eqI iffI)
    fix e assume "e \<in> ?f ` ?J"
    then obtain j where "j < n_buckets h" "bucket_entry (buckets h ! j) = Some e" by auto
    then show "e \<in> kh_graph h" using kh_lookup_iff[OF assms]
      by (cases e) (auto simp: kh_graph_def be)
  next
    fix e assume "e \<in> kh_graph h"
    then obtain j where "j < n_buckets h" "bucket_entry (buckets h ! j) = Some e"
      using kh_lookup_iff[OF assms] by (cases e) (auto simp: kh_graph_def be)
    then show "e \<in> ?f ` ?J" by (intro rev_image_eqI[of j]) auto
  qed
  ultimately have "card (kh_graph h) = card ?J" using card_image[of ?f ?J] by simp
  then show ?thesis using assms by (simp add: kh_ok_def)
qed

lemma slots_inj:
  assumes "slots kv used = G" "card G = count_list used True"
    "i < length used" "j < length used" "used ! i" "used ! j" "kv ! i = Some e" "kv ! j = Some e"
    "\<forall>i < length used. used ! i \<longrightarrow> kv ! i \<noteq> None"
  shows "i = j"
proof -
  let ?U = "{i. i < length used \<and> used ! i}"
  have "(\<lambda>i. the (kv ! i)) ` ?U = slots kv used"
    unfolding slots_def using assms(9) by (force intro: rev_image_eqI)
  then have "inj_on (\<lambda>i. the (kv ! i)) ?U"
    using assms(1,2) by (intro eq_card_imp_inj_on) (simp_all add: count_True_card)
  then show ?thesis by (rule inj_onD) (use assms(3-8) in auto)
qed

text \<open>The table built from the arrays the rehashing loop leaves.\<close>

lemma kh_rebuilt_ok:
  fixes kv :: "(u32 \<times> 'v) option list"
  assumes len: "length used = n" "length kv = n" and n: "n = 2 ^ m" "2 \<le> m"
    and full: "\<forall>i < n. used ! i \<longrightarrow> kv ! i \<noteq> None" and reach: "used_reach kv used n"
    and G: "slots kv used = {(k, v). f k = Some v}" "card {(k, v). f k = Some v} = count_list used True"
    and sz: "count_list used True = sz" "sz < hash_upper n"
  defines "h \<equiv> \<lparr>n_buckets = n, kh_size = sz, n_occupied = sz, upper_bound = hash_upper n,
                 buckets = map2 bucket_of used kv\<rparr>"
  shows "kh_ok h" and "kh_lookup h = f"
proof -
  let ?bs = "map2 bucket_of used kv"
  have nth: "?bs ! i = bucket_of (used ! i) (kv ! i)" if "i < n" for i
    using that len by simp
  have emp: "?bs ! i = Empty \<longleftrightarrow> \<not> used ! i" if "i < n" for i
    unfolding nth[OF that] using full that by (auto simp: bucket_of_def split: option.splits)
  have ful: "?bs ! i = Full k v \<longleftrightarrow> used ! i \<and> kv ! i = Some (k, v)" if "i < n" for i k v
    unfolding nth[OF that] using full that by (auto simp: bucket_of_def split: option.splits)
  have ent: "bucket_entry (?bs ! i) \<noteq> None \<longleftrightarrow> used ! i" if "i < n" for i
    unfolding nth[OF that] using full that by (auto simp: bucket_of_def split: option.splits)
  have pr: "kh_probe n k t < n" for k t using kh_probe_less n by simp
  have "bs_reach ?bs n"
    unfolding bs_reach_def
  proof (intro allI impI)
    fix j k v assume "j < n" "?bs ! j = Full k v"
    then have "used ! j" "kv ! j = Some (k, v)" by (simp_all add: ful)
    with reach \<open>j < n\<close> show "\<exists>s < n. kh_probe n k s = j \<and> (\<forall>t < s. ?bs ! kh_probe n k t \<noteq> Empty)"
      unfolding used_reach_def by (simp add: emp pr)
  qed
  moreover have graph: "(\<exists>j < n. ?bs ! j = Full k v) \<longleftrightarrow> f k = Some v" for k v
  proof -
    have "(\<exists>j < n. ?bs ! j = Full k v) \<longleftrightarrow> (k, v) \<in> slots kv used"
      unfolding slots_def len(1) using ful by blast
    then show ?thesis by (simp add: G)
  qed
  moreover have "bs_keys_distinct ?bs n"
    unfolding bs_keys_distinct_def
  proof (intro allI impI)
    fix i j k v w assume a: "i < n" "j < n" "?bs ! i = Full k v" "?bs ! j = Full k w"
    then have "f k = Some v" "f k = Some w" using graph by blast+
    then have "v = w" by simp
    then have "used ! i" "used ! j" "kv ! i = Some (k, v)" "kv ! j = Some (k, v)"
      using a ful by blast+
    then show "i = j" using slots_inj[OF G, of i j "(k, v)"] a(1,2) full len by simp
  qed
  moreover have "{j. j < n \<and> bucket_entry (?bs ! j) \<noteq> None} = {j. j < n \<and> used ! j}"
    "{j. j < n \<and> ?bs ! j \<noteq> Empty} = {j. j < n \<and> used ! j}"
    using ent emp by auto
  moreover have "card {j. j < n \<and> used ! j} = sz" using sz(1) len by (simp add: count_True_card)
  ultimately show ok: "kh_ok h"
    unfolding kh_ok_def h_def using len n sz(2) by auto
  show "kh_lookup h = f"
    using kh_lookup_eqI[OF ok ok, of f] graph by (simp add: h_def)
qed

lemma kh_resize_ok:
  fixes h :: "'v khash"
  assumes ok: "kh_ok h" and n: "n = 2 ^ m" "2 \<le> m" "n_buckets h \<le> n"
    and r: "(if kroundup32 r < 4 then 4 else kroundup32 r) = n" and sz: "kh_size h < hash_upper n"
  shows "\<exists>h'. kh_resize h r = Inr h' \<and> kh_ok h' \<and> kh_lookup h' = kh_lookup h \<and>
           n_occupied h' < upper_bound h'"
proof -
  define kv where "kv = map bucket_entry (buckets h) @ replicate (n - n_buckets h) None"
  define old where "old = map (\<lambda>b. bucket_entry b \<noteq> None) (buckets h)"
  define used where "used = replicate n False"
  have len: "length (buckets h) = n_buckets h" using ok by (simp add: kh_ok_def)
  have no: "count_list used True = 0" "slots kv used = {}"
    by (auto simp: used_def count_True_card slots_def)
  have "{j. j < length old \<and> old ! j} = {j. j < n_buckets h \<and> bucket_entry (buckets h ! j) \<noteq> None}"
    using len by (auto simp: old_def)
  then have co: "count_list old True = kh_size h" using ok by (simp add: count_True_card kh_ok_def)
  have inv: "kick_inv kv old used n"
    using len n(3) by (auto simp: kick_inv_def used_reach_def kv_def old_def used_def nth_append)
  have "hash_upper n < n" using n power_increasing[of 2 m "2::nat"] by (intro hash_upper_less) simp
  then have "count_list used True + count_list old True < n" using no co sz by simp
  moreover have sub: "{j. j < length old \<and> old ! j} \<subseteq> set [0..<n_buckets h]"
      "set [0..<n_buckets h] \<subseteq> {..<length old}"
    using len by (auto simp: old_def)
  moreover have so: "slots kv old = kh_graph h"
    unfolding kv_def old_def by (rule kh_graph_slots[OF ok])
  ultimately obtain kv' used' where
    R: "kh_rehash [0..<n_buckets h] kv old used n = Some (kv', used')"
      "length used' = n" "length kv' = length kv" "\<forall>i < n. used' ! i \<longrightarrow> kv' ! i \<noteq> None"
      "used_reach kv' used' n" "count_list used' True = kh_size h" "slots kv' used' = kh_graph h"
    using kh_rehash_spec[OF inv n(1), of "[0..<n_buckets h]"] no co by auto
  have kvn: "length kv' = n" using R(3) len n(3) by (simp add: kv_def)
  have "card (kh_graph h) = count_list used' True" using kh_size_card_graph[OF ok] R(6) by simp
  note reb = kh_rebuilt_ok[OF R(2) kvn n(1,2) R(4,5) R(7)[unfolded kh_graph_def] this[unfolded kh_graph_def] R(6) sz]
  have "kh_resize h r = Inr \<lparr>n_buckets = n, kh_size = kh_size h, n_occupied = kh_size h,
      upper_bound = hash_upper n, buckets = map2 bucket_of used' kv'\<rparr>"
    using r sz R(1) kvn unfolding kh_resize_def Let_def kv_def old_def used_def by simp
  with reb sz show ?thesis by simp
qed

lemma kh_make_room_ok:
  fixes h :: "'v khash"
  assumes ok: "kh_ok h"
  shows "\<exists>h'. kh_make_room h = Inr h' \<and> kh_ok h' \<and> kh_lookup h' = kh_lookup h \<and>
           n_occupied h' < upper_bound h'"
proof (cases "n_occupied h < upper_bound h")
  case True
  with ok show ?thesis by (simp add: kh_make_room_def)
next
  case False
  have szoc: "kh_size h \<le> n_occupied h"
    using ok unfolding kh_ok_def by (auto intro!: card_mono split: bucket.splits)
  show ?thesis
  proof (cases "n_buckets h = 0")
    case True
    then have "kh_size h = 0" using ok by (simp add: kh_ok_def)
    with True False ok kh_resize_ok[of h 4 2 1] show ?thesis
      by (simp add: kh_make_room_def kroundup32_1[simplified] hash_upper_def)
  next
    case nz: False
    with ok obtain m where m: "2 \<le> m" "n_buckets h = 2 ^ m" by (auto simp: kh_ok_def)
    have ge: "(4::nat) \<le> 2 ^ m" using m(1) power_increasing[of 2 m "2::nat"] by simp
    show ?thesis
    proof (cases "n_buckets h > 2 * kh_size h")
      case True
      then have "kh_size h < hash_upper (2 ^ m)" using m by (simp add: hash_upper_def)
      with True False ok m ge kh_resize_ok[of h "2 ^ m" m "2 ^ m - 1"] show ?thesis
        by (simp add: kh_make_room_def kroundup32_pred kroundup32_pred[simplified])
    next
      case small: False
      have "kh_size h < 2 ^ m"
        using szoc ok m hash_upper_less[OF ge] by (simp add: kh_ok_def)
      then have "kh_size h < hash_upper (2 ^ Suc m)" by (simp add: hash_upper_def)
      with small False ok m ge kh_resize_ok[of h "2 ^ Suc m" "Suc m" "2 ^ m + 1"] show ?thesis
        by (simp add: kh_make_room_def kroundup32_succ[simplified])
    qed
  qed
qed

theorem kh_put_total:
  assumes "kh_ok h"
  shows "\<exists>h' rv. kh_put h key v = Inr (h', rv) \<and> kh_ok h' \<and>
    kh_lookup h' = (kh_lookup h)(key \<mapsto> v) \<and> (rv = 0 \<longleftrightarrow> kh_lookup h key \<noteq> None) \<and> 0 \<le> rv"
proof -
  obtain g where g: "kh_make_room h = Inr g" "kh_ok g" "kh_lookup g = kh_lookup h"
      "n_occupied g < upper_bound g"
    using kh_make_room_ok[OF assms] by blast
  from kh_put_with_room[OF g(2,4), of key v] obtain h' rv where
    p: "kh_make_room g = Inr g" "kh_put g key v = Inr (h', rv)" "kh_ok h'"
      "kh_lookup h' = (kh_lookup g)(key \<mapsto> v)" "rv = 0 \<longleftrightarrow> kh_lookup g key \<noteq> None" "0 \<le> rv"
    by blast
  have "kh_put h key v = kh_put g key v"
    by (simp add: kh_put_def g(1) p(1))
  with p g(3) show ?thesis by auto
qed

section \<open>Iteration\<close>

lemma map_filter_Cons:
  "List.map_filter f (x # xs) = (case f x of None \<Rightarrow> List.map_filter f xs | Some y \<Rightarrow> y # List.map_filter f xs)"
  by (simp add: List.map_filter_def split: option.splits)

lemma bs_keys_distinct_tl:
  assumes "bs_keys_distinct (b # bs) (length (b # bs))"
  shows "bs_keys_distinct bs (length bs)"
  unfolding bs_keys_distinct_def
proof (intro allI impI)
  fix i j k v w
  assume "i < length bs" "j < length bs" "bs ! i = Full k v" "bs ! j = Full k w"
  then have "Suc i < length (b # bs)" "Suc j < length (b # bs)" "(b # bs) ! Suc i = Full k v"
    "(b # bs) ! Suc j = Full k w" by simp_all
  with assms have "Suc i = Suc j" unfolding bs_keys_distinct_def by blast
  then show "i = j" by simp
qed

lemma set_map_filter_entry:
  "(k, v) \<in> set (List.map_filter bucket_entry bs) \<longleftrightarrow> (\<exists>j < length bs. bs ! j = Full k v)"
proof -
  have "(k, v) \<in> set (List.map_filter bucket_entry bs) \<longleftrightarrow> Full k v \<in> set bs"
  proof (induction bs)
    case Nil
    then show ?case by (simp add: List.map_filter_def)
  next
    case (Cons b bs)
    then show ?case by (cases b) (auto simp: map_filter_Cons)
  qed
  then show ?thesis by (auto simp: in_set_conv_nth)
qed

lemma map_filter_keys_distinct:
  "bs_keys_distinct bs (length bs) \<Longrightarrow> distinct (map fst (List.map_filter bucket_entry bs))"
proof (induction bs)
  case Nil
  then show ?case by (simp add: List.map_filter_def)
next
  case (Cons b bs)
  note IH = Cons.IH[OF bs_keys_distinct_tl[OF Cons.prems]]
  show ?case
  proof (cases b)
    case (Full k v)
    have "(k, w) \<notin> set (List.map_filter bucket_entry bs)" for w
    proof
      assume "(k, w) \<in> set (List.map_filter bucket_entry bs)"
      then obtain j where "j < length bs" "bs ! j = Full k w" by (auto simp: set_map_filter_entry)
      then have "Suc j < length (b # bs)" "(b # bs) ! Suc j = Full k w" "(b # bs) ! 0 = Full k v"
        using Full by simp_all
      with Cons.prems have "Suc j = 0" unfolding bs_keys_distinct_def by blast
      then show False by simp
    qed
    with IH Full show ?thesis by (force simp: map_filter_Cons)
  qed (use IH in \<open>simp_all add: map_filter_Cons\<close>)
qed

lemma kh_entries_ok:
  assumes "kh_ok h"
  shows "distinct (map fst (kh_entries h))" and "map_of (kh_entries h) = kh_lookup h"
    and "length (kh_entries h) = kh_size h"
proof -
  show d: "distinct (map fst (kh_entries h))"
    using assms map_filter_keys_distinct[of "buckets h"] by (simp add: kh_entries_def kh_ok_def)
  show m: "map_of (kh_entries h) = kh_lookup h"
  proof
    fix k
    have "map_of (kh_entries h) k = Some v \<longleftrightarrow> kh_lookup h k = Some v" for v
      using d assms kh_lookup_iff[OF assms, of k v] set_map_filter_entry[of k v "buckets h"]
      by (simp add: kh_entries_def kh_ok_def)
    then show "map_of (kh_entries h) k = kh_lookup h k" by (metis not_None_eq)
  qed
  have "set (kh_entries h) = kh_graph h"
    using d m by (auto simp: kh_graph_def simp flip: map_of_eq_Some_iff)
  then show "length (kh_entries h) = kh_size h"
    using kh_size_card_graph[OF assms] d by (metis distinct_card distinct_map)
qed

fun bucket_remove :: "('v \<Rightarrow> bool) \<Rightarrow> 'v bucket \<Rightarrow> 'v bucket" where
  "bucket_remove P (Full k v) = (if P v then Deleted else Full k v)"
| "bucket_remove P b = b"

lemma kh_remove_loop_ok:
  assumes "kh_ok h" "distinct ks" "set ks \<subseteq> {..<n_buckets h}"
  shows "kh_ok (kh_remove_loop P ks h) \<and> n_buckets (kh_remove_loop P ks h) = n_buckets h \<and>
    (\<forall>j < n_buckets h. buckets (kh_remove_loop P ks h) ! j =
       (if j \<in> set ks then bucket_remove P (buckets h ! j) else buckets h ! j))"
  using assms
proof (induction ks arbitrary: h)
  case Nil
  then show ?case by simp
next
  case (Cons k ks)
  have k: "k < n_buckets h" "k < length (buckets h)" using Cons.prems by (auto simp: kh_ok_def)
  show ?case
  proof (cases "\<exists>key v. buckets h ! k = Full key v \<and> P v")
    case True
    then obtain key v where b: "buckets h ! k = Full key v" "P v" by blast
    note del = kh_del_ok[OF Cons.prems(1) k(1) b(1)]
    from Cons.IH[of "kh_del h k"] del Cons.prems b k show ?thesis
      by (auto simp: nth_list_update)
  next
    case False
    then have "kh_remove_loop P (k # ks) h = kh_remove_loop P ks h"
      "bucket_remove P (buckets h ! k) = buckets h ! k"
      by (auto split: bucket.splits) (cases "buckets h ! k"; auto)
    with Cons show ?thesis by auto
  qed
qed

lemma map_filter_bucket_remove:
  "List.map_filter bucket_entry (map (bucket_remove P) bs) =
   filter (\<lambda>(k, v). \<not> P v) (List.map_filter bucket_entry bs)"
proof (induction bs)
  case Nil
  then show ?case by (simp add: List.map_filter_def)
next
  case (Cons b bs)
  then show ?case by (cases b) (simp_all add: map_filter_Cons)
qed

lemma kh_remove_if_ok:
  assumes "kh_ok h"
  shows "kh_ok (kh_remove_if P h)"
    and "kh_entries (kh_remove_if P h) = filter (\<lambda>(k, v). \<not> P v) (kh_entries h)"
proof -
  have "set [0..<n_buckets h] \<subseteq> {..<n_buckets h}" by auto
  note loop = kh_remove_loop_ok[OF assms distinct_upt this, of P]
  then show ok: "kh_ok (kh_remove_if P h)" by (simp add: kh_remove_if_def)
  have len: "length (buckets g) = n_buckets g" if "kh_ok g" for g :: "'a khash"
    using that by (simp add: kh_ok_def)
  have "buckets (kh_remove_if P h) = map (bucket_remove P) (buckets h)"
    using loop len[OF assms] len[OF ok] by (intro nth_equalityI) (simp_all add: kh_remove_if_def)
  then show "kh_entries (kh_remove_if P h) = filter (\<lambda>(k, v). \<not> P v) (kh_entries h)"
    by (simp add: kh_entries_def map_filter_bucket_remove)
qed

lemma kh_init_ok: "kh_ok kh_init" "kh_lookup kh_init = Map.empty"
proof -
  show "kh_ok kh_init"
    by (simp add: kh_ok_def kh_init_def hash_upper_def bs_keys_distinct_def bs_reach_def)
  show "kh_lookup kh_init = Map.empty"
    by (rule ext) (simp add: kh_lookup_def kh_init_def kh_get_def)
qed

section \<open>The interface of the hash tables\<close>

text \<open>
  What the storage, the proposer and the learner rely on: a table is a finite map, an insertion
  always succeeds and says whether the key was there, and a walk over the buckets sees every entry
  exactly once.
\<close>

locale hash_table =
  fixes ok :: "'h \<Rightarrow> bool"
    and init :: "'h"
    and lookup :: "'h \<Rightarrow> u32 \<Rightarrow> 'v option"
    and put :: "'h \<Rightarrow> u32 \<Rightarrow> 'v \<Rightarrow> ('h \<times> int) res"
    and delete :: "'h \<Rightarrow> u32 \<Rightarrow> 'h"
    and update :: "'h \<Rightarrow> u32 \<Rightarrow> 'v \<Rightarrow> 'h"
    and entries :: "'h \<Rightarrow> (u32 \<times> 'v) list"
    and remove_if :: "('v \<Rightarrow> bool) \<Rightarrow> 'h \<Rightarrow> 'h"
    and count :: "'h \<Rightarrow> nat"
  assumes init_ok: "ok init" and init_lookup: "lookup init = Map.empty"
    and put_law: "ok h \<Longrightarrow> \<exists>h' rv. put h k v = Inr (h', rv) \<and> ok h' \<and>
          lookup h' = (lookup h)(k \<mapsto> v) \<and> (rv = 0 \<longleftrightarrow> lookup h k \<noteq> None) \<and> 0 \<le> rv"
    and delete_ok: "ok h \<Longrightarrow> ok (delete h k)"
    and delete_lookup: "ok h \<Longrightarrow> lookup (delete h k) = (lookup h)(k := None)"
    and update_ok: "ok h \<Longrightarrow> lookup h k = Some w \<Longrightarrow> ok (update h k v)"
    and update_lookup: "ok h \<Longrightarrow> lookup h k = Some w \<Longrightarrow> lookup (update h k v) = (lookup h)(k \<mapsto> v)"
    and entries_distinct: "ok h \<Longrightarrow> distinct (map fst (entries h))"
    and entries_map: "ok h \<Longrightarrow> map_of (entries h) = lookup h"
    and remove_if_ok: "ok h \<Longrightarrow> ok (remove_if P h)"
    and remove_if_entries: "ok h \<Longrightarrow> entries (remove_if P h) = filter (\<lambda>(k, v). \<not> P v) (entries h)"
    and count_entries: "ok h \<Longrightarrow> count h = length (entries h)"
begin

lemma put_Inr:
  assumes "ok h" "put h k v = Inr (h', rv)"
  shows "ok h'" "lookup h' = (lookup h)(k \<mapsto> v)" "rv = 0 \<longleftrightarrow> lookup h k \<noteq> None" "0 \<le> rv"
  using put_law[OF assms(1), of k v] assms(2) by auto

lemma put_succeeds:
  assumes "ok h"
  obtains h' rv where "put h k v = Inr (h', rv)" "ok h'" "lookup h' = (lookup h)(k \<mapsto> v)"
    "rv = 0 \<longleftrightarrow> lookup h k \<noteq> None" "0 \<le> rv"
  using put_law[OF assms, of k v] by blast

lemma put_fresh:
  assumes "ok h" "lookup h k = None"
  obtains h' rv where "put h k v = Inr (h', rv)" "ok h'" "lookup h' = (lookup h)(k \<mapsto> v)" "0 < rv"
  using put_law[OF assms(1), of k v] assms(2) by (metis less_le)

lemma put_no_fault: "ok h \<Longrightarrow> put h k v \<noteq> Inl e"
  using put_law[of h k v] by auto

lemma set_entries: "ok h \<Longrightarrow> (k, v) \<in> set (entries h) \<longleftrightarrow> lookup h k = Some v"
  using entries_distinct[of h] entries_map[of h] by (metis map_of_eq_Some_iff)

lemma entries_ran: "ok h \<Longrightarrow> v \<in> snd ` set (entries h) \<longleftrightarrow> v \<in> ran (lookup h)"
  using set_entries[of h] by (force simp: ran_def)

lemma finite_dom: "ok h \<Longrightarrow> finite (dom (lookup h))"
  using entries_map[of h] finite_dom_map_of[of "entries h"] by simp

lemma count_card: "ok h \<Longrightarrow> count h = card (dom (lookup h))"
  using card_dom_map_of[OF entries_distinct[of h]] entries_map[of h] count_entries[of h] by simp

lemma count_zero: "ok h \<Longrightarrow> count h = 0 \<longleftrightarrow> lookup h = Map.empty"
  using count_card[of h] finite_dom[of h] by simp

lemma count_put:
  assumes "ok h" "put h k v = Inr (h', rv)"
  shows "count h' = (if lookup h k = None then Suc (count h) else count h)"
proof -
  have "dom (lookup h') = insert k (dom (lookup h))" "ok h'" using put_Inr[OF assms] by auto
  then show ?thesis using count_card assms(1) finite_dom[OF assms(1)]
    by (simp add: card_insert_if domIff)
qed

lemma count_delete:
  assumes "ok h"
  shows "count (delete h k) = (if lookup h k = None then count h else count h - 1)"
proof -
  have "dom (lookup (delete h k)) = dom (lookup h) - {k}" using delete_lookup[OF assms] by auto
  then show ?thesis using count_card assms finite_dom[OF assms] delete_ok[OF assms]
    by (simp add: card_Diff_singleton_if domIff)
qed

lemma remove_if_lookup:
  assumes "ok h"
  shows "lookup (remove_if P h) k = (case lookup h k of None \<Rightarrow> None | Some v \<Rightarrow> if P v then None else Some v)"
proof -
  have "lookup (remove_if P h) k = map_of (filter (\<lambda>(k, v). \<not> P v) (entries h)) k"
    using entries_map[OF remove_if_ok[OF assms]] remove_if_entries[OF assms] by metis
  then show ?thesis
    using map_of_filter_distinct[OF entries_distinct[OF assms], of "\<lambda>(k, v). \<not> P v" k] entries_map[OF assms]
    by (auto split: option.splits)
qed

end

interpretation kh: hash_table kh_ok kh_init kh_lookup kh_put kh_delete kh_write kh_entries kh_remove_if kh_size
  by unfold_locales
    (rule kh_put_total kh_write_ok; assumption |
      simp add: kh_init_ok kh_delete_ok kh_entries_ok kh_remove_if_ok)+

section \<open>Sequences of operations\<close>

text \<open>
  The table against the finite map it stands for, over every sequence of the operations the library
  performs on a table. Nothing is assumed: a sequence starts from \<^verbatim>\<open>kh_init\<close>.
\<close>

datatype 'v kh_op = OpPut u32 'v | OpDelete u32 | OpWrite u32 'v | OpRemoveIf "'v \<Rightarrow> bool"

fun kh_apply :: "'v kh_op \<Rightarrow> 'v khash \<Rightarrow> 'v khash res" where
  "kh_apply (OpPut k v) h = bind_res (kh_put h k v) (\<lambda>(h', rv). Inr h')"
| "kh_apply (OpDelete k) h = Inr (kh_delete h k)"
| "kh_apply (OpWrite k v) h = Inr (kh_write h k v)"
| "kh_apply (OpRemoveIf P) h = Inr (kh_remove_if P h)"

fun kh_run :: "'v kh_op list \<Rightarrow> 'v khash \<Rightarrow> 'v khash res" where
  "kh_run [] h = Inr h"
| "kh_run (x # xs) h = bind_res (kh_apply x h) (kh_run xs)"

fun map_apply :: "'v kh_op \<Rightarrow> (u32 \<rightharpoonup> 'v) \<Rightarrow> (u32 \<rightharpoonup> 'v)" where
  "map_apply (OpPut k v) m = m(k \<mapsto> v)"
| "map_apply (OpDelete k) m = m(k := None)"
| "map_apply (OpWrite k v) m = (if m k = None then m else m(k \<mapsto> v))"
| "map_apply (OpRemoveIf P) m = (\<lambda>k. case m k of None \<Rightarrow> None | Some v \<Rightarrow> if P v then None else Some v)"

lemma kh_write_absent: "kh_ok h \<Longrightarrow> kh_lookup h k = None \<Longrightarrow> kh_write h k v = h"
  by (simp add: kh_write_def Let_def kh_get_end_iff)

lemma kh_apply_ok:
  assumes "kh_ok h"
  shows "\<exists>h'. kh_apply x h = Inr h' \<and> kh_ok h' \<and> kh_lookup h' = map_apply x (kh_lookup h)"
proof (cases x)
  case (OpPut k v)
  with kh.put_law[OF assms, of k v] show ?thesis by auto
next
  case (OpDelete k)
  with assms show ?thesis by (simp add: kh.delete_ok kh.delete_lookup)
next
  case (OpWrite k v)
  show ?thesis
  proof (cases "kh_lookup h k")
    case None
    with OpWrite assms show ?thesis by (simp add: kh_write_absent)
  next
    case (Some w)
    with OpWrite assms show ?thesis
      using kh.update_ok[OF assms Some] kh.update_lookup[OF assms Some] by simp
  qed
next
  case (OpRemoveIf P)
  with assms show ?thesis by (auto simp: kh.remove_if_ok kh.remove_if_lookup)
qed

lemma kh_run_ok:
  "kh_ok h \<Longrightarrow> \<exists>h'. kh_run xs h = Inr h' \<and> kh_ok h' \<and> kh_lookup h' = fold map_apply xs (kh_lookup h)"
proof (induction xs arbitrary: h)
  case Nil
  then show ?case by simp
next
  case (Cons x xs)
  obtain g where g: "kh_apply x h = Inr g" "kh_ok g" "kh_lookup g = map_apply x (kh_lookup h)"
    using kh_apply_ok[OF Cons.prems, of x] by blast
  with Cons.IH[OF g(2)] show ?case by simp
qed


end
