(* ===== verification/Carray.thy ===== *)
theory Carray
  imports Prelude
begin

text \<open>
  The growing ring buffer of \<^verbatim>\<open>paxos/carray.c\<close>, in which the proposer keeps the client values that
  wait for an instance. The allocation behind \<^verbatim>\<open>array\<close> is a list of cells, \<open>None\<close> for a cell that
  was never written; reading such a cell or a cell outside of the allocation is a fault. The theory
  shows that the buffer is a queue (interface \<open>fifo\<close>, interpreted as \<open>cq\<close>) and that no operation
  on a well-formed buffer faults, growth included.
\<close>

section \<open>The ring buffer\<close>

record 'a carray =
  ca_head :: nat
  ca_tail :: nat
  ca_size :: nat
  ca_count :: nat
  ca_array :: "'a option list"

definition carray_new :: "nat \<Rightarrow> 'a carray" where
  "carray_new sz = \<lparr>ca_head = 0, ca_tail = 0, ca_size = sz, ca_count = 0,
     ca_array = replicate sz None\<rparr>"

definition carray_empty :: "'a carray \<Rightarrow> bool" where
  "carray_empty a \<longleftrightarrow> ca_count a = 0"

definition carray_size :: "'a carray \<Rightarrow> nat" where
  "carray_size a = ca_size a"

definition carray_full :: "'a carray \<Rightarrow> bool" where
  "carray_full a \<longleftrightarrow> ca_count a = ca_size a"

definition carray_read :: "'a carray \<Rightarrow> nat \<Rightarrow> 'a res" where
  "carray_read a j = bind_res (aread (Some (ca_array a)) j)
     (\<lambda>c. case c of Some p \<Rightarrow> Inr p | None \<Rightarrow> Inl OutOfBounds)"

definition carray_at :: "'a carray \<Rightarrow> nat \<Rightarrow> 'a res" where
  "carray_at a i = carray_read a ((ca_head a + i) mod ca_size a)"

text \<open>The second half of \<^verbatim>\<open>carray_push_back\<close>: write the cell at the tail and advance.\<close>

definition carray_store :: "'a carray \<Rightarrow> 'a \<Rightarrow> 'a carray res" where
  "carray_store a p =
     (if ca_tail a < length (ca_array a)
      then Inr (a\<lparr>ca_array := (ca_array a)[ca_tail a := Some p],
                  ca_tail := (ca_tail a + 1) mod ca_size a, ca_count := ca_count a + 1\<rparr>)
      else Inl OutOfBounds)"

text \<open>
  The copying loop of \<^verbatim>\<open>carray_grow\<close>. It pushes into a buffer of twice the size; that this buffer
  would itself be full is the fault \<open>Diverges\<close> (the C code would grow it in turn), which
  \<open>carray_push_back_ok\<close> excludes.
\<close>

fun carray_fill :: "'a carray \<Rightarrow> nat list \<Rightarrow> 'a carray \<Rightarrow> 'a carray res" where
  "carray_fill a [] tmp = Inr tmp"
| "carray_fill a (i # is) tmp =
     (if carray_full tmp then Inl Diverges
      else bind_res (carray_at a i) (\<lambda>p.
           bind_res (carray_store tmp p) (carray_fill a is)))"

definition carray_grow :: "'a carray \<Rightarrow> 'a carray res" where
  "carray_grow a =
     bind_res (carray_fill a [0..<ca_count a] (carray_new (ca_size a * 2))) (\<lambda>tmp.
     Inr (a\<lparr>ca_head := 0, ca_tail := ca_tail tmp, ca_size := ca_size tmp, ca_array := ca_array tmp\<rparr>))"

definition carray_push_back :: "'a carray \<Rightarrow> 'a \<Rightarrow> 'a carray res" where
  "carray_push_back a p =
     bind_res (if carray_full a then carray_grow a else Inr a) (\<lambda>a. carray_store a p)"

definition carray_pop_front :: "'a carray \<Rightarrow> ('a option \<times> 'a carray) res" where
  "carray_pop_front a =
     (if carray_empty a then Inr (None, a)
      else bind_res (carray_read a (ca_head a)) (\<lambda>p.
           Inr (Some p, a\<lparr>ca_head := (ca_head a + 1) mod ca_size a, ca_count := ca_count a - 1\<rparr>)))"

text \<open>The pointers \<^verbatim>\<open>carray_foreach\<close> hands to its callback, in order.\<close>

fun carray_visit :: "'a carray \<Rightarrow> nat list \<Rightarrow> 'a list res" where
  "carray_visit a [] = Inr []"
| "carray_visit a (i # is) =
     bind_res (carray_at a i) (\<lambda>p. bind_res (carray_visit a is) (\<lambda>ps. Inr (p # ps)))"

definition carray_foreach :: "'a carray \<Rightarrow> 'a list res" where
  "carray_foreach a = carray_visit a [0..<ca_count a]"

section \<open>Well-formed buffers and their contents\<close>

definition carray_ok :: "'a carray \<Rightarrow> bool" where
  "carray_ok a \<longleftrightarrow> 0 < ca_size a \<and> length (ca_array a) = ca_size a \<and> ca_head a < ca_size a \<and>
     ca_count a \<le> ca_size a \<and> ca_tail a = (ca_head a + ca_count a) mod ca_size a \<and>
     (\<forall>i < ca_count a. ca_array a ! ((ca_head a + i) mod ca_size a) \<noteq> None)"

definition carray_contents :: "'a carray \<Rightarrow> 'a list" where
  "carray_contents a = map (\<lambda>i. the (ca_array a ! ((ca_head a + i) mod ca_size a))) [0..<ca_count a]"

lemma carray_new_ok:
  "0 < n \<Longrightarrow> carray_ok (carray_new n :: 'a carray) \<and> carray_contents (carray_new n :: 'a carray) = []"
  by (simp add: carray_ok_def carray_new_def carray_contents_def)

lemma carray_empty_iff: "carray_empty a \<longleftrightarrow> carray_contents a = []"
  by (simp add: carray_empty_def carray_contents_def)

lemma length_carray_contents [simp]: "length (carray_contents a) = ca_count a"
  by (simp add: carray_contents_def)

lemma carray_at_ok:
  assumes "carray_ok a" "i < ca_count a"
  shows "carray_at a i = Inr (carray_contents a ! i)"
proof -
  have "(ca_head a + i) mod ca_size a < length (ca_array a)" using assms by (simp add: carray_ok_def)
  moreover have "ca_array a ! ((ca_head a + i) mod ca_size a) \<noteq> None"
    using assms by (simp add: carray_ok_def)
  ultimately show ?thesis
    using assms(2) by (auto simp: carray_at_def carray_read_def carray_contents_def split: option.splits)
qed

lemma mod_index_neq:
  assumes "i < c" "c < (n::nat)" "h < n"
  shows "(h + i) mod n \<noteq> (h + c) mod n"
proof
  assume "(h + i) mod n = (h + c) mod n"
  then have "n dvd (h + c) - (h + i)" using assms by (metis add_le_mono le_refl less_imp_le mod_eq_dvd_iff_nat)
  then show False using assms by (auto dest!: dvd_imp_le)
qed

lemma carray_store_ok:
  assumes ok: "carray_ok a" and room: "\<not> carray_full a"
  shows "\<exists>a'. carray_store a p = Inr a' \<and> carray_ok a' \<and>
           carray_contents a' = carray_contents a @ [p] \<and> ca_size a' = ca_size a \<and> ca_count a' = Suc (ca_count a)"
proof -
  let ?n = "ca_size a" and ?h = "ca_head a" and ?c = "ca_count a"
  let ?a = "a\<lparr>ca_array := (ca_array a)[ca_tail a := Some p], ca_tail := (ca_tail a + 1) mod ?n, ca_count := ?c + 1\<rparr>"
  have c: "?c < ?n" "?h < ?n" "length (ca_array a) = ?n" "ca_tail a = (?h + ?c) mod ?n"
    using ok room by (auto simp: carray_ok_def carray_full_def)
  have upd: "(ca_array a)[ca_tail a := Some p] ! ((?h + i) mod ?n) =
      (if i = ?c then Some p else ca_array a ! ((?h + i) mod ?n))" if "i \<le> ?c" for i
    using c that mod_index_neq[of i ?c ?n ?h] by (auto simp: nth_list_update)
  have "carray_ok ?a"
    using ok c upd by (auto simp: carray_ok_def mod_Suc_eq less_Suc_eq_le)
  moreover have "carray_contents ?a = carray_contents a @ [p]"
    using upd by (auto simp: carray_contents_def)
  moreover have "ca_tail a < length (ca_array a)" using c by simp
  ultimately show ?thesis by (simp add: carray_store_def)
qed

lemma carray_fill_ok:
  assumes "carray_ok a" "carray_ok tmp" "set is \<subseteq> {..<ca_count a}"
    "ca_count tmp + length is \<le> ca_size tmp"
  shows "\<exists>t. carray_fill a is tmp = Inr t \<and> carray_ok t \<and> ca_size t = ca_size tmp \<and>
           carray_contents t = carray_contents tmp @ map ((!) (carray_contents a)) is"
  using assms(2-)
proof (induction "is" arbitrary: tmp)
  case Nil
  then show ?case by simp
next
  case (Cons i "is")
  have nf: "\<not> carray_full tmp" using Cons.prems(3) by (simp add: carray_full_def)
  obtain t where t: "carray_store tmp (carray_contents a ! i) = Inr t" "carray_ok t"
    "carray_contents t = carray_contents tmp @ [carray_contents a ! i]" "ca_size t = ca_size tmp"
    "ca_count t = Suc (ca_count tmp)"
    using carray_store_ok[OF Cons.prems(1) nf] by blast
  have "carray_at a i = Inr (carray_contents a ! i)"
    using assms(1) Cons.prems(2) by (intro carray_at_ok) auto
  with t nf Cons.IH[OF t(2)] Cons.prems show ?case by auto
qed

lemma carray_grow_ok:
  assumes "carray_ok a"
  shows "\<exists>a'. carray_grow a = Inr a' \<and> carray_ok a' \<and> carray_contents a' = carray_contents a \<and>
           ca_size a' = 2 * ca_size a \<and> ca_count a' = ca_count a"
proof -
  let ?new = "carray_new (ca_size a * 2) :: 'a carray"
  have "carray_ok ?new" "carray_contents ?new = []" "ca_count ?new = 0" "ca_size ?new = ca_size a * 2"
    using assms carray_new_ok[of "ca_size a * 2"] by (auto simp: carray_ok_def carray_new_def)
  moreover have "set [0..<ca_count a] \<subseteq> {..<ca_count a}" by auto
  ultimately obtain t where t: "carray_fill a [0..<ca_count a] ?new = Inr t" "carray_ok t"
      "ca_size t = ca_size a * 2" "carray_contents t = map ((!) (carray_contents a)) [0..<ca_count a]"
    using carray_fill_ok[OF assms, of ?new "[0..<ca_count a]"] assms by (auto simp: carray_ok_def)
  have same: "carray_contents t = carray_contents a"
    using t(4) map_nth[of "carray_contents a"] by simp
  have count: "ca_count t = ca_count a" using arg_cong[OF same, of length] by simp
  have h: "carray_fill a is tmp = Inr t \<Longrightarrow> ca_head t = ca_head tmp" for "is" tmp
    by (induction "is" arbitrary: tmp) (auto simp: res_iffs carray_store_def split: if_splits)
  have "ca_head t = 0" using h[OF t(1)] by (simp add: carray_new_def)
  then have "a\<lparr>ca_head := 0, ca_tail := ca_tail t, ca_size := ca_size t, ca_array := ca_array t\<rparr> = t"
    using count by (cases a, cases t) simp
  with t same count show ?thesis by (simp add: carray_grow_def mult.commute)
qed

lemma carray_push_back_ok:
  assumes "carray_ok a"
  shows "\<exists>a'. carray_push_back a p = Inr a' \<and> carray_ok a' \<and> carray_contents a' = carray_contents a @ [p]"
proof (cases "carray_full a")
  case True
  obtain g where g: "carray_grow a = Inr g" "carray_ok g" "carray_contents g = carray_contents a"
      "ca_size g = 2 * ca_size a" "ca_count g = ca_count a"
    using carray_grow_ok[OF assms] by blast
  have "\<not> carray_full g" using g True assms by (auto simp: carray_full_def carray_ok_def)
  with carray_store_ok[OF g(2)] g True show ?thesis by (fastforce simp: carray_push_back_def)
next
  case False
  with carray_store_ok[OF assms False] show ?thesis by (fastforce simp: carray_push_back_def)
qed

lemma carray_pop_front_ok:
  assumes "carray_ok a"
  shows "\<exists>a'. carray_ok a' \<and> (case carray_contents a of
      [] \<Rightarrow> carray_pop_front a = Inr (None, a) \<and> a' = a
    | x # xs \<Rightarrow> carray_pop_front a = Inr (Some x, a') \<and> carray_contents a' = xs)"
proof (cases "carray_empty a")
  case True
  with assms show ?thesis by (auto simp: carray_pop_front_def carray_empty_iff)
next
  case False
  let ?a = "a\<lparr>ca_head := (ca_head a + 1) mod ca_size a, ca_count := ca_count a - 1\<rparr>"
  have c: "0 < ca_count a" using False by (simp add: carray_empty_def)
  have sh: "((ca_head a + 1) mod ca_size a + i) mod ca_size a = (ca_head a + Suc i) mod ca_size a" for i
    using mod_add_left_eq[of "ca_head a + 1" "ca_size a" i] by simp
  have "ca_head a < ca_size a" using assms by (simp add: carray_ok_def)
  then have "carray_read a (ca_head a) = carray_at a 0" by (simp add: carray_at_def)
  then have "carray_read a (ca_head a) = Inr (carray_contents a ! 0)"
    using carray_at_ok[OF assms c] by simp
  then have pop: "carray_pop_front a = Inr (Some (carray_contents a ! 0), ?a)"
    using False by (simp add: carray_pop_front_def)
  have "((ca_head a + 1) mod ca_size a + (ca_count a - 1)) mod ca_size a = (ca_head a + ca_count a) mod ca_size a"
    using sh[of "ca_count a - 1"] c by simp
  moreover have "ca_array a ! ((ca_head a + Suc i) mod ca_size a) \<noteq> None" if "i < ca_count a - 1" for i
  proof -
    have "Suc i < ca_count a" using that by simp
    with assms show ?thesis unfolding carray_ok_def by blast
  qed
  ultimately have "carray_ok ?a" using assms c by (auto simp: carray_ok_def sh[simplified])
  moreover have "carray_contents a = carray_contents a ! 0 # carray_contents ?a"
  proof (rule nth_equalityI)
    show "length (carray_contents a) = length (carray_contents a ! 0 # carray_contents ?a)"
      using c by simp
    fix i assume "i < length (carray_contents a)"
    then show "carray_contents a ! i = (carray_contents a ! 0 # carray_contents ?a) ! i"
      by (cases i) (simp_all add: carray_contents_def sh[simplified] less_diff_conv)
  qed
  moreover obtain x xs where "carray_contents a = x # xs" using calculation(2) by blast
  ultimately show ?thesis using pop by (intro exI[of _ ?a]) auto
qed

lemma carray_foreach_ok:
  assumes "carray_ok a"
  shows "carray_foreach a = Inr (carray_contents a)"
proof -
  have "carray_visit a is = Inr (map ((!) (carray_contents a)) is)" if "set is \<subseteq> {..<ca_count a}" for "is"
    using that by (induction "is") (auto simp: carray_at_ok[OF assms])
  moreover have "set [0..<ca_count a] \<subseteq> {..<ca_count a}" by auto
  ultimately have "carray_foreach a = Inr (map ((!) (carray_contents a)) [0..<ca_count a])"
    unfolding carray_foreach_def by blast
  then show ?thesis using map_nth[of "carray_contents a"] by simp
qed

section \<open>The interface of the queue\<close>

locale fifo =
  fixes ok :: "'q \<Rightarrow> bool"
    and contents :: "'q \<Rightarrow> 'a list"
    and empty :: "'q \<Rightarrow> bool"
    and push :: "'q \<Rightarrow> 'a \<Rightarrow> 'q res"
    and pop :: "'q \<Rightarrow> ('a option \<times> 'q) res"
  assumes empty_iff: "ok q \<Longrightarrow> empty q \<longleftrightarrow> contents q = []"
    and push_law: "ok q \<Longrightarrow> \<exists>q'. push q x = Inr q' \<and> ok q' \<and> contents q' = contents q @ [x]"
    and pop_law: "ok q \<Longrightarrow> \<exists>q'. ok q' \<and> (case contents q of
        [] \<Rightarrow> pop q = Inr (None, q) \<and> q' = q | x # xs \<Rightarrow> pop q = Inr (Some x, q') \<and> contents q' = xs)"
begin

lemma push_Inr:
  assumes "ok q" "push q x = Inr q'"
  shows "ok q'" "contents q' = contents q @ [x]"
  using push_law[OF assms(1), of x] assms(2) by auto

lemma push_succeeds:
  assumes "ok q"
  obtains q' where "push q x = Inr q'" "ok q'" "contents q' = contents q @ [x]"
  using push_law[OF assms, of x] by blast

lemma pop_Nil: "ok q \<Longrightarrow> contents q = [] \<Longrightarrow> pop q = Inr (None, q)"
  using pop_law[of q] by simp

lemma pop_Cons:
  assumes "ok q" "contents q = x # xs"
  obtains q' where "pop q = Inr (Some x, q')" "ok q'" "contents q' = xs"
  using pop_law[OF assms(1)] assms(2) by auto

lemma pop_Inr:
  assumes "ok q" "pop q = Inr (r, q')"
  shows "ok q'" "contents q = (case r of None \<Rightarrow> [] | Some x \<Rightarrow> [x]) @ contents q'"
    "r = None \<longleftrightarrow> contents q = []"
  using pop_law[OF assms(1)] assms(2) by (cases "contents q"; auto)+

lemma pop_no_fault: "ok q \<Longrightarrow> pop q \<noteq> Inl e"
  using pop_law[of q] by (cases "contents q") auto

end

interpretation cq: fifo carray_ok carray_contents carray_empty carray_push_back carray_pop_front
  by unfold_locales (rule carray_push_back_ok carray_pop_front_ok carray_empty_iff; assumption?)+

section \<open>Sequences of operations\<close>

text \<open>A run of pushes (\<open>Some p\<close>) and pops (\<open>None\<close>); the outputs are those of the pops.\<close>

fun carray_run :: "'a option list \<Rightarrow> 'a carray \<Rightarrow> ('a option list \<times> 'a carray) res" where
  "carray_run [] a = Inr ([], a)"
| "carray_run (Some p # xs) a = bind_res (carray_push_back a p) (carray_run xs)"
| "carray_run (None # xs) a = bind_res (carray_pop_front a) (\<lambda>(r, a).
     bind_res (carray_run xs a) (\<lambda>(rs, a). Inr (r # rs, a)))"

fun list_run :: "'a option list \<Rightarrow> 'a list \<Rightarrow> 'a option list \<times> 'a list" where
  "list_run [] q = ([], q)"
| "list_run (Some p # xs) q = list_run xs (q @ [p])"
| "list_run (None # xs) [] = (case list_run xs [] of (rs, q) \<Rightarrow> (None # rs, q))"
| "list_run (None # xs) (x # q) = (case list_run xs q of (rs, q) \<Rightarrow> (Some x # rs, q))"

lemma carray_run_ok:
  "carray_ok a \<Longrightarrow> \<exists>a'. carray_run xs a = Inr (fst (list_run xs (carray_contents a)), a') \<and>
     carray_ok a' \<and> carray_contents a' = snd (list_run xs (carray_contents a))"
proof (induction xs arbitrary: a)
  case Nil
  then show ?case by simp
next
  case (Cons x xs)
  show ?case
  proof (cases x)
    case None
    show ?thesis
    proof (cases "carray_contents a")
      case Nil
      with Cons None cq.pop_Nil[OF Cons.prems Nil] Cons.IH[OF Cons.prems] show ?thesis
        by (auto split: prod.splits)
    next
      case (Cons y ys)
      then obtain b where b: "carray_pop_front a = Inr (Some y, b)" "carray_ok b" "carray_contents b = ys"
        using cq.pop_Cons[OF \<open>carray_ok a\<close>] by blast
      with None Cons Cons.IH[OF b(2)] show ?thesis by (auto split: prod.splits)
    qed
  next
    case (Some p)
    obtain b where b: "carray_push_back a p = Inr b" "carray_ok b" "carray_contents b = carray_contents a @ [p]"
      by (rule cq.push_succeeds[OF Cons.prems])
    with Some Cons.IH[OF b(2)] show ?thesis by simp
  qed
qed



end
