(* ===== verification/Paxos_Types.thy ===== *)
theory Paxos_Types
  imports Prelude
begin

text \<open>
  The data of \<^verbatim>\<open>paxos/include/paxos_types.h\<close> and \<^verbatim>\<open>paxos/include/paxos.h\<close>, and the functions of
  \<^verbatim>\<open>paxos/paxos.c\<close> on them. Each struct is a record whose fields carry the source's names behind a
  short prefix; the tagged union \<^verbatim>\<open>paxos_message\<close> is a datatype with a constructor for each value of
  \<^verbatim>\<open>paxos_message_type\<close> (the four bytes \<^verbatim>\<open>msg_info\<close> are a tracing tag nothing reads and are left
  out). Freeing memory is visible in the model only where the code overwrites or reads a field while
  it frees.
\<close>

section \<open>Values\<close>

record paxos_value =
  pv_len :: int
  pv_val :: "u8 arr"

definition value_zero :: paxos_value where
  "value_zero = \<lparr>pv_len = 0, pv_val = None\<rparr>"

text \<open>\<^verbatim>\<open>p = malloc(len); memcpy(p, val, len)\<close>; a negative length is a huge \<^verbatim>\<open>size_t\<close>.\<close>

definition copy_bytes :: "int \<Rightarrow> u8 arr \<Rightarrow> u8 arr res" where
  "copy_bytes len val =
     (if len < 0 then Inl OutOfBounds else bind_res (acopy val (nat len)) (\<lambda>bs. Inr (Some bs)))"

definition paxos_value_new :: "u8 arr \<Rightarrow> int \<Rightarrow> paxos_value res" where
  "paxos_value_new val sz = bind_res (copy_bytes sz val) (\<lambda>bs. Inr \<lparr>pv_len = sz, pv_val = bs\<rparr>)"

section \<open>Messages\<close>

record paxos_prepare =
  pp_src :: u32
  pp_iid :: iid_t
  pp_ballot :: ballot_t

record paxos_promise =
  pr_src :: u32
  pr_iid :: iid_t
  pr_ballot_0 :: ballot_t
  pr_value_ballot_0 :: ballot_t
  pr_n_aids :: u32
  pr_aids :: "u32 arr"
  pr_value_0 :: paxos_value
  pr_values :: "paxos_value arr"
  pr_ballots :: "u32 arr"
  pr_value_ballots :: "u32 arr"

record paxos_accept =
  pa_src :: u32
  pa_iid :: iid_t
  pa_ballot :: ballot_t
  pa_value :: paxos_value

record paxos_accepted =
  ac_src :: u32
  ac_iid :: iid_t
  ac_ballot_0 :: ballot_t
  ac_value_ballot_0 :: ballot_t
  ac_n_aids :: u32
  ac_aids :: "u32 arr"
  ac_value_0 :: paxos_value
  ac_values :: "paxos_value arr"
  ac_ballots :: "u32 arr"
  ac_value_ballots :: "u32 arr"

record paxos_preempted =
  pe_aid :: u32
  pe_iid :: iid_t
  pe_ballot :: ballot_t

record paxos_repeat =
  rp_from :: iid_t
  rp_to :: iid_t

record paxos_trim =
  tr_iid :: iid_t

record paxos_acceptor_state =
  as_aid :: u32
  as_trim_iid :: iid_t

record paxos_client_value =
  cv_value :: paxos_value

datatype paxos_message =
    PAXOS_PREPARE paxos_prepare
  | PAXOS_PROMISE paxos_promise
  | PAXOS_ACCEPT paxos_accept
  | PAXOS_ACCEPTED paxos_accepted
  | PAXOS_PREEMPTED paxos_preempted
  | PAXOS_REPEAT paxos_repeat
  | PAXOS_TRIM paxos_trim
  | PAXOS_ACCEPTOR_STATE paxos_acceptor_state
  | PAXOS_CLIENT_VALUE paxos_client_value

text \<open>\<^verbatim>\<open>memset(&acc, 0, sizeof(paxos_accepted))\<close>.\<close>

definition accepted_zero :: paxos_accepted where
  "accepted_zero = \<lparr>ac_src = 0, ac_iid = 0, ac_ballot_0 = 0, ac_value_ballot_0 = 0, ac_n_aids = 0,
     ac_aids = None, ac_value_0 = value_zero, ac_values = None, ac_ballots = None,
     ac_value_ballots = None\<rparr>"

section \<open>Configuration\<close>

datatype paxos_storage_backend = PAXOS_MEM_STORAGE | PAXOS_LMDB_STORAGE

datatype paxos_log_level = PAXOS_LOG_QUIET | PAXOS_LOG_ERROR | PAXOS_LOG_INFO | PAXOS_LOG_DEBUG

record paxos_config =
  verbosity :: paxos_log_level
  tcp_nodelay :: int
  learner_catch_up :: int
  proposer_timeout :: int
  proposer_preexec_window :: int
  storage_backend :: paxos_storage_backend
  trash_files :: int
  lmdb_sync :: int
  lmdb_env_path :: string
  lmdb_mapsize :: int

definition paxos_config_default :: paxos_config where
  "paxos_config_default = \<lparr>verbosity = PAXOS_LOG_INFO, tcp_nodelay = 1, learner_catch_up = 1,
     proposer_timeout = 1, proposer_preexec_window = 32, storage_backend = PAXOS_MEM_STORAGE,
     trash_files = 0, lmdb_sync = 0, lmdb_env_path = ''/tmp/acceptor'', lmdb_mapsize = 1024 * 1024\<rparr>"

definition MAX_N_OF_PROPOSERS :: nat where
  "MAX_N_OF_PROPOSERS = 1000"

text \<open>C division truncates towards zero.\<close>

definition paxos_quorum :: "int \<Rightarrow> int" where
  "paxos_quorum acceptors = (acceptors sdiv 2) + 1"

section \<open>Releasing messages\<close>

text \<open>
  \<^verbatim>\<open>paxos_value_destroy\<close> reads the length and frees; the loops of \<^verbatim>\<open>paxos_promise_destroy\<close> and
  \<^verbatim>\<open>paxos_accepted_destroy\<close> read \<^verbatim>\<open>values[ii]\<close> for every \<^verbatim>\<open>ii < n_aids\<close>, and the pointers are NULL
  afterwards.
\<close>

definition values_destroy :: "paxos_value arr \<Rightarrow> u32 \<Rightarrow> unit res" where
  "values_destroy vs n = (case vs of
      None \<Rightarrow> Inr ()
    | Some _ \<Rightarrow> bind_res (acopy vs (unat n)) (\<lambda>_. Inr ()))"

definition paxos_promise_destroy :: "paxos_promise \<Rightarrow> paxos_promise res" where
  "paxos_promise_destroy p = bind_res (values_destroy (pr_values p) (pr_n_aids p)) (\<lambda>_.
     Inr (p\<lparr>pr_aids := None, pr_values := None, pr_ballots := None, pr_value_ballots := None\<rparr>))"

definition paxos_accepted_destroy :: "paxos_accepted \<Rightarrow> paxos_accepted res" where
  "paxos_accepted_destroy p = bind_res (values_destroy (ac_values p) (ac_n_aids p)) (\<lambda>_.
     Inr (p\<lparr>ac_aids := None, ac_values := None, ac_ballots := None, ac_value_ballots := None\<rparr>))"

definition paxos_accepted_free :: "paxos_accepted \<Rightarrow> unit res" where
  "paxos_accepted_free a = bind_res (paxos_accepted_destroy a) (\<lambda>_. Inr ())"

fun paxos_message_destroy :: "paxos_message \<Rightarrow> paxos_message res" where
  "paxos_message_destroy (PAXOS_PROMISE p) = bind_res (paxos_promise_destroy p) (\<lambda>p. Inr (PAXOS_PROMISE p))"
| "paxos_message_destroy (PAXOS_ACCEPTED p) = bind_res (paxos_accepted_destroy p) (\<lambda>p. Inr (PAXOS_ACCEPTED p))"
| "paxos_message_destroy m = Inr m"

section \<open>Well-formed values and records\<close>

text \<open>
  A value of length \<open>n > 0\<close> owns at least \<open>n\<close> bytes. A record has parallel arrays of exactly
  \<^verbatim>\<open>n_aids > 0\<close> entries, and its values, when it has any, are as many.
\<close>

definition value_ok :: "paxos_value \<Rightarrow> bool" where
  "value_ok v \<longleftrightarrow> 0 \<le> pv_len v \<and>
     (0 < pv_len v \<longrightarrow> (case pv_val v of None \<Rightarrow> False | Some bs \<Rightarrow> pv_len v \<le> int (length bs)))"

definition arr_len :: "'a arr \<Rightarrow> u32 \<Rightarrow> bool" where
  "arr_len a n \<longleftrightarrow> (case a of None \<Rightarrow> False | Some xs \<Rightarrow> length xs = unat n)"

definition accepted_ok :: "paxos_accepted \<Rightarrow> bool" where
  "accepted_ok a \<longleftrightarrow> 0 < ac_n_aids a \<and> arr_len (ac_aids a) (ac_n_aids a) \<and>
     arr_len (ac_ballots a) (ac_n_aids a) \<and> arr_len (ac_value_ballots a) (ac_n_aids a) \<and>
     (case ac_values a of None \<Rightarrow> True
        | Some vs \<Rightarrow> length vs = unat (ac_n_aids a) \<and> (\<forall>v \<in> set vs. value_ok v))"

definition promise_ok :: "paxos_promise \<Rightarrow> bool" where
  "promise_ok p \<longleftrightarrow> 0 < pr_n_aids p \<and> arr_len (pr_aids p) (pr_n_aids p) \<and>
     arr_len (pr_ballots p) (pr_n_aids p) \<and> arr_len (pr_value_ballots p) (pr_n_aids p) \<and>
     arr_len (pr_values p) (pr_n_aids p) \<and> (\<forall>v \<in> set (the (pr_values p)). value_ok v)"

text \<open>An acceptor id of a message that is an index of a system of \<open>n\<close> acceptors.\<close>

definition aid_ok :: "int \<Rightarrow> u32 \<Rightarrow> bool" where
  "aid_ok n x \<longleftrightarrow> 0 \<le> int_of_u32 x \<and> int_of_u32 x < n"

lemma arr_len_iff: "arr_len a n \<longleftrightarrow> (\<exists>xs. a = Some xs \<and> length xs = unat n)"
  by (auto simp: arr_len_def split: option.splits)

lemma value_ok_cases:
  "value_ok v \<longleftrightarrow> pv_len v = 0 \<or> (0 < pv_len v \<and> (\<exists>bs. pv_val v = Some bs \<and> pv_len v \<le> int (length bs)))"
  by (auto simp: value_ok_def split: option.splits)

lemma value_zero_ok [simp]: "value_ok value_zero"
  by (simp add: value_ok_def value_zero_def)

lemma copy_bytes_ok:
  "value_ok v \<Longrightarrow> \<exists>bs. copy_bytes (pv_len v) (pv_val v) = Inr (Some bs) \<and> int (length bs) = pv_len v"
  by (auto simp: value_ok_cases copy_bytes_def acopy_Some nat_le_iff)

lemma accepted_destroy_ok: "accepted_ok a \<Longrightarrow> \<exists>a'. paxos_accepted_destroy a = Inr a'"
  by (auto simp: accepted_ok_def paxos_accepted_destroy_def values_destroy_def acopy_def
      split: option.splits)

lemma unat_u32_pos: "0 < (n::u32) \<Longrightarrow> 0 < unat n"
  by (simp add: unat_gt_0)

lemma paxos_quorum_nonneg: "0 \<le> n \<Longrightarrow> paxos_quorum n = n div 2 + 1"
  by (simp add: paxos_quorum_def signed_divide_int_def sgn_if)

lemma aid_ok_unat:
  assumes "aid_ok n x"
  shows "int_of_u32 x = int (unat x)" "unat x < nat n"
proof -
  show e: "int_of_u32 x = int (unat x)"
  proof -
    have "sint x < 2 ^ 31" using sint_lt[of x] by simp
    moreover have "0 \<le> sint x" using assms by (simp add: aid_ok_def int_of_u32_def)
    ultimately have "sint x mod 2 ^ 32 = sint x" by simp
    moreover have "uint x = sint x mod 2 ^ 32" using uint_word_of_int[of "sint x", where 'a = 32] by simp
    ultimately show ?thesis by (simp add: int_of_u32_def)
  qed
  have "int (unat x) < n" using assms e by (simp add: aid_ok_def)
  then show "unat x < nat n" by linarith
qed

end
