(* ===== verification/Storage.thy ===== *)
theory Storage
  imports Paxos_Types Khash_Map
begin

text \<open>
  \<^verbatim>\<open>paxos/storage.c\<close>, the table of function pointers through which an acceptor reaches its stable
  storage, and \<^verbatim>\<open>paxos/storage_mem.c\<close>, the backend that keeps the records in a hash table. The
  contract of a backend is the locale \<open>record_store\<close>; the memory backend interprets it as \<open>ms\<close>.
\<close>

section \<open>The dispatch table\<close>

record 'h storage_api =
  sa_open :: "'h \<Rightarrow> 'h \<times> int"
  sa_close :: "'h \<Rightarrow> unit res"
  sa_tx_begin :: "'h \<Rightarrow> 'h \<times> int"
  sa_tx_commit :: "'h \<Rightarrow> 'h \<times> int"
  sa_tx_abort :: "'h \<Rightarrow> 'h"
  sa_get :: "'h \<Rightarrow> iid_t \<Rightarrow> paxos_accepted \<Rightarrow> (int \<times> paxos_accepted) res"
  sa_put :: "'h \<Rightarrow> paxos_accepted \<Rightarrow> ('h \<times> int) res"
  sa_trim :: "'h \<Rightarrow> iid_t \<Rightarrow> ('h \<times> int) res"
  sa_get_trim_instance :: "'h \<Rightarrow> iid_t"

record 'h storage =
  st_handle :: 'h
  st_api :: "'h storage_api"

definition storage_open :: "'h storage \<Rightarrow> 'h storage \<times> int" where
  "storage_open st = (case sa_open (st_api st) (st_handle st) of (h, rc) \<Rightarrow> (st\<lparr>st_handle := h\<rparr>, rc))"

definition storage_close :: "'h storage \<Rightarrow> unit res" where
  "storage_close st = sa_close (st_api st) (st_handle st)"

definition storage_tx_begin :: "'h storage \<Rightarrow> 'h storage \<times> int" where
  "storage_tx_begin st = (case sa_tx_begin (st_api st) (st_handle st) of (h, rc) \<Rightarrow> (st\<lparr>st_handle := h\<rparr>, rc))"

definition storage_tx_commit :: "'h storage \<Rightarrow> 'h storage \<times> int" where
  "storage_tx_commit st = (case sa_tx_commit (st_api st) (st_handle st) of (h, rc) \<Rightarrow> (st\<lparr>st_handle := h\<rparr>, rc))"

definition storage_tx_abort :: "'h storage \<Rightarrow> 'h storage" where
  "storage_tx_abort st = st\<lparr>st_handle := sa_tx_abort (st_api st) (st_handle st)\<rparr>"

definition storage_get_record :: "'h storage \<Rightarrow> iid_t \<Rightarrow> paxos_accepted \<Rightarrow> (int \<times> paxos_accepted) res" where
  "storage_get_record st iid out = sa_get (st_api st) (st_handle st) iid out"

definition storage_put_record :: "'h storage \<Rightarrow> paxos_accepted \<Rightarrow> ('h storage \<times> int) res" where
  "storage_put_record st acc =
     bind_res (sa_put (st_api st) (st_handle st) acc) (\<lambda>(h, rc). Inr (st\<lparr>st_handle := h\<rparr>, rc))"

definition storage_trim :: "'h storage \<Rightarrow> iid_t \<Rightarrow> ('h storage \<times> int) res" where
  "storage_trim st iid =
     bind_res (sa_trim (st_api st) (st_handle st) iid) (\<lambda>(h, rc). Inr (st\<lparr>st_handle := h\<rparr>, rc))"

definition storage_get_trim_instance :: "'h storage \<Rightarrow> iid_t" where
  "storage_get_trim_instance st = sa_get_trim_instance (st_api st) (st_handle st)"

section \<open>Copying a record\<close>

text \<open>
  \<^verbatim>\<open>paxos_accepted_copy\<close>: the arrays are copied for \<^verbatim>\<open>n_aids\<close> entries each, whatever their own
  length is; a value of length zero loses its buffer, and \<^verbatim>\<open>value_0\<close> is always cleared.
\<close>

definition value_copy :: "paxos_value \<Rightarrow> paxos_value res" where
  "value_copy v =
     (if 0 < pv_len v
      then bind_res (copy_bytes (pv_len v) (pv_val v)) (\<lambda>bs. Inr \<lparr>pv_len = pv_len v, pv_val = bs\<rparr>)
      else Inr \<lparr>pv_len = pv_len v, pv_val = None\<rparr>)"

fun values_copy :: "paxos_value list \<Rightarrow> paxos_value list res" where
  "values_copy [] = Inr []"
| "values_copy (v # vs) = bind_res (value_copy v) (\<lambda>w. bind_res (values_copy vs) (\<lambda>ws. Inr (w # ws)))"

definition arr_copy :: "'a arr \<Rightarrow> nat \<Rightarrow> 'a arr res" where
  "arr_copy a n = (case a of None \<Rightarrow> Inr None | Some _ \<Rightarrow> bind_res (acopy a n) (\<lambda>xs. Inr (Some xs)))"

definition paxos_accepted_copy :: "paxos_accepted \<Rightarrow> paxos_accepted res" where
  "paxos_accepted_copy src =
     (let n = unat (ac_n_aids src) in
      if 0 < n
      then bind_res (arr_copy (ac_aids src) n) (\<lambda>aids.
           bind_res (arr_copy (ac_values src) n) (\<lambda>vals.
           bind_res (case vals of None \<Rightarrow> Inr None
                     | Some vs \<Rightarrow> bind_res (values_copy vs) (\<lambda>ws. Inr (Some ws))) (\<lambda>vals.
           bind_res (arr_copy (ac_ballots src) n) (\<lambda>bals.
           bind_res (arr_copy (ac_value_ballots src) n) (\<lambda>vbals.
           Inr (src\<lparr>ac_aids := aids, ac_values := vals, ac_ballots := bals,
                    ac_value_ballots := vbals, ac_value_0 := value_zero\<rparr>))))))
      else Inr (src\<lparr>ac_aids := None, ac_ballots := None, ac_value_ballots := None,
                    ac_value_0 := value_zero\<rparr>))"

section \<open>The memory backend\<close>

record mem_storage =
  ms_trim_iid :: iid_t
  ms_records :: "paxos_accepted khash"

definition mem_storage_new :: mem_storage where
  "mem_storage_new = \<lparr>ms_trim_iid = 0, ms_records = kh_init\<rparr>"

fun paxos_accepted_free_all :: "paxos_accepted list \<Rightarrow> unit res" where
  "paxos_accepted_free_all [] = Inr ()"
| "paxos_accepted_free_all (a # as) = bind_res (paxos_accepted_free a) (\<lambda>_. paxos_accepted_free_all as)"

definition mem_storage_open :: "mem_storage \<Rightarrow> mem_storage \<times> int" where
  "mem_storage_open s = (s, 0)"

definition mem_storage_close :: "mem_storage \<Rightarrow> unit res" where
  "mem_storage_close s = paxos_accepted_free_all (map snd (kh_entries (ms_records s)))"

definition mem_storage_tx_begin :: "mem_storage \<Rightarrow> mem_storage \<times> int" where
  "mem_storage_tx_begin s = (s, 0)"

definition mem_storage_tx_commit :: "mem_storage \<Rightarrow> mem_storage \<times> int" where
  "mem_storage_tx_commit s = (s, 0)"

definition mem_storage_tx_abort :: "mem_storage \<Rightarrow> mem_storage" where
  "mem_storage_tx_abort s = s"

definition mem_storage_get :: "mem_storage \<Rightarrow> iid_t \<Rightarrow> paxos_accepted \<Rightarrow> (int \<times> paxos_accepted) res" where
  "mem_storage_get s iid out = (case kh_lookup (ms_records s) iid of
      None \<Rightarrow> Inr (0, out)
    | Some rec \<Rightarrow> bind_res (paxos_accepted_copy rec) (\<lambda>out. Inr (1, out)))"

definition mem_storage_put :: "mem_storage \<Rightarrow> paxos_accepted \<Rightarrow> (mem_storage \<times> int) res" where
  "mem_storage_put s acc =
     bind_res (paxos_accepted_copy acc) (\<lambda>rec.
     bind_res (kh_put (ms_records s) (ac_iid acc) rec) (\<lambda>(recs, rv).
     if rv = -1 then bind_res (paxos_accepted_free rec) (\<lambda>_. Inr (s, -1))
     else bind_res (if rv = 0
                    then (case kh_lookup (ms_records s) (ac_iid acc) of
                            None \<Rightarrow> Inl NullDeref | Some old \<Rightarrow> paxos_accepted_free old)
                    else Inr ()) (\<lambda>_.
          Inr (s\<lparr>ms_records := recs\<rparr>, 0))))"

definition mem_storage_trim :: "mem_storage \<Rightarrow> iid_t \<Rightarrow> (mem_storage \<times> int) res" where
  "mem_storage_trim s iid =
     (let old = (\<lambda>acc. ac_iid acc \<le> iid) in
      bind_res (paxos_accepted_free_all (filter old (map snd (kh_entries (ms_records s))))) (\<lambda>_.
      Inr (s\<lparr>ms_records := kh_remove_if old (ms_records s), ms_trim_iid := iid\<rparr>, 0)))"

definition mem_storage_get_trim_instance :: "mem_storage \<Rightarrow> iid_t" where
  "mem_storage_get_trim_instance s = ms_trim_iid s"

definition mem_api :: "mem_storage storage_api" where
  "mem_api = \<lparr>sa_open = mem_storage_open, sa_close = mem_storage_close,
     sa_tx_begin = mem_storage_tx_begin, sa_tx_commit = mem_storage_tx_commit,
     sa_tx_abort = mem_storage_tx_abort, sa_get = mem_storage_get, sa_put = mem_storage_put,
     sa_trim = mem_storage_trim, sa_get_trim_instance = mem_storage_get_trim_instance\<rparr>"

definition storage_init_mem :: "mem_storage storage" where
  "storage_init_mem = \<lparr>st_handle = mem_storage_new, st_api = mem_api\<rparr>"

text \<open>\<^verbatim>\<open>storage_init\<close> of a build without \<^verbatim>\<open>HAS_LMDB\<close>; \<open>None\<close> is \<^verbatim>\<open>exit(0)\<close>.\<close>

definition storage_init :: "paxos_storage_backend \<Rightarrow> mem_storage storage option" where
  "storage_init backend = (case backend of
      PAXOS_MEM_STORAGE \<Rightarrow> Some storage_init_mem
    | PAXOS_LMDB_STORAGE \<Rightarrow> None)"

section \<open>Copies are exact\<close>

text \<open>A record in the form the copy leaves: it is its own copy.\<close>

definition value_norm :: "paxos_value \<Rightarrow> bool" where
  "value_norm v \<longleftrightarrow> (pv_len v = 0 \<and> pv_val v = None) \<or>
     (0 < pv_len v \<and> (\<exists>bs. pv_val v = Some bs \<and> pv_len v = int (length bs)))"

definition record_norm :: "paxos_accepted \<Rightarrow> bool" where
  "record_norm a \<longleftrightarrow> accepted_ok a \<and> ac_value_0 a = value_zero \<and>
     (case ac_values a of None \<Rightarrow> True | Some vs \<Rightarrow> \<forall>v \<in> set vs. value_norm v)"

definition value_clip :: "paxos_value \<Rightarrow> paxos_value" where
  "value_clip v = \<lparr>pv_len = pv_len v,
     pv_val = (if 0 < pv_len v then map_option (take (nat (pv_len v))) (pv_val v) else None)\<rparr>"

definition record_clip :: "paxos_accepted \<Rightarrow> paxos_accepted" where
  "record_clip a = a\<lparr>ac_values := map_option (map value_clip) (ac_values a), ac_value_0 := value_zero\<rparr>"

lemma value_copy_ok: "value_ok v \<Longrightarrow> value_copy v = Inr (value_clip v)"
  by (auto simp: value_ok_cases value_copy_def value_clip_def copy_bytes_def acopy_def nat_le_iff)

lemma values_copy_ok: "\<forall>v \<in> set vs. value_ok v \<Longrightarrow> values_copy vs = Inr (map value_clip vs)"
  by (induction vs) (auto simp: value_copy_ok)

lemma arr_copy_len: "arr_len a n \<Longrightarrow> arr_copy a (unat n) = Inr a"
  by (auto simp: arr_len_iff arr_copy_def acopy_def)

lemma accepted_copy_ok:
  assumes "accepted_ok a"
  shows "paxos_accepted_copy a = Inr (record_clip a)"
proof -
  have n: "0 < unat (ac_n_aids a)" using assms by (simp add: accepted_ok_def unat_u32_pos)
  have c: "arr_copy (ac_aids a) (unat (ac_n_aids a)) = Inr (ac_aids a)"
    "arr_copy (ac_ballots a) (unat (ac_n_aids a)) = Inr (ac_ballots a)"
    "arr_copy (ac_value_ballots a) (unat (ac_n_aids a)) = Inr (ac_value_ballots a)"
    using assms by (simp_all add: accepted_ok_def arr_copy_len)
  show ?thesis
  proof (cases "ac_values a")
    case None
    then show ?thesis using n c by (simp add: paxos_accepted_copy_def Let_def arr_copy_def record_clip_def)
  next
    case (Some vs)
    then have "arr_copy (ac_values a) (unat (ac_n_aids a)) = Inr (Some vs)"
      "values_copy vs = Inr (map value_clip vs)"
      using assms by (auto simp: accepted_ok_def arr_copy_def acopy_def values_copy_ok)
    then show ?thesis using n c Some by (simp add: paxos_accepted_copy_def Let_def record_clip_def)
  qed
qed

lemma value_clip_norm: "value_ok v \<Longrightarrow> value_norm (value_clip v)"
  by (auto simp: value_ok_cases value_clip_def value_norm_def)

lemma value_norm_clip: "value_norm v \<Longrightarrow> value_clip v = v"
  by (cases v) (auto simp: value_norm_def value_clip_def)

lemma value_norm_ok: "value_norm v \<Longrightarrow> value_ok v"
  by (auto simp: value_norm_def value_ok_cases)

lemma record_clip_norm: "accepted_ok a \<Longrightarrow> record_norm (record_clip a)"
  by (auto simp: record_norm_def record_clip_def accepted_ok_def value_clip_norm value_norm_ok
      split: option.splits)

lemma record_norm_clip: "record_norm a \<Longrightarrow> record_clip a = a"
  by (cases a) (auto simp: record_norm_def record_clip_def value_norm_clip map_idI split: option.splits)

lemma record_norm_copy: "record_norm a \<Longrightarrow> paxos_accepted_copy a = Inr a"
  using accepted_copy_ok[of a] record_norm_clip[of a] by (simp add: record_norm_def)

lemma record_clip_iid [simp]: "ac_iid (record_clip a) = ac_iid a"
  by (simp add: record_clip_def)

section \<open>The contract of a backend\<close>

text \<open>
  What the acceptor relies on: opening and committing a transaction does not change the records (it
  may fail), a lookup returns a copy of the record, a put that reports success binds the record's
  instance to a copy of it and one that fails changes nothing, also when the transaction is aborted
  next, and a trim forgets exactly the instances up to its argument.
\<close>

locale record_store =
  fixes api :: "'h storage_api"
    and ok :: "'h \<Rightarrow> bool"
    and recs :: "'h \<Rightarrow> iid_t \<Rightarrow> paxos_accepted option"
    and trimmed :: "'h \<Rightarrow> iid_t"
  assumes tx_begin: "ok h \<Longrightarrow> sa_tx_begin api h = (h', rc) \<Longrightarrow>
        ok h' \<and> recs h' = recs h \<and> trimmed h' = trimmed h"
    and tx_commit: "ok h \<Longrightarrow> sa_tx_commit api h = (h', rc) \<Longrightarrow>
        ok h' \<and> recs h' = recs h \<and> trimmed h' = trimmed h"
    and get: "ok h \<Longrightarrow> sa_get api h iid out =
        Inr (case recs h iid of None \<Rightarrow> (0, out) | Some rec \<Rightarrow> (1, rec))"
    and put: "ok h \<Longrightarrow> accepted_ok a \<Longrightarrow> \<exists>h' rc. sa_put api h a = Inr (h', rc) \<and>
        ok h' \<and> trimmed h' = trimmed h \<and>
        recs h' = (if rc = 0 then (recs h)(ac_iid a \<mapsto> record_clip a) else recs h)"
    and abort: "ok h \<Longrightarrow> accepted_ok a \<Longrightarrow> sa_put api h a = Inr (h', rc) \<Longrightarrow> rc \<noteq> 0 \<Longrightarrow>
        ok (sa_tx_abort api h') \<and> trimmed (sa_tx_abort api h') = trimmed h \<and>
        recs (sa_tx_abort api h') = recs h"
    and trim: "ok h \<Longrightarrow> \<exists>h' rc. sa_trim api h iid = Inr (h', rc) \<and> ok h' \<and> trimmed h' = iid \<and>
        recs h' = (\<lambda>i. if i \<le> iid then None else recs h i)"
    and trim_instance: "ok h \<Longrightarrow> sa_get_trim_instance api h = trimmed h"
    and records: "ok h \<Longrightarrow> recs h i = Some r \<Longrightarrow> record_norm r \<and> ac_iid r = i"
begin

lemma put_then_get:
  assumes "ok h" "accepted_ok a" "sa_put api h a = Inr (h', 0)"
  shows "sa_get api h' (ac_iid a) out = Inr (1, record_clip a)"
    and "i \<noteq> ac_iid a \<Longrightarrow> sa_get api h' i out = sa_get api h i out"
  using put[OF assms(1,2)] assms(3) get[OF assms(1)] get[of h'] by auto

lemma trim_then_get:
  assumes "ok h" "sa_trim api h iid = Inr (h', rc)"
  shows "i \<le> iid \<Longrightarrow> sa_get api h' i out = Inr (0, out)"
    and "iid < i \<Longrightarrow> sa_get api h' i out = sa_get api h i out"
  using trim[OF assms(1), of iid] assms(2) get[OF assms(1)] get[of h'] by auto

end

section \<open>The memory backend keeps the contract\<close>

definition mem_ok :: "mem_storage \<Rightarrow> bool" where
  "mem_ok s \<longleftrightarrow> kh_ok (ms_records s) \<and>
     (\<forall>i r. kh_lookup (ms_records s) i = Some r \<longrightarrow> record_norm r \<and> ac_iid r = i)"

definition mem_recs :: "mem_storage \<Rightarrow> iid_t \<Rightarrow> paxos_accepted option" where
  "mem_recs s = kh_lookup (ms_records s)"

lemma mem_storage_new_ok: "mem_ok mem_storage_new \<and> mem_recs mem_storage_new = Map.empty"
  by (simp add: mem_ok_def mem_recs_def mem_storage_new_def kh.init_ok kh.init_lookup)

lemma accepted_free_ok: "accepted_ok a \<Longrightarrow> paxos_accepted_free a = Inr ()"
  using accepted_destroy_ok[of a] by (auto simp: paxos_accepted_free_def)

lemma accepted_free_all_ok: "\<forall>a \<in> set as. accepted_ok a \<Longrightarrow> paxos_accepted_free_all as = Inr ()"
  by (induction as) (auto simp: accepted_free_ok)

lemma mem_get_ok:
  "mem_ok s \<Longrightarrow> mem_storage_get s iid out =
     Inr (case mem_recs s iid of None \<Rightarrow> (0, out) | Some rec \<Rightarrow> (1, rec))"
  by (auto simp: mem_storage_get_def mem_recs_def mem_ok_def record_norm_copy split: option.splits)

lemma mem_put_ok:
  assumes ok: "mem_ok s" and a: "accepted_ok a"
  shows "\<exists>s'. mem_storage_put s a = Inr (s', 0) \<and> mem_ok s' \<and>
    mem_recs s' = (mem_recs s)(ac_iid a \<mapsto> record_clip a) \<and> ms_trim_iid s' = ms_trim_iid s"
proof -
  have "kh_ok (ms_records s)" using ok by (simp add: mem_ok_def)
  then obtain h rv where h: "kh_put (ms_records s) (ac_iid a) (record_clip a) = Inr (h, rv)" "kh_ok h"
    "kh_lookup h = (kh_lookup (ms_records s))(ac_iid a \<mapsto> record_clip a)"
    "rv = 0 \<longleftrightarrow> kh_lookup (ms_records s) (ac_iid a) \<noteq> None" "0 \<le> rv"
    by (rule kh.put_succeeds)
  have old: "paxos_accepted_free r = Inr ()" if "kh_lookup (ms_records s) (ac_iid a) = Some r" for r
    using ok that accepted_free_ok by (auto simp: mem_ok_def record_norm_def)
  have "mem_storage_put s a = Inr (s\<lparr>ms_records := h\<rparr>, 0)"
    using h(1,4,5) old by (auto simp: mem_storage_put_def accepted_copy_ok[OF a] split: option.splits)
  moreover have "mem_ok (s\<lparr>ms_records := h\<rparr>)"
    using ok h(2,3) record_clip_norm[OF a] by (auto simp: mem_ok_def)
  ultimately show ?thesis using h(3) by (simp add: mem_recs_def)
qed

lemma mem_trim_ok:
  assumes ok: "mem_ok s"
  shows "\<exists>s'. mem_storage_trim s iid = Inr (s', 0) \<and> mem_ok s' \<and> ms_trim_iid s' = iid \<and>
    mem_recs s' = (\<lambda>i. if i \<le> iid then None else mem_recs s i)"
proof -
  let ?old = "\<lambda>acc. ac_iid acc \<le> iid"
  have kok: "kh_ok (ms_records s)" using ok by (simp add: mem_ok_def)
  have "accepted_ok a" if "(k, a) \<in> set (kh_entries (ms_records s))" for k a
    using that ok kh.set_entries[OF kok] by (auto simp: mem_ok_def record_norm_def)
  then have "paxos_accepted_free_all (filter ?old (map snd (kh_entries (ms_records s)))) = Inr ()"
    by (intro accepted_free_all_ok) auto
  then have "mem_storage_trim s iid =
      Inr (s\<lparr>ms_records := kh_remove_if ?old (ms_records s), ms_trim_iid := iid\<rparr>, 0)"
    by (simp add: mem_storage_trim_def Let_def)
  moreover have "kh_lookup (kh_remove_if ?old (ms_records s)) =
      (\<lambda>i. if i \<le> iid then None else kh_lookup (ms_records s) i)"
    using ok by (auto simp: kh.remove_if_lookup[OF kok] mem_ok_def split: option.splits)
  ultimately show ?thesis using ok kh.remove_if_ok[OF kok] by (auto simp: mem_ok_def mem_recs_def)
qed

lemmas mem_api_sel = mem_api_def mem_storage_tx_begin_def mem_storage_tx_commit_def
  mem_storage_get_trim_instance_def

interpretation ms: record_store mem_api mem_ok mem_recs ms_trim_iid
proof
  fix s :: mem_storage and a iid
  assume "mem_ok s"
  then show "\<exists>h' rc. sa_trim mem_api s iid = Inr (h', rc) \<and> mem_ok h' \<and> ms_trim_iid h' = iid \<and>
      mem_recs h' = (\<lambda>i. if i \<le> iid then None else mem_recs s i)"
    using mem_trim_ok[of s iid] by (auto simp: mem_api_def)
  show "accepted_ok a \<Longrightarrow> \<exists>h' rc. sa_put mem_api s a = Inr (h', rc) \<and> mem_ok h' \<and>
      ms_trim_iid h' = ms_trim_iid s \<and>
      mem_recs h' = (if rc = 0 then (mem_recs s)(ac_iid a \<mapsto> record_clip a) else mem_recs s)"
    using mem_put_ok[OF \<open>mem_ok s\<close>, of a] by (auto simp: mem_api_def)
  fix s' rc
  show "accepted_ok a \<Longrightarrow> sa_put mem_api s a = Inr (s', rc) \<Longrightarrow> rc \<noteq> 0 \<Longrightarrow>
      mem_ok (sa_tx_abort mem_api s') \<and> ms_trim_iid (sa_tx_abort mem_api s') = ms_trim_iid s \<and>
      mem_recs (sa_tx_abort mem_api s') = mem_recs s"
    using mem_put_ok[OF \<open>mem_ok s\<close>, of a] by (auto simp: mem_api_def)
qed (auto simp: mem_api_sel mem_get_ok mem_ok_def mem_recs_def)

section \<open>The store as a log\<close>

datatype store_op = StorePut paxos_accepted | StoreTrim iid_t

text \<open>One transaction each, through the dispatch table.\<close>

fun store_apply :: "store_op \<Rightarrow> 'h storage \<Rightarrow> 'h storage res" where
  "store_apply (StorePut a) st = (case storage_tx_begin st of (st, _) \<Rightarrow>
     bind_res (storage_put_record st a) (\<lambda>(st, rc).
       Inr (if rc = 0 then fst (storage_tx_commit st) else storage_tx_abort st)))"
| "store_apply (StoreTrim iid) st = (case storage_tx_begin st of (st, _) \<Rightarrow>
     bind_res (storage_trim st iid) (\<lambda>(st, _). Inr (fst (storage_tx_commit st))))"

fun store_run :: "store_op list \<Rightarrow> 'h storage \<Rightarrow> 'h storage res" where
  "store_run [] st = Inr st"
| "store_run (x # xs) st = bind_res (store_apply x st) (store_run xs)"

fun log_apply :: "store_op \<Rightarrow> (iid_t \<rightharpoonup> paxos_accepted) \<times> iid_t \<Rightarrow> (iid_t \<rightharpoonup> paxos_accepted) \<times> iid_t" where
  "log_apply (StorePut a) (m, t) = (m(ac_iid a \<mapsto> record_clip a), t)"
| "log_apply (StoreTrim iid) (m, t) = (\<lambda>i. if i \<le> iid then None else m i, iid)"

fun store_op_ok :: "store_op \<Rightarrow> bool" where
  "store_op_ok (StorePut a) = accepted_ok a"
| "store_op_ok (StoreTrim iid) = True"

lemma store_apply_mem:
  assumes "st_api st = mem_api" "mem_ok (st_handle st)" "store_op_ok x"
  shows "\<exists>st'. store_apply x st = Inr st' \<and> st_api st' = mem_api \<and> mem_ok (st_handle st') \<and>
    (mem_recs (st_handle st'), ms_trim_iid (st_handle st')) = log_apply x (mem_recs (st_handle st), ms_trim_iid (st_handle st))"
proof (cases x)
  case (StorePut a)
  then obtain h where "mem_storage_put (st_handle st) a = Inr (h, 0)" "mem_ok h"
    "mem_recs h = (mem_recs (st_handle st))(ac_iid a \<mapsto> record_clip a)" "ms_trim_iid h = ms_trim_iid (st_handle st)"
    using mem_put_ok[OF assms(2), of a] assms(3) by auto
  then show ?thesis using StorePut assms(1)
    by (auto simp: storage_tx_begin_def storage_tx_commit_def storage_put_record_def mem_api_sel)
next
  case (StoreTrim iid)
  obtain h where "mem_storage_trim (st_handle st) iid = Inr (h, 0)" "mem_ok h" "ms_trim_iid h = iid"
    "mem_recs h = (\<lambda>i. if i \<le> iid then None else mem_recs (st_handle st) i)"
    using mem_trim_ok[OF assms(2), of iid] by auto
  then show ?thesis using StoreTrim assms(1)
    by (auto simp: storage_tx_begin_def storage_tx_commit_def storage_trim_def mem_api_sel)
qed

lemma store_run_mem:
  assumes "st_api st = mem_api" "mem_ok (st_handle st)" "\<forall>x \<in> set xs. store_op_ok x"
  shows "\<exists>st'. store_run xs st = Inr st' \<and> st_api st' = mem_api \<and> mem_ok (st_handle st') \<and>
    (mem_recs (st_handle st'), ms_trim_iid (st_handle st')) =
      fold log_apply xs (mem_recs (st_handle st), ms_trim_iid (st_handle st))"
  using assms
proof (induction xs arbitrary: st)
  case (Cons x xs)
  then obtain st1 where s: "store_apply x st = Inr st1" "st_api st1 = mem_api" "mem_ok (st_handle st1)"
    "(mem_recs (st_handle st1), ms_trim_iid (st_handle st1)) = log_apply x (mem_recs (st_handle st), ms_trim_iid (st_handle st))"
    using store_apply_mem[of st x] by auto
  then show ?case using Cons.IH[OF s(2,3)] Cons.prems(3) by auto
qed auto

text \<open>
  C26: the memory backend is a log of records. After any sequence of transactions that put
  well-formed records and trim, a lookup through the dispatch table returns for each instance a copy
  of the last record put for it since the last trim that covers it, or nothing, and the trim instance
  is the one of the last trim; no operation fails.
\<close>

theorem storage_refines_log:
  assumes "\<forall>x \<in> set xs. store_op_ok x"
  shows "\<exists>st. store_run xs storage_init_mem = Inr st \<and>
    (\<forall>i out. storage_get_record st i out =
       Inr (case fst (fold log_apply xs (Map.empty, 0)) i of None \<Rightarrow> (0, out) | Some r \<Rightarrow> (1, r))) \<and>
    storage_get_trim_instance st = snd (fold log_apply xs (Map.empty, 0))"
proof -
  have init: "st_api storage_init_mem = mem_api" "mem_ok (st_handle storage_init_mem)"
    "(mem_recs (st_handle storage_init_mem), ms_trim_iid (st_handle storage_init_mem)) = (Map.empty, 0)"
    using mem_storage_new_ok by (simp_all add: storage_init_mem_def mem_storage_new_def)
  obtain st where st: "store_run xs storage_init_mem = Inr st" "st_api st = mem_api" "mem_ok (st_handle st)"
    "(mem_recs (st_handle st), ms_trim_iid (st_handle st)) = fold log_apply xs (Map.empty, 0)"
    using store_run_mem[OF init(1,2) assms] unfolding init(3) by blast
  have "mem_recs (st_handle st) = fst (fold log_apply xs (Map.empty, 0))"
    "ms_trim_iid (st_handle st) = snd (fold log_apply xs (Map.empty, 0))"
    using st(4) by (metis fst_conv, metis snd_conv)
  then show ?thesis using st ms.get[OF st(3)] ms.trim_instance[OF st(3)]
    by (auto simp: storage_get_record_def storage_get_trim_instance_def)
qed

definition demo_record :: "iid_t \<Rightarrow> paxos_accepted" where
  "demo_record i = accepted_zero\<lparr>ac_iid := i, ac_n_aids := 1, ac_aids := Some [0],
     ac_ballots := Some [1001], ac_value_ballots := Some [1001]\<rparr>"

theorem storage_refines_log_witness:
  "\<exists>st. store_run [StorePut (demo_record 1), StorePut (demo_record 2), StoreTrim 1] storage_init_mem = Inr st \<and>
     storage_get_record st 1 accepted_zero = Inr (0, accepted_zero) \<and>
     storage_get_record st 2 accepted_zero = Inr (1, demo_record 2) \<and> storage_get_trim_instance st = 1"
proof -
  have ok: "\<forall>x \<in> set [StorePut (demo_record 1), StorePut (demo_record 2), StoreTrim 1]. store_op_ok x"
    by (simp add: demo_record_def accepted_ok_def accepted_zero_def arr_len_def)
  have "\<not> (2 :: iid_t) \<le> 1" by code_simp
  then show ?thesis
    using storage_refines_log[OF ok]
    by (auto simp: demo_record_def record_clip_def accepted_zero_def value_zero_def)
qed

end
