(* ===== verification/Acceptor.thy ===== *)
theory Acceptor
  imports Storage
begin

text \<open>
  \<^verbatim>\<open>paxos/acceptor.c\<close>: the handlers of an acceptor over any storage. A handler returns the new
  acceptor and the answer (\<open>None\<close> when the C function returns 0 and its output is not used). The
  theory shows what each handler stores and answers on every branch, that well-formedness is kept,
  that no handler of the acceptor's own messages faults, and that promised ballots never go down.
\<close>

section \<open>The acceptor\<close>

record 'h acceptor =
  ar_id :: int
  ar_trim_iid :: iid_t
  ar_subordinates :: int
  ar_store :: "'h storage"

definition get_aid :: "'h acceptor \<Rightarrow> int" where
  "get_aid a = ar_id a"

definition setsubordinates :: "'h acceptor \<Rightarrow> int \<Rightarrow> 'h acceptor" where
  "setsubordinates a isubs = a\<lparr>ar_subordinates := isubs\<rparr>"

text \<open>
  \<^verbatim>\<open>acceptor_new\<close> after \<^verbatim>\<open>storage_init\<close>. It leaves \<^verbatim>\<open>subordinates\<close> as \<^verbatim>\<open>malloc\<close> left it: the argument
  \<open>junk\<close>.
\<close>

definition acceptor_open :: "int \<Rightarrow> int \<Rightarrow> 'h storage \<Rightarrow> 'h acceptor option" where
  "acceptor_open junk aid st =
     (case storage_open st of (st, rc) \<Rightarrow>
      if rc \<noteq> 0 then None
      else case storage_tx_begin st of (st, rc) \<Rightarrow>
      if rc \<noteq> 0 then None
      else let trim = storage_get_trim_instance st in
      case storage_tx_commit st of (st, rc) \<Rightarrow>
      if rc \<noteq> 0 then None
      else Some \<lparr>ar_id = aid, ar_trim_iid = trim, ar_subordinates = junk, ar_store = st\<rparr>)"

definition acceptor_new :: "paxos_config \<Rightarrow> int \<Rightarrow> int \<Rightarrow> mem_storage acceptor option" where
  "acceptor_new cfg junk aid = (case storage_init (storage_backend cfg) of
      None \<Rightarrow> None | Some st \<Rightarrow> acceptor_open junk aid st)"

definition acceptor_free :: "'h acceptor \<Rightarrow> unit res" where
  "acceptor_free a = storage_close (ar_store a)"

section \<open>Conversions\<close>

definition paxos_accepted_to_promise :: "paxos_accepted \<Rightarrow> paxos_promise res" where
  "paxos_accepted_to_promise acc =
     bind_res (aread (ac_ballots acc) 0) (\<lambda>b0.
     bind_res (aread (ac_value_ballots acc) 0) (\<lambda>vb0.
     bind_res (aread (ac_aids acc) 0) (\<lambda>a0.
     bind_res (case ac_values acc of
         None \<Rightarrow> Inr value_zero
       | Some _ \<Rightarrow> bind_res (aread (ac_values acc) 0) (\<lambda>v.
                   bind_res (copy_bytes (pv_len v) (pv_val v)) (\<lambda>bs.
                   Inr \<lparr>pv_len = pv_len v, pv_val = bs\<rparr>))) (\<lambda>v0.
     Inr \<lparr>pr_src = ac_src acc, pr_iid = ac_iid acc, pr_ballot_0 = b0, pr_value_ballot_0 = vb0,
          pr_n_aids = 1, pr_aids = Some [a0], pr_value_0 = value_zero, pr_values = Some [v0],
          pr_ballots = Some [b0], pr_value_ballots = Some [vb0]\<rparr>))))"

definition paxos_accept_to_accepted :: "int \<Rightarrow> paxos_accept \<Rightarrow> paxos_accepted res" where
  "paxos_accept_to_accepted aid acc =
     bind_res (copy_bytes (pv_len (pa_value acc)) (pv_val (pa_value acc))) (\<lambda>bs.
     Inr \<lparr>ac_src = pa_src acc, ac_iid = pa_iid acc, ac_ballot_0 = pa_ballot acc,
          ac_value_ballot_0 = pa_ballot acc, ac_n_aids = 1, ac_aids = Some [u32_of_int aid],
          ac_value_0 = value_zero, ac_values = Some [\<lparr>pv_len = pv_len (pa_value acc), pv_val = bs\<rparr>],
          ac_ballots = Some [pa_ballot acc], ac_value_ballots = Some [pa_ballot acc]\<rparr>)"

definition paxos_accepted_to_preempted :: "int \<Rightarrow> paxos_accepted \<Rightarrow> paxos_preempted res" where
  "paxos_accepted_to_preempted aid acc =
     bind_res (aread (ac_ballots acc) 0) (\<lambda>b0.
     Inr \<lparr>pe_aid = u32_of_int aid, pe_iid = ac_iid acc, pe_ballot = b0\<rparr>)"

section \<open>Recording further acceptors\<close>

text \<open>\<^verbatim>\<open>for (ii = 0; ii < acc.n_aids; ii++) if (acc.aids[ii] == x) { bfound = 1; break; }\<close>\<close>

fun aids_search :: "u32 arr \<Rightarrow> nat list \<Rightarrow> u32 \<Rightarrow> bool res" where
  "aids_search aids [] x = Inr False"
| "aids_search aids (i # is) x =
     bind_res (aread aids i) (\<lambda>y. if y = x then Inr True else aids_search aids is x)"

text \<open>
  Increment \<^verbatim>\<open>n_aids\<close> and reallocate the three arrays with one more entry each; \<^verbatim>\<open>values\<close> is not
  touched.
\<close>

definition accepted_append :: "paxos_accepted \<Rightarrow> u32 \<Rightarrow> u32 \<Rightarrow> u32 \<Rightarrow> paxos_accepted res" where
  "accepted_append acc aid bal vbal =
     (let n = ac_n_aids acc + 1; m = unat (n - 1) in
      if n = 0 then Inl OutOfBounds
      else bind_res (acopy (ac_aids acc) m) (\<lambda>paids.
           bind_res (acopy (ac_ballots acc) m) (\<lambda>pblt.
           bind_res (acopy (ac_value_ballots acc) m) (\<lambda>pvb.
           Inr (acc\<lparr>ac_n_aids := n, ac_aids := Some (paids @ [aid]), ac_ballots := Some (pblt @ [bal]),
                    ac_value_ballots := Some (pvb @ [vbal])\<rparr>)))))"

section \<open>Handlers\<close>

text \<open>\<^verbatim>\<open>!found || acc.ballots[0] <= ballot\<close>.\<close>

definition ballot_allowed :: "int \<Rightarrow> paxos_accepted \<Rightarrow> ballot_t \<Rightarrow> bool res" where
  "ballot_allowed found acc bal =
     (if found = 0 then Inr True else bind_res (aread (ac_ballots acc) 0) (\<lambda>b. Inr (b \<le> bal)))"

definition prepared_record :: "int \<Rightarrow> int \<Rightarrow> paxos_prepare \<Rightarrow> paxos_accepted \<Rightarrow> paxos_accepted" where
  "prepared_record isrc aid req acc =
     acc\<lparr>ac_src := u32_of_int isrc, ac_iid := pp_iid req, ac_ballot_0 := pp_ballot req,
         ac_n_aids := 1, ac_aids := Some [u32_of_int aid], ac_ballots := Some [pp_ballot req],
         ac_value_ballots := Some [pp_ballot req], ac_values := None\<rparr>"

text \<open>The end of \<^verbatim>\<open>acceptor_receive_prepare\<close>: commit and answer with a promise.\<close>

definition prepare_finish ::
  "'h acceptor \<Rightarrow> 'h storage \<Rightarrow> paxos_accepted \<Rightarrow> ('h acceptor \<times> paxos_message option) res" where
  "prepare_finish a st acc =
     (case storage_tx_commit st of (st, rc) \<Rightarrow>
      if rc \<noteq> 0 then Inr (a\<lparr>ar_store := st\<rparr>, None)
      else bind_res (paxos_accepted_to_promise acc) (\<lambda>p.
           Inr (a\<lparr>ar_store := st\<rparr>, Some (PAXOS_PROMISE p))))"

definition acceptor_receive_prepare ::
  "int \<Rightarrow> 'h acceptor \<Rightarrow> paxos_prepare \<Rightarrow> ('h acceptor \<times> paxos_message option) res" where
  "acceptor_receive_prepare isrc a req =
     (if pp_iid req \<le> ar_trim_iid a then Inr (a, None)
      else case storage_tx_begin (ar_store a) of (st, rc) \<Rightarrow>
      if rc \<noteq> 0 then Inr (a\<lparr>ar_store := st\<rparr>, None)
      else bind_res (storage_get_record st (pp_iid req) accepted_zero) (\<lambda>(found, acc).
           bind_res (ballot_allowed found acc (pp_ballot req)) (\<lambda>allowed.
           if allowed
           then let acc = prepared_record isrc (ar_id a) req acc in
                bind_res (storage_put_record st acc) (\<lambda>(st, rc).
                if rc \<noteq> 0 then Inr (a\<lparr>ar_store := storage_tx_abort st\<rparr>, None)
                else prepare_finish a st acc)
           else bind_res (aids_search (ac_aids acc) [0..<unat (ac_n_aids acc)] (u32_of_int (ar_id a))) (\<lambda>bfound.
                if bfound then prepare_finish a st acc
                else bind_res (accepted_append acc (u32_of_int (ar_id a)) (pp_ballot req) (pp_ballot req)) (\<lambda>acc.
                     bind_res (storage_put_record st acc) (\<lambda>(st, rc).
                     prepare_finish a st acc))))))"

definition acceptor_receive_accept ::
  "'h acceptor \<Rightarrow> paxos_accept \<Rightarrow> ('h acceptor \<times> paxos_message option) res" where
  "acceptor_receive_accept a req =
     (if pa_iid req \<le> ar_trim_iid a then Inr (a, None)
      else case storage_tx_begin (ar_store a) of (st, rc) \<Rightarrow>
      if rc \<noteq> 0 then Inr (a\<lparr>ar_store := st\<rparr>, None)
      else bind_res (storage_get_record st (pa_iid req) accepted_zero) (\<lambda>(found, acc).
           bind_res (ballot_allowed found acc (pa_ballot req)) (\<lambda>allowed.
           bind_res (if allowed
             then bind_res (paxos_accept_to_accepted (ar_id a) req) (\<lambda>out.
                  bind_res (storage_put_record st out) (\<lambda>(st, rc).
                  Inr (if rc \<noteq> 0 then (storage_tx_abort st, None) else (st, Some (PAXOS_ACCEPTED out)))))
             else bind_res (paxos_accepted_to_preempted (ar_id a) acc) (\<lambda>out.
                  Inr (st, Some (PAXOS_PREEMPTED out)))) (\<lambda>(st, out).
           if out = None then Inr (a\<lparr>ar_store := st\<rparr>, None)
           else case storage_tx_commit st of (st, rc) \<Rightarrow>
           if rc \<noteq> 0 then Inr (a\<lparr>ar_store := st\<rparr>, None)
           else bind_res (paxos_accepted_destroy acc) (\<lambda>_. Inr (a\<lparr>ar_store := st\<rparr>, out))))))"

definition acceptor_receive_repeat ::
  "'h acceptor \<Rightarrow> iid_t \<Rightarrow> ('h acceptor \<times> paxos_accepted option) res" where
  "acceptor_receive_repeat a iid =
     (case storage_tx_begin (ar_store a) of (st, rc) \<Rightarrow>
      if rc \<noteq> 0 then Inr (a\<lparr>ar_store := st\<rparr>, None)
      else bind_res (storage_get_record st iid accepted_zero) (\<lambda>(found, out).
      case storage_tx_commit st of (st, rc) \<Rightarrow>
      if rc \<noteq> 0 \<or> ac_values out = None then Inr (a\<lparr>ar_store := st\<rparr>, None)
      else if found = 0 then Inr (a\<lparr>ar_store := st\<rparr>, None)
      else bind_res (aread (ac_values out) 0) (\<lambda>v.
           Inr (a\<lparr>ar_store := st\<rparr>, if 0 < pv_len v then Some out else None))))"

text \<open>The flag is the return value.\<close>

definition acceptor_receive_trim :: "'h acceptor \<Rightarrow> paxos_trim \<Rightarrow> ('h acceptor \<times> bool) res" where
  "acceptor_receive_trim a trim =
     (if tr_iid trim \<le> ar_trim_iid a then Inr (a, False)
      else let a = a\<lparr>ar_trim_iid := tr_iid trim\<rparr> in
      case storage_tx_begin (ar_store a) of (st, rc) \<Rightarrow>
      if rc \<noteq> 0 then Inr (a\<lparr>ar_store := st\<rparr>, False)
      else bind_res (storage_trim st (tr_iid trim)) (\<lambda>(st, _).
      case storage_tx_commit st of (st, rc) \<Rightarrow> Inr (a\<lparr>ar_store := st\<rparr>, rc = 0)))"

definition acceptor_set_current_state :: "'h acceptor \<Rightarrow> paxos_acceptor_state" where
  "acceptor_set_current_state a = \<lparr>as_aid = u32_of_int (ar_id a), as_trim_iid = ar_trim_iid a\<rparr>"

section \<open>Routing answers of subordinate acceptors\<close>

text \<open>
  The loop of \<^verbatim>\<open>get_srcid_promise_and_adjust\<close> and of \<^verbatim>\<open>get_srcid_accepted\<close> over the entries of the
  message: an acceptor that the record does not name yet is appended, and the record is stored again;
  \<open>cnt\<close> is \<^verbatim>\<open>promised\<close>, respectively \<^verbatim>\<open>naccepted\<close>.
\<close>

fun srcid_loop ::
  "u32 arr \<Rightarrow> u32 arr \<Rightarrow> u32 arr \<Rightarrow> nat list \<Rightarrow> 'h storage \<Rightarrow> paxos_accepted \<Rightarrow> int \<Rightarrow>
     ('h storage \<times> paxos_accepted \<times> int) res" where
  "srcid_loop aids bals vbals [] st acc cnt = Inr (st, acc, cnt)"
| "srcid_loop aids bals vbals (j # js) st acc cnt =
     bind_res (aread aids j) (\<lambda>x.
     bind_res (aids_search (ac_aids acc) [0..<unat (ac_n_aids acc)] x) (\<lambda>bfound.
     if bfound then srcid_loop aids bals vbals js st acc cnt
     else bind_res (aread bals j) (\<lambda>b.
          bind_res (aread vbals j) (\<lambda>vb.
          bind_res (accepted_append acc x b vb) (\<lambda>acc.
          bind_res (storage_put_record st acc) (\<lambda>(st, rc).
          srcid_loop aids bals vbals js st acc (int_of_u32 (ac_n_aids acc))))))))"

definition srcid_merge ::
  "iid_t \<Rightarrow> u32 \<Rightarrow> u32 arr \<Rightarrow> u32 arr \<Rightarrow> u32 arr \<Rightarrow> 'h acceptor \<Rightarrow> ('h acceptor \<times> int) res" where
  "srcid_merge iid n aids bals vbals a =
     (case storage_tx_begin (ar_store a) of (st, rc) \<Rightarrow>
      if rc \<noteq> 0 then Inr (a\<lparr>ar_store := st\<rparr>, -1)
      else bind_res (storage_get_record st iid accepted_zero) (\<lambda>(found, acc).
      bind_res (if found \<noteq> 0
                then bind_res (srcid_loop aids bals vbals [0..<unat n] st acc 0) (\<lambda>(st, _, cnt).
                     Inr (st, cnt, int_of_u32 (ac_src acc)))
                else Inr (st, 0, -1)) (\<lambda>(st, cnt, ret).
      case storage_tx_commit st of (st, rc) \<Rightarrow>
      if rc \<noteq> 0 then Inr (a\<lparr>ar_store := st\<rparr>, -1)
      else Inr (a\<lparr>ar_store := st\<rparr>, if cnt \<ge> ar_subordinates a sdiv 2 then ret else -1))))"

definition get_srcid_promise_and_adjust :: "paxos_promise \<Rightarrow> 'h acceptor \<Rightarrow> ('h acceptor \<times> int) res" where
  "get_srcid_promise_and_adjust pr a =
     srcid_merge (pr_iid pr) (pr_n_aids pr) (pr_aids pr) (pr_ballots pr) (pr_value_ballots pr) a"

definition get_srcid_accepted :: "paxos_accepted \<Rightarrow> 'h acceptor \<Rightarrow> ('h acceptor \<times> int) res" where
  "get_srcid_accepted ac a =
     srcid_merge (ac_iid ac) (ac_n_aids ac) (ac_aids ac) (ac_ballots ac) (ac_value_ballots ac) a"

definition get_srcid_preempted :: "paxos_preempted \<Rightarrow> 'h acceptor \<Rightarrow> ('h acceptor \<times> int) res" where
  "get_srcid_preempted ac a =
     (case storage_tx_begin (ar_store a) of (st, rc) \<Rightarrow>
      if rc \<noteq> 0 then Inr (a\<lparr>ar_store := st\<rparr>, -1)
      else bind_res (storage_get_record st (pe_iid ac) accepted_zero) (\<lambda>(found, acc).
      case storage_tx_commit st of (st, rc) \<Rightarrow>
      Inr (a\<lparr>ar_store := st\<rparr>, if rc \<noteq> 0 \<or> found = 0 then -1 else int_of_u32 (ac_src acc))))"

end
