(* ===== verification/Storage_Utils.thy ===== *)
theory Storage_Utils
  imports Acceptor
begin

text \<open>
  \<^verbatim>\<open>paxos/storage_utils.c\<close>: a record as the flat buffer the LMDB backend stores, and back. The code
  copies objects with \<^verbatim>\<open>memcpy\<close>, so the bytes of a \<^verbatim>\<open>uint32_t\<close> and of the two structs, which the
  compiler and the machine decide, are the parameter \<open>c_layout\<close>; \<open>layout_ok\<close> is what C promises about it.
\<close>

section \<open>Objects as bytes\<close>

text \<open>
  \<open>ly_u32\<close> and \<open>ly_u32_of\<close> are the bytes of a \<^verbatim>\<open>uint32_t\<close> and the number they stand for;
  \<open>ly_accepted\<close> reads a \<^verbatim>\<open>paxos_accepted\<close> from its \<open>ly_sizeof_accepted\<close> bytes; an element of an array of
  \<^verbatim>\<open>paxos_value\<close> takes \<open>ly_sizeof_value\<close> bytes with the pointer \<^verbatim>\<open>paxos_value_val\<close> at \<open>ly_offset_val\<close>.
\<close>

record c_layout =
  ly_u32 :: "u32 \<Rightarrow> u8 list"
  ly_u32_of :: "u8 list \<Rightarrow> u32"
  ly_sizeof_accepted :: nat
  ly_accepted :: "u8 list \<Rightarrow> paxos_accepted"
  ly_sizeof_value :: nat
  ly_offset_val :: nat

definition layout_ok :: "c_layout \<Rightarrow> bool" where
  "layout_ok L \<longleftrightarrow> (\<forall>w. length (ly_u32 L w) = 4 \<and> ly_u32_of L (ly_u32 L w) = w) \<and>
     ly_offset_val L < ly_sizeof_value L"

text \<open>
  \<open>img\<close> are the bytes of the object \<open>acc\<close>: reading them gives its numbers back. The pointers read back
  are not constrained, they are addresses in the process that wrote them.
\<close>

definition image_of :: "c_layout \<Rightarrow> paxos_accepted \<Rightarrow> u8 list \<Rightarrow> bool" where
  "image_of L acc img \<longleftrightarrow> length img = ly_sizeof_accepted L \<and>
     (let r = ly_accepted L img in ac_src r = ac_src acc \<and> ac_iid r = ac_iid acc \<and> ac_ballot_0 r = ac_ballot_0 acc \<and>
        ac_value_ballot_0 r = ac_value_ballot_0 acc \<and> ac_n_aids r = ac_n_aids acc)"

text \<open>\<^verbatim>\<open>memcpy\<close> from offset \<open>p\<close> of an object, \<open>n\<close> bytes.\<close>

definition mem_slice :: "u8 list \<Rightarrow> nat \<Rightarrow> nat \<Rightarrow> u8 list res" where
  "mem_slice bs p n = (if n = 0 then Inr [] else if p + n \<le> length bs then Inr (take n (drop p bs)) else Inl OutOfBounds)"

definition u32s_to :: "c_layout \<Rightarrow> u32 list \<Rightarrow> u8 list" where
  "u32s_to L ws = concat (map (ly_u32 L) ws)"

fun u32s_of :: "c_layout \<Rightarrow> nat \<Rightarrow> u8 list \<Rightarrow> u32 list" where
  "u32s_of L 0 bs = []"
| "u32s_of L (Suc n) bs = ly_u32_of L (take 4 bs) # u32s_of L n (drop 4 bs)"

section \<open>From a record to a buffer\<close>

text \<open>
  The first loop sums the lengths. \<open>len\<close> is a \<^verbatim>\<open>size_t\<close>, so a negative length wraps around and the copy
  of the second loop faults; the sum is kept as an integer here.
\<close>

fun values_bytes :: "paxos_value arr \<Rightarrow> nat \<Rightarrow> nat \<Rightarrow> int res" where
  "values_bytes vals i 0 = Inr 0"
| "values_bytes vals i (Suc n) =
     bind_res (aread vals i) (\<lambda>v. bind_res (values_bytes vals (Suc i) n) (\<lambda>s. Inr (pv_len v + 4 + s)))"

text \<open>
  The second loop writes a length and then \<^verbatim>\<open>paxos_value_len\<close> bytes taken from
  \<^verbatim>\<open>&(acc->values[i].paxos_value_val)\<close>, that is from the array of structs itself (\<open>varr\<close>, its bytes) and not
  from the buffer the pointer points to.
\<close>

fun values_to_buffer :: "c_layout \<Rightarrow> u8 list \<Rightarrow> paxos_value arr \<Rightarrow> nat \<Rightarrow> nat \<Rightarrow> u8 list res" where
  "values_to_buffer L varr vals i 0 = Inr []"
| "values_to_buffer L varr vals i (Suc n) =
     bind_res (aread vals i) (\<lambda>v.
     if pv_len v < 0 then Inl OutOfBounds
     else bind_res (mem_slice varr (i * ly_sizeof_value L + ly_offset_val L) (nat (pv_len v))) (\<lambda>bs.
          bind_res (values_to_buffer L varr vals (Suc i) n) (\<lambda>rest.
          Inr (ly_u32 L (u32_of_int (pv_len v)) @ bs @ rest))))"

text \<open>\<^verbatim>\<open>ballots\<close> and \<^verbatim>\<open>value_ballots\<close>: zeros for a NULL pointer.\<close>

definition u32s_or_zero :: "c_layout \<Rightarrow> u32 arr \<Rightarrow> nat \<Rightarrow> u8 list res" where
  "u32s_or_zero L a n = (case a of
      None \<Rightarrow> Inr (replicate (4 * n) 0)
    | Some _ \<Rightarrow> bind_res (acopy a n) (\<lambda>ws. Inr (u32s_to L ws)))"

text \<open>
  \<open>img\<close> are the bytes of \<^verbatim>\<open>*acc\<close>, \<open>varr\<close> those of the array \<^verbatim>\<open>acc->values\<close>. The last line faults if more was
  written than was allocated.
\<close>

definition paxos_accepted_to_buffer :: "c_layout \<Rightarrow> u8 list \<Rightarrow> u8 list \<Rightarrow> paxos_accepted \<Rightarrow> u8 list res" where
  "paxos_accepted_to_buffer L img varr acc =
     (let n = unat (ac_n_aids acc) in
      bind_res (values_bytes (ac_values acc) 0 n) (\<lambda>len.
      let size = int (ly_sizeof_accepted L) + (int (4 * n) + len) + int (4 * n * 2) in
      bind_res (acopy (ac_aids acc) n) (\<lambda>aids.
      bind_res (values_to_buffer L varr (ac_values acc) 0 n) (\<lambda>vals.
      bind_res (u32s_or_zero L (ac_ballots acc) n) (\<lambda>bals.
      bind_res (u32s_or_zero L (ac_value_ballots acc) n) (\<lambda>vbals.
      let buffer = img @ u32s_to L aids @ vals @ bals @ vbals in
      if size < int (length buffer) then Inl OutOfBounds else Inr buffer))))))"

section \<open>From a buffer to a record\<close>

fun values_from_buffer :: "c_layout \<Rightarrow> u8 list \<Rightarrow> nat \<Rightarrow> nat \<Rightarrow> (paxos_value list \<times> nat) res" where
  "values_from_buffer L buf p 0 = Inr ([], p)"
| "values_from_buffer L buf p (Suc n) =
     bind_res (mem_slice buf p 4) (\<lambda>lb.
     let len = int_of_u32 (ly_u32_of L lb) in
     if len < 0 then Inl OutOfBounds
     else bind_res (mem_slice buf (p + 4) (nat len)) (\<lambda>bs.
          bind_res (values_from_buffer L buf (p + 4 + nat len) n) (\<lambda>(vs, q).
          Inr (\<lparr>pv_len = len, pv_val = Some bs\<rparr> # vs, q))))"

definition paxos_accepted_from_buffer :: "c_layout \<Rightarrow> u8 list \<Rightarrow> paxos_accepted res" where
  "paxos_accepted_from_buffer L buf =
     bind_res (mem_slice buf 0 (ly_sizeof_accepted L)) (\<lambda>img.
     let out = ly_accepted L img; n = unat (ac_n_aids out); p = ly_sizeof_accepted L in
     if 0 < n
     then bind_res (mem_slice buf p (4 * n)) (\<lambda>aids.
          bind_res (values_from_buffer L buf (p + 4 * n) n) (\<lambda>(vals, q).
          bind_res (mem_slice buf q (4 * n)) (\<lambda>bals.
          bind_res (mem_slice buf (q + 4 * n) (4 * n)) (\<lambda>vbals.
          Inr (out\<lparr>ac_aids := Some (u32s_of L n aids), ac_values := Some vals,
                   ac_ballots := Some (u32s_of L n bals), ac_value_ballots := Some (u32s_of L n vbals)\<rparr>)))))
     else Inr out)"

section \<open>Reading back\<close>

lemma mem_slice_at: "length xs = p \<Longrightarrow> length ys = n \<Longrightarrow> mem_slice (xs @ ys @ zs) p n = Inr ys"
  by (auto simp: mem_slice_def)

lemma layout_okD [simp]:
  "layout_ok L \<Longrightarrow> length (ly_u32 L w) = 4" "layout_ok L \<Longrightarrow> ly_u32_of L (ly_u32 L w) = w"
  by (simp_all add: layout_ok_def)

lemma u32s_to_Cons: "u32s_to L (w # ws) = ly_u32 L w @ u32s_to L ws"
  by (simp add: u32s_to_def)

lemma u32s_to_length [simp]: "layout_ok L \<Longrightarrow> length (u32s_to L ws) = 4 * length ws"
  by (induction ws) (simp_all add: u32s_to_Cons, simp add: u32s_to_def)

lemma u32s_of_to [simp]: "layout_ok L \<Longrightarrow> u32s_of L (length ws) (u32s_to L ws) = ws"
  by (induction ws) (simp_all add: u32s_to_Cons)

text \<open>What comes back for the value at index \<open>j\<close>: its length, and bytes of the array of structs.\<close>

definition stored_value :: "c_layout \<Rightarrow> u8 list \<Rightarrow> nat \<Rightarrow> paxos_value \<Rightarrow> paxos_value" where
  "stored_value L varr j v =
     \<lparr>pv_len = pv_len v, pv_val = Some (take (nat (pv_len v)) (drop (j * ly_sizeof_value L + ly_offset_val L) varr))\<rparr>"

definition value_fits :: "c_layout \<Rightarrow> u8 list \<Rightarrow> nat \<Rightarrow> paxos_value \<Rightarrow> bool" where
  "value_fits L varr j v \<longleftrightarrow> 0 \<le> pv_len v \<and> pv_len v < 2 ^ 31 \<and>
     (0 < pv_len v \<longrightarrow> j * ly_sizeof_value L + ly_offset_val L + nat (pv_len v) \<le> length varr)"

lemma value_fits_slice:
  "value_fits L varr j v \<Longrightarrow>
     mem_slice varr (j * ly_sizeof_value L + ly_offset_val L) (nat (pv_len v)) = Inr (the (pv_val (stored_value L varr j v))) \<and>
     length (the (pv_val (stored_value L varr j v))) = nat (pv_len v)"
  by (auto simp: value_fits_def mem_slice_def stored_value_def nat_le_iff)

lemma int_u32_small: "0 \<le> i \<Longrightarrow> i < 2 ^ 31 \<Longrightarrow> int_of_u32 (u32_of_int i) = i"
  by (simp add: int_of_u32_def u32_of_int_def signed_of_int signed_take_bit_int_eq_self)

lemma values_buffer:
  assumes L: "layout_ok L" and n: "i + n = length vs" and fits: "\<forall>j < length vs. value_fits L varr j (vs ! j)"
  shows "\<exists>bs. values_to_buffer L varr (Some vs) i n = Inr bs \<and> values_bytes (Some vs) i n = Inr (int (length bs)) \<and>
     (\<forall>pre post. values_from_buffer L (pre @ bs @ post) (length pre) n =
        Inr (map (\<lambda>j. stored_value L varr j (vs ! j)) [i..<i + n], length pre + length bs))"
  using n
proof (induction n arbitrary: i)
  case 0
  then show ?case by simp
next
  case (Suc n)
  let ?v = "vs ! i"
  let ?w = "the (pv_val (stored_value L varr i ?v))"
  let ?h = "ly_u32 L (u32_of_int (pv_len ?v))"
  have v: "value_fits L varr i ?v" using fits Suc.prems by simp
  then have len: "0 \<le> pv_len ?v" "pv_len ?v < 2 ^ 31" by (simp_all add: value_fits_def)
  note w = value_fits_slice[OF v]
  have i: "i < length vs" using Suc.prems by simp
  obtain bs where bs: "values_to_buffer L varr (Some vs) (Suc i) n = Inr bs" "values_bytes (Some vs) (Suc i) n = Inr (int (length bs))"
    "\<And>pre post. values_from_buffer L (pre @ bs @ post) (length pre) n =
        Inr (map (\<lambda>j. stored_value L varr j (vs ! j)) [Suc i..<Suc i + n], length pre + length bs)"
    using Suc.IH[of "Suc i"] Suc.prems by auto
  have "values_from_buffer L (pre @ (?h @ ?w @ bs) @ post) (length pre) (Suc n) =
      Inr (map (\<lambda>j. stored_value L varr j (vs ! j)) [i..<i + Suc n], length pre + length (?h @ ?w @ bs))" for pre post
  proof -
    have h: "mem_slice (pre @ ?h @ ?w @ bs @ post) (length pre) 4 = Inr ?h"
      using mem_slice_at[of pre _ ?h 4 "?w @ bs @ post"] L by simp
    have b: "mem_slice (pre @ ?h @ ?w @ bs @ post) (length pre + 4) (nat (pv_len ?v)) = Inr ?w"
      using mem_slice_at[of "pre @ ?h" _ ?w _ "bs @ post"] L w by simp
    have r: "values_from_buffer L (pre @ ?h @ ?w @ bs @ post) (length pre + 4 + nat (pv_len ?v)) n =
        Inr (map (\<lambda>j. stored_value L varr j (vs ! j)) [Suc i..<Suc i + n], length pre + 4 + nat (pv_len ?v) + length bs)"
      using bs(3)[of "pre @ ?h @ ?w" post] L w by (simp add: add.assoc)
    have "[i..<i + Suc n] = i # [Suc i..<Suc i + n]" by (simp add: upt_conv_Cons)
    moreover have "\<lparr>pv_len = pv_len ?v, pv_val = Some ?w\<rparr> = stored_value L varr i ?v" by (simp add: stored_value_def)
    ultimately show ?thesis using h b r L w len by (simp add: int_u32_small)
  qed
  moreover have "values_to_buffer L varr (Some vs) i (Suc n) = Inr (?h @ ?w @ bs)" using i len w bs(1) by simp
  moreover have "values_bytes (Some vs) i (Suc n) = Inr (int (length (?h @ ?w @ bs)))" using i len w bs(2) L by simp
  ultimately show ?case by blast
qed


text \<open>
  The records an acceptor writes cannot be turned into a buffer. The record of a promise has no array of values
  and the conversion reads through NULL; the record of an accepted value longer than the pointer (what is left of
  the struct from the pointer on) is read past the end of the array.
\<close>

lemma buffer_faults:
  assumes "ly_offset_val L < ly_sizeof_value L" "length varr = ly_sizeof_value L"
    and "ac_n_aids acc = 1" "ac_values acc = Some [v]" "int (ly_sizeof_value L - ly_offset_val L) < pv_len v"
    and "ac_aids acc = Some [x]"
  shows "paxos_accepted_to_buffer L img varr' (prepared_record isrc aid req acc') = Inl NullDeref \<and>
    paxos_accepted_to_buffer L img varr acc = Inl OutOfBounds"
proof (rule conjI)
  show "paxos_accepted_to_buffer L img varr' (prepared_record isrc aid req acc') = Inl NullDeref"
    by (simp add: paxos_accepted_to_buffer_def prepared_record_def)
  have "mem_slice varr (ly_offset_val L) (nat (pv_len v)) = Inl OutOfBounds"
    using assms(1,2,5) by (auto simp: mem_slice_def)
  then show "paxos_accepted_to_buffer L img varr acc = Inl OutOfBounds"
    using assms(3,4,5,6) by (auto simp: paxos_accepted_to_buffer_def acopy_def)
qed

section \<open>A concrete layout\<close>

text \<open>
  The layout of a 64-bit little-endian machine: \<^verbatim>\<open>paxos_accepted\<close> has 72 bytes with its five numbers first,
  \<^verbatim>\<open>paxos_value\<close> has 16 with the pointer in the second half.
\<close>

fun le_bytes :: "nat \<Rightarrow> nat \<Rightarrow> u8 list" where
  "le_bytes 0 x = []"
| "le_bytes (Suc n) x = word_of_nat x # le_bytes n (x div 256)"

fun le_nat :: "u8 list \<Rightarrow> nat" where
  "le_nat [] = 0"
| "le_nat (b # bs) = unat b + 256 * le_nat bs"

lemma le_nat_bytes: "le_nat (le_bytes n x) = x mod 256 ^ n"
proof (induction n arbitrary: x)
  case (Suc n)
  have "unat (word_of_nat x :: u8) = x mod 256" by (simp add: unat_of_nat)
  then show ?case using Suc by (simp add: mod_mult2_eq ac_simps)
qed simp

lemma le_bytes_length [simp]: "length (le_bytes n x) = n"
  by (induction n arbitrary: x) simp_all

definition lp64_accepted :: "u8 list \<Rightarrow> paxos_accepted" where
  "lp64_accepted bs = (let w = (\<lambda>i. word_of_nat (le_nat (take 4 (drop (4 * i) bs)))) in
     accepted_zero\<lparr>ac_src := w 0, ac_iid := w 1, ac_ballot_0 := w 2, ac_value_ballot_0 := w 3, ac_n_aids := w 4\<rparr>)"

definition lp64 :: c_layout where
  "lp64 = \<lparr>ly_u32 = (\<lambda>w. le_bytes 4 (unat w)), ly_u32_of = (\<lambda>bs. word_of_nat (le_nat bs)), ly_sizeof_accepted = 72,
     ly_accepted = lp64_accepted, ly_sizeof_value = 16, ly_offset_val = 8\<rparr>"

lemma lp64_ok: "layout_ok lp64"
proof -
  have "word_of_nat (le_nat (le_bytes 4 (unat w))) = w" for w :: u32
  proof -
    have "unat w < 2 ^ 32" using unsigned_less[of w] by simp
    then show ?thesis by (simp add: le_nat_bytes)
  qed
  then show ?thesis by (simp add: layout_ok_def lp64_def)
qed

text \<open>A record with the value \<open>[7, 8]\<close> whose buffer is at address \<open>0x1000\<close>.\<close>

definition demo_record :: paxos_accepted where
  "demo_record = \<lparr>ac_src = 1, ac_iid = 5, ac_ballot_0 = 101, ac_value_ballot_0 = 101, ac_n_aids = 1, ac_aids = Some [2],
     ac_value_0 = value_zero, ac_values = Some [\<lparr>pv_len = 2, pv_val = Some [7, 8]\<rparr>], ac_ballots = Some [101],
     ac_value_ballots = Some [101]\<rparr>"

definition demo_image :: "u8 list" where
  "demo_image = concat (map (le_bytes 4) [1, 5, 101, 101, 1]) @ replicate 52 0"

definition demo_values_image :: "u8 list" where
  "demo_values_image = le_bytes 4 2 @ replicate 4 0 @ le_bytes 8 4096"

lemma demo_record_ok:
  "image_of lp64 demo_record demo_image" "accepted_ok demo_record"
  "value_fits lp64 demo_values_image 0 \<lparr>pv_len = 2, pv_val = Some [7, 8]\<rparr>"
  by code_simp+


end
