(* ===== verification/C_Library.thy ===== *)
theory C_Library
  imports Prelude
begin

text \<open>
  The functions of the C library the sources use on strings: \<^verbatim>\<open>isspace\<close>, \<^verbatim>\<open>strsep\<close>, \<^verbatim>\<open>strcasecmp\<close>, \<^verbatim>\<open>strtol\<close>,
  \<^verbatim>\<open>strtoull\<close>, the conversions of \<^verbatim>\<open>sscanf\<close> and \<^verbatim>\<open>printf\<close> for numbers and words, and \<^verbatim>\<open>fgets\<close>, written out for the C
  locale on strings without a null character; a printed \<^verbatim>\<open>int\<close> scans back to itself.
\<close>

section \<open>Characters and numbers\<close>

definition c_isspace :: "char \<Rightarrow> bool" where
  "c_isspace c \<longleftrightarrow> c = CHR '' '' \<or> (9 \<le> (of_char c :: int) \<and> (of_char c :: int) \<le> 13)"

definition c_isdigit :: "char \<Rightarrow> bool" where
  "c_isdigit c \<longleftrightarrow> 48 \<le> (of_char c :: int) \<and> (of_char c :: int) \<le> 57"

definition c_tolower :: "char \<Rightarrow> int" where
  "c_tolower c = (let n = of_char c in if 65 \<le> n \<and> n \<le> 90 then n + 32 else n)"

definition strcaseeq :: "string \<Rightarrow> string \<Rightarrow> bool" where
  "strcaseeq s t \<longleftrightarrow> map c_tolower s = map c_tolower t"

fun strsep_space :: "string \<Rightarrow> string \<times> string option" where
  "strsep_space [] = ([], None)"
| "strsep_space (c # cs) =
     (if c = CHR '' '' then ([], Some cs) else (case strsep_space cs of (tok, line) \<Rightarrow> (c # tok, line)))"

fun read_digits :: "int \<Rightarrow> string \<Rightarrow> int \<times> string" where
  "read_digits acc [] = (acc, [])"
| "read_digits acc (c # cs) = (if c_isdigit c then read_digits (acc * 10 + (of_char c - 48)) cs else (acc, c # cs))"

text \<open>The part \<^verbatim>\<open>strtol\<close> and \<^verbatim>\<open>strtoull\<close> share: sign, magnitude and the rest, or nothing to convert.\<close>

definition read_number :: "string \<Rightarrow> (bool \<times> int \<times> string) option" where
  "read_number s =
     (let t = dropWhile c_isspace s;
          neg = (case t of c # _ \<Rightarrow> c = CHR ''-'' | [] \<Rightarrow> False);
          u = (case t of c # cs \<Rightarrow> if c = CHR ''-'' \<or> c = CHR ''+'' then cs else t | [] \<Rightarrow> t) in
      case u of [] \<Rightarrow> None
      | c # _ \<Rightarrow> if c_isdigit c then (case read_digits 0 u of (v, rest) \<Rightarrow> Some (neg, v, rest)) else None)"

text \<open>\<^verbatim>\<open>strtol\<close> on a 64-bit \<^verbatim>\<open>long\<close>: \<open>None\<close> when \<^verbatim>\<open>end\<close> stays at the start of the string.\<close>

definition strtol :: "string \<Rightarrow> (int \<times> string) option" where
  "strtol s = map_option (\<lambda>(neg, v, rest). (if neg then max (- (2 ^ 63)) (- v) else min (2 ^ 63 - 1) v, rest)) (read_number s)"

text \<open>\<^verbatim>\<open>strtoull\<close>: the value, the rest of the string and whether \<^verbatim>\<open>errno\<close> is set.\<close>

definition strtoull :: "string \<Rightarrow> 64 word \<times> string \<times> bool" where
  "strtoull s = (case read_number s of
      None \<Rightarrow> (0, s, False)
    | Some (neg, v, rest) \<Rightarrow>
        if v \<ge> 2 ^ 64 then (-1, rest, True) else (if neg then - word_of_int v else word_of_int v, rest, False))"

definition int_of_long :: "int \<Rightarrow> int" where
  "int_of_long v = int_of_u32 (u32_of_int v)"

text \<open>\<^verbatim>\<open>sscanf\<close>: the conversions \<^verbatim>\<open>%d\<close> and \<^verbatim>\<open>%s\<close>.\<close>

definition scan_int :: "string \<Rightarrow> (int \<times> string) option" where
  "scan_int s = map_option (\<lambda>(v, rest). (int_of_long v, rest)) (strtol s)"

definition scan_word :: "string \<Rightarrow> (string \<times> string) option" where
  "scan_word s = (let t = dropWhile c_isspace s; w = takeWhile (\<lambda>c. \<not> c_isspace c) t in
     if w = [] then None else Some (w, drop (length w) t))"

text \<open>\<^verbatim>\<open>fgets\<close> into a buffer of \<open>n + 1\<close> characters: at most \<open>n\<close>, up to and including a newline.\<close>

fun fgets :: "nat \<Rightarrow> string \<Rightarrow> string \<times> string" where
  "fgets 0 s = ([], s)"
| "fgets (Suc n) [] = ([], [])"
| "fgets (Suc n) (c # cs) =
     (if c = CHR 0x0A then ([c], cs) else (case fgets n cs of (l, rest) \<Rightarrow> (c # l, rest)))"

section \<open>Printing numbers\<close>

text \<open>The conversion \<^verbatim>\<open>%d\<close> of \<^verbatim>\<open>printf\<close>.\<close>

definition digit :: "nat \<Rightarrow> char" where
  "digit k = char_of (48 + int k)"

function show_nat :: "nat \<Rightarrow> string" where
  "show_nat n = (if n < 10 then [digit n] else show_nat (n div 10) @ [digit (n mod 10)])"
  by pat_completeness auto
termination
  by (relation "measure id") auto

declare show_nat.simps [simp del]

definition show_int :: "int \<Rightarrow> string" where
  "show_int n = (if n < 0 then CHR ''-'' # show_nat (nat (- n)) else show_nat (nat n))"

lemma digit_props:
  assumes "k < 10"
  shows "c_isdigit (digit k)" "\<not> c_isspace (digit k)" "(of_char (digit k) :: int) = 48 + int k" "digit k \<noteq> CHR ''-''" "digit k \<noteq> CHR ''+''"
    "digit k \<noteq> CHR '' ''"
proof -
  show d: "(of_char (digit k) :: int) = 48 + int k"
    using assms by (simp add: digit_def)
  then show "c_isdigit (digit k)" "\<not> c_isspace (digit k)" "digit k \<noteq> CHR ''-''" "digit k \<noteq> CHR ''+''" "digit k \<noteq> CHR '' ''"
    using assms by (auto simp: c_isdigit_def c_isspace_def)
qed

definition digits_value :: "int \<Rightarrow> string \<Rightarrow> int" where
  "digits_value acc ds = foldl (\<lambda>a c. a * 10 + (of_char c - 48)) acc ds"

lemma read_digits_append:
  assumes "\<forall>c \<in> set ds. c_isdigit c" "rest = [] \<or> \<not> c_isdigit (hd rest)"
  shows "read_digits acc (ds @ rest) = (digits_value acc ds, rest)"
  using assms
proof (induction ds arbitrary: acc)
  case Nil
  then show ?case by (cases rest) (auto simp: digits_value_def)
qed (simp add: digits_value_def)

lemma show_nat_digits: "(\<forall>c \<in> set (show_nat n). c_isdigit c \<and> \<not> c_isspace c \<and> c \<noteq> CHR ''-'' \<and> c \<noteq> CHR ''+'') \<and> show_nat n \<noteq> [] \<and>
    digits_value 0 (show_nat n) = int n"
proof (induction n rule: show_nat.induct)
  case (1 n)
  show ?case
  proof (cases "n < 10")
    case True
    then show ?thesis using digit_props[of n] by (simp add: show_nat.simps[of n] digits_value_def)
  next
    case False
    have "n mod 10 < 10" by simp
    note d = digit_props[OF this]
    have "int (n div 10) * 10 + int (n mod 10) = int n" by (metis div_mult_mod_eq of_nat_add of_nat_mult of_nat_numeral)
    with 1[OF False] d False show ?thesis by (auto simp: show_nat.simps[of n] digits_value_def)
  qed
qed

lemma int_of_long_id: "- (2 ^ 31) \<le> v \<Longrightarrow> v < 2 ^ 31 \<Longrightarrow> int_of_long v = v"
  by (simp add: int_of_long_def int_of_u32_def u32_of_int_def signed_of_int signed_take_bit_int_eq_self)

definition int_range :: "int \<Rightarrow> bool" where
  "int_range v \<longleftrightarrow> - (2 ^ 31) \<le> v \<and> v < 2 ^ 31"

definition ends_number :: "string \<Rightarrow> bool" where
  "ends_number rest \<longleftrightarrow> rest = [] \<or> \<not> c_isdigit (hd rest)"

lemma read_number_show:
  assumes "ends_number rest"
  shows "read_number (show_int n @ rest) = Some (n < 0, \<bar>n\<bar>, rest)"
proof -
  note s = show_nat_digits[of "nat \<bar>n\<bar>"]
  obtain c cs where c: "show_nat (nat \<bar>n\<bar>) = c # cs" "c_isdigit c" "\<not> c_isspace c" "c \<noteq> CHR ''-''" "c \<noteq> CHR ''+''"
    using s by (cases "show_nat (nat \<bar>n\<bar>)") auto
  have r: "read_digits 0 (show_nat (nat \<bar>n\<bar>) @ rest) = (\<bar>n\<bar>, rest)"
    using read_digits_append[of "show_nat (nat \<bar>n\<bar>)" rest 0] s assms by (auto simp: ends_number_def)
  have m: "\<not> c_isspace (CHR ''-'')" by (simp add: c_isspace_def)
  show ?thesis
  proof (cases "n < 0")
    case True
    then have "show_int n = CHR ''-'' # c # cs" using c(1) by (simp add: show_int_def)
    then show ?thesis using True c r m by (simp add: read_number_def)
  next
    case False
    then have "show_int n = c # cs" using c(1) by (simp add: show_int_def)
    then show ?thesis using False c r by (simp add: read_number_def)
  qed
qed

lemma scan_int_show:
  assumes "int_range n" "ends_number rest"
  shows "scan_int (show_int n @ rest) = Some (n, rest)"
  using assms read_number_show[OF assms(2), of n]
  by (auto simp: scan_int_def strtol_def int_range_def int_of_long_id)

lemma scan_skip_space: "c_isspace c \<Longrightarrow> scan_int (c # s) = scan_int s" "c_isspace c \<Longrightarrow> scan_word (c # s) = scan_word s"
  by (simp_all add: scan_int_def strtol_def read_number_def scan_word_def)

lemma show_int_props: "show_int n \<noteq> []" "\<forall>c \<in> set (show_int n). \<not> c_isspace c"
  using show_nat_digits[of "nat n"] show_nat_digits[of "nat (- n)"] by (auto simp: show_int_def c_isspace_def)

lemma show_int_inj: "show_int i = show_int j \<Longrightarrow> i = j"
  using read_number_show[of "[]" i] read_number_show[of "[]" j] by (auto simp: ends_number_def)

lemma show_nat_length: "n < 10 ^ k \<Longrightarrow> 0 < k \<Longrightarrow> length (show_nat n) \<le> k"
proof (induction k arbitrary: n)
  case (Suc k)
  then show ?case
  proof (cases "n < 10")
    case False
    then have "n div 10 < 10 ^ k" using Suc.prems by (simp add: less_mult_imp_div_less mult.commute)
    moreover have "0 < k" using False Suc.prems by (cases k) simp_all
    ultimately show ?thesis using Suc.IH False by (simp add: show_nat.simps[of n])
  qed (simp add: show_nat.simps[of n])
qed simp

lemma show_int_length:
  assumes "- (2 ^ 31) \<le> i" "i < 2 ^ 31"
  shows "length (show_int i) \<le> 11"
proof -
  have "nat i < 10 ^ 10" "nat (- i) < 10 ^ 10" using assms by simp_all
  then have "length (show_nat (nat i)) \<le> 10" "length (show_nat (nat (- i))) \<le> 10" by (intro show_nat_length; simp)+
  then show ?thesis by (simp add: show_int_def)
qed

end
