(* ===== verification/Storage_Lmdb.thy ===== *)
theory Storage_Lmdb
  imports Storage_Utils C_Library
begin

text \<open>
  \<^verbatim>\<open>paxos/storage_lmdb.c\<close>, the backend that keeps the records in an LMDB database. The LMDB library and the file
  system are parameters (\<open>mdb\<close> and \<open>posix\<close>) that act on a state \<open>'w\<close>; \<open>mdb_laws\<close> states what the LMDB
  documentation promises of the calls used here. \<^verbatim>\<open>lmdb_storage_put\<close> is not modelled: it names a field
  \<^verbatim>\<open>acc->value\<close> that \<^verbatim>\<open>paxos_accepted\<close> does not have, so it has no meaning; the part of it that has one is
  \<open>paxos_accepted_to_buffer\<close>.
\<close>

section \<open>The library\<close>

text \<open>
  A pointer to an object of the library is an option, NULL is \<open>None\<close>; \<open>'e\<close>, \<open>'t\<close> and \<open>'c\<close> are environments,
  transactions and cursors. A call returns its code, what it writes through pointers and the new state.
\<close>

record ('w, 'e, 't, 'c) mdb =
  mdb_env_create :: "'w \<Rightarrow> int \<times> 'e option \<times> 'w"
  mdb_env_set_mapsize :: "'e option \<Rightarrow> int \<Rightarrow> 'w \<Rightarrow> int \<times> 'w"
  mdb_env_open :: "'e option \<Rightarrow> string \<Rightarrow> bool \<Rightarrow> 'w \<Rightarrow> int \<times> 'w"
  mdb_env_close :: "'e option \<Rightarrow> 'w \<Rightarrow> 'w"
  mdb_txn_begin :: "'e option \<Rightarrow> 'w \<Rightarrow> int \<times> 't option \<times> 'w"
  mdb_txn_commit :: "'t option \<Rightarrow> 'w \<Rightarrow> int \<times> 'w"
  mdb_txn_abort :: "'t option \<Rightarrow> 'w \<Rightarrow> 'w"
  mdb_open :: "'t option \<Rightarrow> 'w \<Rightarrow> int \<times> u32 \<times> 'w"
  mdb_set_compare :: "'t option \<Rightarrow> u32 \<Rightarrow> (u8 list \<Rightarrow> u8 list \<Rightarrow> int res) \<Rightarrow> 'w \<Rightarrow> int \<times> 'w"
  mdb_close :: "'e option \<Rightarrow> u32 \<Rightarrow> 'w \<Rightarrow> 'w"
  mdb_get :: "'t option \<Rightarrow> u32 \<Rightarrow> u8 list \<Rightarrow> 'w \<Rightarrow> int \<times> u8 list"
  mdb_put :: "'t option \<Rightarrow> u32 \<Rightarrow> u8 list \<Rightarrow> u8 list \<Rightarrow> 'w \<Rightarrow> int \<times> 'w"
  mdb_cursor_open :: "'t option \<Rightarrow> u32 \<Rightarrow> 'w \<Rightarrow> int \<times> 'c option \<times> 'w"
  mdb_cursor_next :: "'c option \<Rightarrow> 'w \<Rightarrow> (int \<times> u8 list \<times> u8 list) \<times> 'w"
  mdb_cursor_del :: "'c option \<Rightarrow> 'w \<Rightarrow> int \<times> 'w"
  mdb_cursor_close :: "'c option \<Rightarrow> 'w \<Rightarrow> 'w"

record 'w posix =
  px_system :: "string \<Rightarrow> 'w \<Rightarrow> 'w"
  px_stat :: "string \<Rightarrow> 'w \<Rightarrow> int"
  px_mkdir :: "string \<Rightarrow> 'w \<Rightarrow> int \<times> 'w"

definition MDB_NOTFOUND :: int where
  "MDB_NOTFOUND = -30798"

section \<open>Opening and closing\<close>

record ('e, 't) lmdb_storage =
  ls_env :: "'e option"
  ls_txn :: "'t option"
  ls_dbi :: u32
  ls_acceptor_id :: int

definition lmdb_compare_iid :: "c_layout \<Rightarrow> u8 list \<Rightarrow> u8 list \<Rightarrow> int res" where
  "lmdb_compare_iid L lhs rhs =
     cassert (length lhs = 4) (cassert (length rhs = 4)
       (let lid = ly_u32_of L lhs; rid = ly_u32_of L rhs in
        Inr (if lid = rid then 0 else if lid < rid then -1 else 1)))"

text \<open>The label \<^verbatim>\<open>error\<close> of \<^verbatim>\<open>lmdb_storage_init\<close>.\<close>

definition lmdb_init_error :: "('w, 'e, 't, 'c) mdb \<Rightarrow> 'e option \<Rightarrow> 't option \<Rightarrow> u32 \<Rightarrow> 'w \<Rightarrow> 'w" where
  "lmdb_init_error m env txn dbi w =
     (let w = (if txn \<noteq> None then mdb_txn_abort m txn w else w);
          w = (if dbi \<noteq> 0 then mdb_close m env dbi w else w)
      in if env \<noteq> None then mdb_env_close m env w else w)"

definition lmdb_storage_init ::
  "('w, 'e, 't, 'c) mdb \<Rightarrow> c_layout \<Rightarrow> paxos_config \<Rightarrow> ('e, 't) lmdb_storage \<Rightarrow> string \<Rightarrow> 'w \<Rightarrow> int \<times> ('e, 't) lmdb_storage \<times> 'w" where
  "lmdb_storage_init m L cfg s path w =
     (case mdb_env_create m w of (rc, env, w) \<Rightarrow>
      if rc \<noteq> 0 then (-1, s, lmdb_init_error m env None 0 w) else
      case mdb_env_set_mapsize m env (lmdb_mapsize cfg) w of (rc, w) \<Rightarrow>
      if rc \<noteq> 0 then (-1, s, lmdb_init_error m env None 0 w) else
      case mdb_env_open m env path (lmdb_sync cfg = 0) w of (rc, w) \<Rightarrow>
      if rc \<noteq> 0 then (-1, s, lmdb_init_error m env None 0 w) else
      case mdb_txn_begin m env w of (rc, txn, w) \<Rightarrow>
      if rc \<noteq> 0 then (-1, s, lmdb_init_error m env txn 0 w) else
      case mdb_open m txn w of (rc, dbi, w) \<Rightarrow>
      if rc \<noteq> 0 then (-1, s, lmdb_init_error m env txn dbi w) else
      case mdb_set_compare m txn dbi (lmdb_compare_iid L) w of (rc, w) \<Rightarrow>
      if rc \<noteq> 0 then (-1, s, lmdb_init_error m env txn dbi w) else
      case mdb_txn_commit m txn w of (rc, w) \<Rightarrow>
      if rc \<noteq> 0 then (-1, s, lmdb_init_error m env txn dbi w)
      else (0, s\<lparr>ls_env := env, ls_dbi := dbi\<rparr>, w))"

definition lmdb_storage_new :: "int \<Rightarrow> ('e, 't) lmdb_storage" where
  "lmdb_storage_new acceptor_id = \<lparr>ls_env = None, ls_txn = None, ls_dbi = 0, ls_acceptor_id = acceptor_id\<rparr>"

definition lmdb_storage_close :: "('w, 'e, 't, 'c) mdb \<Rightarrow> ('e, 't) lmdb_storage \<Rightarrow> 'w \<Rightarrow> 'w" where
  "lmdb_storage_close m s w =
     (let w = (if ls_txn s \<noteq> None then mdb_txn_abort m (ls_txn s) w else w);
          w = (if ls_dbi s \<noteq> 0 then mdb_close m (ls_env s) (ls_dbi s) w else w)
      in if ls_env s \<noteq> None then mdb_env_close m (ls_env s) w else w)"

text \<open>\<^verbatim>\<open>snprintf\<close> into a buffer of \<open>strlen(lmdb_env_path) + 16\<close> bytes, one of them for the terminator.\<close>

definition lmdb_path :: "paxos_config \<Rightarrow> int \<Rightarrow> string" where
  "lmdb_path cfg aid = take (length (lmdb_env_path cfg) + 15) (lmdb_env_path cfg @ ''_'' @ show_int aid)"

text \<open>
  \<^verbatim>\<open>lmdb_storage_open\<close>. The command of \<^verbatim>\<open>trash_files\<close> is printed into 600 bytes without a check. After a failure
  the handle is closed and freed (\<open>None\<close>); the code of a failing \<^verbatim>\<open>lmdb_storage_init\<close> becomes the truth
  value 1 (the comparison binds stronger than the assignment).
\<close>

definition lmdb_storage_open ::
  "('w, 'e, 't, 'c) mdb \<Rightarrow> 'w posix \<Rightarrow> c_layout \<Rightarrow> paxos_config \<Rightarrow> ('e, 't) lmdb_storage \<Rightarrow> 'w \<Rightarrow>
     (int \<times> ('e, 't) lmdb_storage option \<times> 'w) res" where
  "lmdb_storage_open m px L cfg s w =
     (let path = lmdb_path cfg (ls_acceptor_id s); rm = ''rm -r '' @ path in
      bind_res (if trash_files cfg = 0 then Inr w
                else if length rm + 1 \<le> 600 then Inr (px_system px rm w) else Inl OutOfBounds) (\<lambda>w.
      let dir_exists = (px_stat px path w = 0);
          (rc, w) = (if dir_exists then (0, w) else px_mkdir px path w) in
      if rc \<noteq> 0 then Inr (-1, None, lmdb_storage_close m s w)
      else case lmdb_storage_init m L cfg s path w of (rc, s, w) \<Rightarrow>
           if rc \<noteq> 0 then Inr (1, None, lmdb_storage_close m s w)
           else Inr (0, Some s, w)))"

section \<open>Transactions\<close>

definition lmdb_storage_tx_begin :: "('w, 'e, 't, 'c) mdb \<Rightarrow> ('e, 't) lmdb_storage \<Rightarrow> 'w \<Rightarrow> (int \<times> ('e, 't) lmdb_storage \<times> 'w) res" where
  "lmdb_storage_tx_begin m s w =
     cassert (ls_txn s = None) (case mdb_txn_begin m (ls_env s) w of (rc, txn, w) \<Rightarrow> Inr (rc, s\<lparr>ls_txn := txn\<rparr>, w))"

definition lmdb_storage_tx_commit :: "('w, 'e, 't, 'c) mdb \<Rightarrow> ('e, 't) lmdb_storage \<Rightarrow> 'w \<Rightarrow> (int \<times> ('e, 't) lmdb_storage \<times> 'w) res" where
  "lmdb_storage_tx_commit m s w =
     cassert (ls_txn s \<noteq> None) (case mdb_txn_commit m (ls_txn s) w of (rc, w) \<Rightarrow> Inr (rc, s\<lparr>ls_txn := None\<rparr>, w))"

definition lmdb_storage_tx_abort :: "('w, 'e, 't, 'c) mdb \<Rightarrow> ('e, 't) lmdb_storage \<Rightarrow> 'w \<Rightarrow> ('e, 't) lmdb_storage \<times> 'w" where
  "lmdb_storage_tx_abort m s w =
     (if ls_txn s \<noteq> None then (s\<lparr>ls_txn := None\<rparr>, mdb_txn_abort m (ls_txn s) w) else (s, w))"

section \<open>Records\<close>

definition lmdb_storage_get ::
  "('w, 'e, 't, 'c) mdb \<Rightarrow> c_layout \<Rightarrow> ('e, 't) lmdb_storage \<Rightarrow> iid_t \<Rightarrow> paxos_accepted \<Rightarrow> 'w \<Rightarrow> (int \<times> paxos_accepted) res" where
  "lmdb_storage_get m L s iid out w =
     (case mdb_get m (ls_txn s) (ls_dbi s) (ly_u32 L iid) w of (rc, data) \<Rightarrow>
      if rc \<noteq> 0 then Inr (0, out)
      else bind_res (paxos_accepted_from_buffer L data) (\<lambda>out. cassert (iid = ac_iid out) (Inr (1, out))))"

text \<open>The trimmed instance is the record with key 0.\<close>

definition lmdb_storage_get_trim_instance ::
  "('w, 'e, 't, 'c) mdb \<Rightarrow> c_layout \<Rightarrow> ('e, 't) lmdb_storage \<Rightarrow> 'w \<Rightarrow> iid_t res" where
  "lmdb_storage_get_trim_instance m L s w =
     (case mdb_get m (ls_txn s) (ls_dbi s) (ly_u32 L 0) w of (rc, data) \<Rightarrow>
      if rc \<noteq> 0 then cassert (rc = MDB_NOTFOUND) (Inr 0)
      else bind_res (mem_slice data 0 4) (\<lambda>bs. Inr (ly_u32_of L bs)))"

definition lmdb_storage_put_trim_instance ::
  "('w, 'e, 't, 'c) mdb \<Rightarrow> c_layout \<Rightarrow> ('e, 't) lmdb_storage \<Rightarrow> iid_t \<Rightarrow> 'w \<Rightarrow> (int \<times> 'w) res" where
  "lmdb_storage_put_trim_instance m L s iid w =
     (case mdb_put m (ls_txn s) (ls_dbi s) (ly_u32 L 0) (ly_u32 L iid) w of (rc, w) \<Rightarrow> cassert (rc = 0) (Inr (0, w)))"

text \<open>
  The loop of \<^verbatim>\<open>lmdb_storage_trim\<close>: it ends when the cursor does, when a deletion fails or when a key is above
  \<open>iid\<close>. Whether the cursor ever ends is up to the library, so not returning is the value \<open>None\<close>.
\<close>

partial_function (option) trim_loop ::
  "('w, 'e, 't, 'c) mdb \<Rightarrow> c_layout \<Rightarrow> 'c option \<Rightarrow> iid_t \<Rightarrow> 'w \<Rightarrow> 'w res option" where
  "trim_loop m L cursor iid w =
     (case mdb_cursor_next m cursor w of ((rc, key, data), w) \<Rightarrow>
      if rc \<noteq> 0 then Some (Inr w)
      else (case mem_slice key 0 4 of
          Inl e \<Rightarrow> Some (Inl e)
        | Inr kb \<Rightarrow>
            (case (if ly_u32_of L kb \<noteq> 0 \<and> ly_u32_of L kb \<le> iid then mdb_cursor_del m cursor w else (0, w)) of (rd, w) \<Rightarrow>
             if rd \<noteq> 0 then Some (Inr w)
             else if ly_u32_of L kb \<le> iid then trim_loop m L cursor iid w
             else Some (Inr w))))"

definition lmdb_storage_trim ::
  "('w, 'e, 't, 'c) mdb \<Rightarrow> c_layout \<Rightarrow> ('e, 't) lmdb_storage \<Rightarrow> iid_t \<Rightarrow> 'w \<Rightarrow> (int \<times> 'w) res option" where
  "lmdb_storage_trim m L s iid w =
     (if iid = 0 then Some (Inr (0, w))
      else case lmdb_storage_put_trim_instance m L s iid w of
          Inl e \<Rightarrow> Some (Inl e)
        | Inr (_, w) \<Rightarrow>
            (case mdb_cursor_open m (ls_txn s) (ls_dbi s) w of (rc, cursor, w) \<Rightarrow>
             Option.bind (if rc \<noteq> 0 then Some (Inr w) else trim_loop m L cursor iid w) (\<lambda>r.
             Some (bind_res r (\<lambda>w. Inr (0, if cursor \<noteq> None then mdb_cursor_close m cursor w else w))))))"

section \<open>The directory of an acceptor\<close>

text \<open>The buffer for the path is large enough for every \<^verbatim>\<open>int\<close>.\<close>

lemma lmdb_path_complete:
  assumes "- (2 ^ 31) \<le> aid" "aid < 2 ^ 31"
  shows "lmdb_path cfg aid = lmdb_env_path cfg @ ''_'' @ show_int aid"
proof -
  have "length (show_int aid) \<le> 11" using assms by (intro show_int_length) simp_all
  then show ?thesis by (simp add: lmdb_path_def)
qed

lemma lmdb_paths_apart:
  assumes "- (2 ^ 31) \<le> i" "i < 2 ^ 31" "- (2 ^ 31) \<le> j" "j < 2 ^ 31" "i \<noteq> j"
  shows "lmdb_path cfg i \<noteq> lmdb_path cfg j"
  using assms show_int_inj by (auto simp: lmdb_path_complete)

section \<open>What the library promises\<close>

text \<open>
  \<open>vw_live\<close>: the transaction of the handle is open and no call of it failed; \<open>vw_recs\<close>: the records the
  transaction sees; \<open>vw_pos\<close>: the key a cursor read last.
\<close>

record ('w, 'c) mdb_view =
  vw_live :: "'w \<Rightarrow> bool"
  vw_recs :: "'w \<Rightarrow> iid_t \<Rightarrow> u8 list option"
  vw_pos :: "'w \<Rightarrow> 'c option \<Rightarrow> iid_t option"

text \<open>The keys after the position of the cursor.\<close>

definition keys_ahead :: "('w, 'c) mdb_view \<Rightarrow> 'c option \<Rightarrow> 'w \<Rightarrow> iid_t set" where
  "keys_ahead V c w = {k \<in> dom (vw_recs V w). \<forall>p. vw_pos V w c = Some p \<longrightarrow> p < k}"

text \<open>
  The documented behaviour of the calls: \<^verbatim>\<open>mdb_get\<close> finds what is stored, a successful \<^verbatim>\<open>mdb_put\<close> stores, a
  fresh cursor has no position, \<^verbatim>\<open>MDB_NEXT\<close> moves to the next key in the order of the comparison function
  (\<open>lmdb_compare_iid\<close>, the order of the instance numbers) or reports \<^verbatim>\<open>MDB_NOTFOUND\<close>, and a successful
  \<^verbatim>\<open>mdb_cursor_del\<close> removes the record the cursor is at.
\<close>

definition law_get :: "c_layout \<Rightarrow> ('w, 'e, 't, 'c) mdb \<Rightarrow> ('w, 'c) mdb_view \<Rightarrow> 't option \<Rightarrow> u32 \<Rightarrow> bool" where
  "law_get L m V t d \<longleftrightarrow> (\<forall>w k. vw_live V w \<longrightarrow> (case vw_recs V w k of
      None \<Rightarrow> fst (mdb_get m t d (ly_u32 L k) w) = MDB_NOTFOUND
    | Some x \<Rightarrow> mdb_get m t d (ly_u32 L k) w = (0, x)))"

definition law_put :: "c_layout \<Rightarrow> ('w, 'e, 't, 'c) mdb \<Rightarrow> ('w, 'c) mdb_view \<Rightarrow> 't option \<Rightarrow> u32 \<Rightarrow> bool" where
  "law_put L m V t d \<longleftrightarrow> (\<forall>w k x w'. vw_live V w \<longrightarrow> mdb_put m t d (ly_u32 L k) x w = (0, w') \<longrightarrow>
     vw_live V w' \<and> vw_recs V w' = (vw_recs V w)(k \<mapsto> x))"

definition law_open :: "('w, 'e, 't, 'c) mdb \<Rightarrow> ('w, 'c) mdb_view \<Rightarrow> 't option \<Rightarrow> u32 \<Rightarrow> bool" where
  "law_open m V t d \<longleftrightarrow> (\<forall>w c w'. vw_live V w \<longrightarrow> mdb_cursor_open m t d w = (0, c, w') \<longrightarrow>
     c \<noteq> None \<and> vw_live V w' \<and> vw_recs V w' = vw_recs V w \<and> vw_pos V w' c = None)"

definition law_next :: "c_layout \<Rightarrow> ('w, 'e, 't, 'c) mdb \<Rightarrow> ('w, 'c) mdb_view \<Rightarrow> bool" where
  "law_next L m V \<longleftrightarrow> (\<forall>w c rc key data w'. vw_live V w \<longrightarrow> mdb_cursor_next m c w = ((rc, key, data), w') \<longrightarrow>
     vw_live V w' \<and> vw_recs V w' = vw_recs V w \<and>
     (if keys_ahead V c w = {} then rc = MDB_NOTFOUND
      else rc = 0 \<and> key = ly_u32 L (Min (keys_ahead V c w)) \<and> vw_pos V w' c = Some (Min (keys_ahead V c w))))"

definition law_del :: "('w, 'e, 't, 'c) mdb \<Rightarrow> ('w, 'c) mdb_view \<Rightarrow> bool" where
  "law_del m V \<longleftrightarrow> (\<forall>w c p w'. vw_live V w \<longrightarrow> vw_pos V w c = Some p \<longrightarrow> p \<in> dom (vw_recs V w) \<longrightarrow>
     mdb_cursor_del m c w = (0, w') \<longrightarrow> vw_live V w' \<and> vw_recs V w' = (vw_recs V w)(p := None) \<and> vw_pos V w' c = Some p)"

definition law_close :: "('w, 'e, 't, 'c) mdb \<Rightarrow> ('w, 'c) mdb_view \<Rightarrow> bool" where
  "law_close m V \<longleftrightarrow> (\<forall>w c. vw_live V w \<longrightarrow>
     vw_live V (mdb_cursor_close m c w) \<and> vw_recs V (mdb_cursor_close m c w) = vw_recs V w)"

definition mdb_laws :: "c_layout \<Rightarrow> ('w, 'e, 't, 'c) mdb \<Rightarrow> ('w, 'c) mdb_view \<Rightarrow> 't option \<Rightarrow> u32 \<Rightarrow> bool" where
  "mdb_laws L m V t d \<longleftrightarrow>
     law_get L m V t d \<and> law_put L m V t d \<and> law_open m V t d \<and> law_next L m V \<and> law_del m V \<and> law_close m V"

text \<open>The database has room: no call fails with \<^verbatim>\<open>MDB_MAP_FULL\<close> or for lack of memory.\<close>

definition mdb_room :: "('w, 'e, 't, 'c) mdb \<Rightarrow> ('w, 'c) mdb_view \<Rightarrow> 't option \<Rightarrow> u32 \<Rightarrow> bool" where
  "mdb_room m V t d \<longleftrightarrow> (\<forall>w. vw_live V w \<longrightarrow>
     (\<forall>k x. fst (mdb_put m t d k x w) = 0) \<and> fst (mdb_cursor_open m t d w) = 0 \<and>
     (\<forall>c. vw_pos V w c \<noteq> None \<longrightarrow> fst (mdb_cursor_del m c w) = 0))"

lemma mdb_lawsD:
  assumes "mdb_laws L m V t d"
  shows "law_get L m V t d" "law_put L m V t d" "law_open m V t d" "law_next L m V" "law_del m V" "law_close m V"
  using assms by (simp_all add: mdb_laws_def)

text \<open>The comparison function orders the keys as the instance numbers.\<close>

lemma lmdb_compare_iid_order:
  assumes "layout_ok L"
  shows "lmdb_compare_iid L (ly_u32 L a) (ly_u32 L b) = Inr (if a = b then 0 else if a < b then -1 else 1)"
  using assms by (simp add: lmdb_compare_iid_def)

section \<open>Trimming\<close>

text \<open>What the loop leaves: the keys ahead of the cursor up to \<open>iid\<close> are gone, key 0 apart.\<close>

definition cut_ahead :: "('w, 'c) mdb_view \<Rightarrow> 'c option \<Rightarrow> iid_t \<Rightarrow> 'w \<Rightarrow> iid_t \<Rightarrow> u8 list option" where
  "cut_ahead V c iid w k = (if k \<noteq> 0 \<and> k \<le> iid \<and> k \<in> keys_ahead V c w then None else vw_recs V w k)"

lemma keys_ahead_next:
  assumes "keys_ahead V c w \<noteq> {}" "k = Min (keys_ahead V c w)" "vw_pos V w' c = Some k"
    and "vw_recs V w' = vw_recs V w \<or> vw_recs V w' = (vw_recs V w)(k := None)"
  shows "keys_ahead V c w' = keys_ahead V c w - {k}"
proof -
  have k: "k \<in> keys_ahead V c w" "\<And>j. j \<in> keys_ahead V c w \<Longrightarrow> k \<le> j" using assms(1,2) by (auto intro: Min_in)
  then have p: "vw_pos V w c = Some p \<Longrightarrow> p < k" for p by (auto simp: keys_ahead_def)
  have "j \<in> keys_ahead V c w \<longleftrightarrow> k \<le> j \<and> j \<in> dom (vw_recs V w)" for j
    using k p by (fastforce simp: keys_ahead_def)
  moreover have "j \<in> keys_ahead V c w' \<longleftrightarrow> k < j \<and> j \<in> dom (vw_recs V w)" for j
    using assms(3,4) by (auto simp: keys_ahead_def split: if_splits)
  ultimately show ?thesis by auto
qed

text \<open>One round of the loop while there are keys ahead, and the last one.\<close>

lemma trim_loop_round:
  assumes L: "layout_ok L" and m: "mdb_laws L m V t d" "mdb_room m V t d" and w: "vw_live V w" "keys_ahead V c w \<noteq> {}"
    and k: "k = Min (keys_ahead V c w)"
  shows "\<exists>w2. trim_loop m L c iid w = (if k \<le> iid then trim_loop m L c iid w2 else Some (Inr w2)) \<and>
     vw_live V w2 \<and> vw_pos V w2 c = Some k \<and>
     vw_recs V w2 = (if k \<noteq> 0 \<and> k \<le> iid then (vw_recs V w)(k := None) else vw_recs V w)"
proof -
  obtain rc key data w1 where n: "mdb_cursor_next m c w = ((rc, key, data), w1)" by (metis prod.exhaust)
  then have n': "vw_live V w1" "vw_recs V w1 = vw_recs V w" "rc = 0" "key = ly_u32 L k" "vw_pos V w1 c = Some k"
    using mdb_lawsD(4)[OF m(1)] w k unfolding law_next_def by presburger+
  have "k \<in> keys_ahead V c w" using w(2) k by (simp add: Min_in)
  then have in_dom: "k \<in> dom (vw_recs V w1)" using n'(2) by (simp add: keys_ahead_def)
  have slice: "mem_slice key 0 4 = Inr (ly_u32 L k)" using mem_slice_at[of "[]" 0 "ly_u32 L k" 4 "[]"] L n'(4) by simp
  show ?thesis
  proof (cases "k \<noteq> 0 \<and> k \<le> iid")
    case True
    obtain w2 where d: "mdb_cursor_del m c w1 = (0, w2)"
      using m(2) n'(1,5) unfolding mdb_room_def by (metis option.distinct(1) prod.collapse)
    then have "vw_live V w2 \<and> vw_recs V w2 = (vw_recs V w1)(k := None) \<and> vw_pos V w2 c = Some k"
      using mdb_lawsD(5)[OF m(1)] n'(1,5) in_dom unfolding law_del_def by blast
    moreover have "trim_loop m L c iid w = trim_loop m L c iid w2"
      using n n'(3) slice d True L by (subst trim_loop.simps) simp
    ultimately show ?thesis using True n'(2) by auto
  next
    case False
    then have "trim_loop m L c iid w = (if k \<le> iid then trim_loop m L c iid w1 else Some (Inr w1))"
      using n n'(3) slice L by (subst trim_loop.simps) auto
    then show ?thesis using n' False by auto
  qed
qed

lemma trim_loop_end:
  assumes m: "mdb_laws L m V t d" and w: "vw_live V w" "keys_ahead V c w = {}"
  shows "\<exists>w'. trim_loop m L c iid w = Some (Inr w') \<and> vw_live V w' \<and> vw_recs V w' = vw_recs V w"
proof -
  obtain rc key data w1 where n: "mdb_cursor_next m c w = ((rc, key, data), w1)" by (metis prod.exhaust)
  then have "vw_live V w1" "vw_recs V w1 = vw_recs V w" "rc = MDB_NOTFOUND"
    using mdb_lawsD(4)[OF m] w unfolding law_next_def by presburger+
  then show ?thesis using n by (subst trim_loop.simps) (simp add: MDB_NOTFOUND_def)
qed

lemma trim_loop_ends:
  assumes L: "layout_ok L" and m: "mdb_laws L m V t d" "mdb_room m V t d" and "vw_live V w"
  shows "\<exists>w'. trim_loop m L c iid w = Some (Inr w') \<and> vw_live V w' \<and> vw_recs V w' = cut_ahead V c iid w"
  using assms(4)
proof (induction "card (keys_ahead V c w)" arbitrary: w rule: less_induct)
  case less
  show ?case
  proof (cases "keys_ahead V c w = {}")
    case True
    then have "cut_ahead V c iid w = vw_recs V w" by (auto simp: cut_ahead_def)
    then show ?thesis using trim_loop_end[OF m(1) less.prems True] by simp
  next
    case False
    let ?k = "Min (keys_ahead V c w)"
    have k: "?k \<in> keys_ahead V c w" using False by (simp add: Min_in)
    obtain w2 where w2: "trim_loop m L c iid w = (if ?k \<le> iid then trim_loop m L c iid w2 else Some (Inr w2))"
      "vw_live V w2" "vw_pos V w2 c = Some ?k"
      "vw_recs V w2 = (if ?k \<noteq> 0 \<and> ?k \<le> iid then (vw_recs V w)(?k := None) else vw_recs V w)"
      using trim_loop_round[OF L m less.prems False refl] by blast
    have ahead: "keys_ahead V c w2 = keys_ahead V c w - {?k}" using keys_ahead_next[OF False refl w2(3)] w2(4) by presburger
    show ?thesis
    proof (cases "?k \<le> iid")
      case True
      have "card (keys_ahead V c w2) < card (keys_ahead V c w)" unfolding ahead using k by (intro card_Diff1_less) simp_all
      from less.hyps[OF this w2(2)] obtain w' where w': "trim_loop m L c iid w2 = Some (Inr w')" "vw_live V w'"
        "vw_recs V w' = cut_ahead V c iid w2" by blast
      have "cut_ahead V c iid w2 j = cut_ahead V c iid w j" for j
        unfolding cut_ahead_def ahead w2(4) using True k by (cases "j = ?k") simp_all
      then show ?thesis using w' w2(1) True by (metis ext)
    next
      case False
      have "j \<in> keys_ahead V c w \<Longrightarrow> \<not> j \<le> iid" for j using False Min_le[OF finite, of j "keys_ahead V c w"] order_trans by blast
      then have "cut_ahead V c iid w j = vw_recs V w j" for j unfolding cut_ahead_def by meson
      then show ?thesis using w2 False by auto
    qed
  qed
qed

text \<open>
  C37: trimming the LMDB backend. In an open transaction, with room in the database, \<^verbatim>\<open>lmdb_storage_trim\<close> of an
  instance other than 0 returns 0; afterwards the records up to the instance are gone, those above are untouched, the
  record of key 0 holds the instance, \<^verbatim>\<open>lmdb_storage_get_trim_instance\<close> returns it and
  \<^verbatim>\<open>lmdb_storage_get\<close> finds no record of a trimmed instance. The loop over the cursor ends.
\<close>

theorem lmdb_trim_exact:
  assumes L: "layout_ok L" and m: "mdb_laws L m V (ls_txn s) (ls_dbi s)" "mdb_room m V (ls_txn s) (ls_dbi s)"
    and w: "vw_live V w" and iid: "iid \<noteq> 0"
  shows "\<exists>w'. lmdb_storage_trim m L s iid w = Some (Inr (0, w')) \<and> vw_live V w' \<and>
     vw_recs V w' = (\<lambda>k. if k = 0 then Some (ly_u32 L iid) else if k \<le> iid then None else vw_recs V w k) \<and>
     lmdb_storage_get_trim_instance m L s w' = Inr iid \<and>
     (\<forall>k out. 0 < k \<and> k \<le> iid \<longrightarrow> lmdb_storage_get m L s k out w' = Inr (0, out))"
proof -
  obtain w1 where p: "mdb_put m (ls_txn s) (ls_dbi s) (ly_u32 L 0) (ly_u32 L iid) w = (0, w1)"
    using m(2) w unfolding mdb_room_def by (metis prod.collapse)
  then have w1: "vw_live V w1" "vw_recs V w1 = (vw_recs V w)(0 \<mapsto> ly_u32 L iid)"
    using mdb_lawsD(2)[OF m(1)] w unfolding law_put_def by blast+
  obtain c w2 where o: "mdb_cursor_open m (ls_txn s) (ls_dbi s) w1 = (0, c, w2)"
    using m(2) w1(1) unfolding mdb_room_def by (metis prod.collapse)
  then have w2: "c \<noteq> None" "vw_live V w2" "vw_recs V w2 = vw_recs V w1" "vw_pos V w2 c = None"
    using mdb_lawsD(3)[OF m(1)] w1(1) unfolding law_open_def by blast+
  obtain w3 where l: "trim_loop m L c iid w2 = Some (Inr w3)" "vw_live V w3" "vw_recs V w3 = cut_ahead V c iid w2"
    using trim_loop_ends[OF L m w2(2)] by blast
  let ?w = "mdb_cursor_close m c w3"
  have live: "vw_live V ?w" and recs: "vw_recs V ?w = cut_ahead V c iid w2"
    using mdb_lawsD(6)[OF m(1)] l(2,3) unfolding law_close_def by simp_all
  have "vw_recs V ?w k = (if k = 0 then Some (ly_u32 L iid) else if k \<le> iid then None else vw_recs V w k)" for k
    unfolding recs cut_ahead_def keys_ahead_def using w1(2) w2(3,4) by auto
  then have cut: "vw_recs V ?w = (\<lambda>k. if k = 0 then Some (ly_u32 L iid) else if k \<le> iid then None else vw_recs V w k)" by blast
  have get: "case vw_recs V ?w k of None \<Rightarrow> fst (mdb_get m (ls_txn s) (ls_dbi s) (ly_u32 L k) ?w) = MDB_NOTFOUND
      | Some x \<Rightarrow> mdb_get m (ls_txn s) (ls_dbi s) (ly_u32 L k) ?w = (0, x)" for k
    using mdb_lawsD(1)[OF m(1)] live unfolding law_get_def by blast
  have "lmdb_storage_get_trim_instance m L s ?w = Inr iid"
    using get[of 0] cut mem_slice_at[of "[]" 0 "ly_u32 L iid" 4 "[]"] L by (simp add: lmdb_storage_get_trim_instance_def)
  moreover have "lmdb_storage_get m L s k out ?w = Inr (0, out)" if "0 < k \<and> k \<le> iid" for k out
  proof -
    have "vw_recs V ?w k = None" using cut that by auto
    then show ?thesis using get[of k] by (auto simp: lmdb_storage_get_def MDB_NOTFOUND_def split: prod.splits)
  qed
  moreover have "lmdb_storage_trim m L s iid w = Some (Inr (0, ?w))"
    using p o l(1) w2(1) iid by (simp add: lmdb_storage_trim_def lmdb_storage_put_trim_instance_def)
  ultimately show ?thesis using live cut by blast
qed

section \<open>A database to compute with\<close>

text \<open>The records as an association list and the position of the one cursor.\<close>

type_synonym demo_db = "(iid_t \<times> u8 list) list \<times> iid_t option"

definition demo_keys :: "demo_db \<Rightarrow> iid_t list" where
  "demo_keys w = filter (\<lambda>k. case snd w of None \<Rightarrow> True | Some p \<Rightarrow> p < k) (map fst (fst w))"

definition demo_next :: "demo_db \<Rightarrow> (int \<times> u8 list \<times> u8 list) \<times> demo_db" where
  "demo_next w = (if demo_keys w = [] then ((MDB_NOTFOUND, [], []), w)
     else ((0, ly_u32 lp64 (Min (set (demo_keys w))), []), (fst w, Some (Min (set (demo_keys w))))))"

definition demo_mdb :: "(demo_db, unit, unit, unit) mdb" where
  "demo_mdb = \<lparr>mdb_env_create = \<lambda>w. (0, Some (), w), mdb_env_set_mapsize = \<lambda>_ _ w. (0, w),
     mdb_env_open = \<lambda>_ _ _ w. (0, w), mdb_env_close = \<lambda>_ w. w, mdb_txn_begin = \<lambda>_ w. (0, Some (), w),
     mdb_txn_commit = \<lambda>_ w. (0, w), mdb_txn_abort = \<lambda>_ w. w, mdb_open = \<lambda>_ w. (0, 1, w),
     mdb_set_compare = \<lambda>_ _ _ w. (0, w), mdb_close = \<lambda>_ _ w. w,
     mdb_get = \<lambda>_ _ k w. (case map_of (fst w) (ly_u32_of lp64 k) of None \<Rightarrow> (MDB_NOTFOUND, []) | Some x \<Rightarrow> (0, x)),
     mdb_put = \<lambda>_ _ k x w. (0, ((ly_u32_of lp64 k, x) # fst w, snd w)),
     mdb_cursor_open = \<lambda>_ _ w. (0, Some (), (fst w, None)), mdb_cursor_next = \<lambda>_. demo_next,
     mdb_cursor_del = \<lambda>_ w. (0, (filter (\<lambda>x. Some (fst x) \<noteq> snd w) (fst w), snd w)),
     mdb_cursor_close = \<lambda>_ w. w\<rparr>"

definition demo_view :: "(demo_db, unit) mdb_view" where
  "demo_view = \<lparr>vw_live = \<lambda>_. True, vw_recs = \<lambda>w. map_of (fst w), vw_pos = \<lambda>w _. snd w\<rparr>"

lemma map_of_filter_key: "map_of (filter (\<lambda>x. fst x \<noteq> p) xs) = (map_of xs)(p := None)"
  by (induction xs) (auto simp: fun_eq_iff)

lemma demo_ahead: "keys_ahead demo_view c w = set (demo_keys w)"
  by (auto simp: keys_ahead_def demo_view_def demo_keys_def dom_map_of_conv_image_fst split: option.splits)

lemma demo_laws_parts:
  "law_get lp64 demo_mdb demo_view t d" "law_put lp64 demo_mdb demo_view t d" "law_open demo_mdb demo_view t d"
  "law_next lp64 demo_mdb demo_view" "law_del demo_mdb demo_view" "law_close demo_mdb demo_view"
proof -
  show "law_get lp64 demo_mdb demo_view t d"
    by (simp add: law_get_def demo_mdb_def demo_view_def layout_okD(2)[OF lp64_ok] split: option.split)
  show "law_put lp64 demo_mdb demo_view t d"
    by (auto simp: law_put_def demo_mdb_def demo_view_def layout_okD(2)[OF lp64_ok])
  show "law_open demo_mdb demo_view t d" by (simp add: law_open_def demo_mdb_def demo_view_def)
  show "law_next lp64 demo_mdb demo_view"
    unfolding law_next_def demo_ahead by (auto simp: demo_view_def demo_mdb_def demo_next_def split: if_splits)
  show "law_del demo_mdb demo_view" by (auto simp: law_del_def demo_mdb_def demo_view_def map_of_filter_key)
  show "law_close demo_mdb demo_view" by (simp add: law_close_def demo_mdb_def)
qed

lemma demo_mdb_laws: "mdb_laws lp64 demo_mdb demo_view t d" "mdb_room demo_mdb demo_view t d"
  by (simp_all add: mdb_laws_def demo_laws_parts) (simp add: mdb_room_def demo_mdb_def)

theorem lmdb_trim_exact_witness:
  "\<exists>w'. lmdb_storage_trim demo_mdb lp64 (lmdb_storage_new 0\<lparr>ls_txn := Some ()\<rparr>) 2 ([(1, [4]), (2, [5]), (7, [6])], None) = Some (Inr (0, w')) \<and>
     map_of (fst w') 0 = Some [2, 0, 0, 0] \<and> map_of (fst w') 1 = None \<and> map_of (fst w') 7 = Some [6]"
proof -
  let ?s = "lmdb_storage_new 0\<lparr>ls_txn := Some ()\<rparr> :: (unit, unit) lmdb_storage"
  have "ly_u32 lp64 2 = [2, 0, 0, 0]" by code_simp
  then show ?thesis
    using lmdb_trim_exact[OF lp64_ok demo_mdb_laws, where s = ?s and w = "([(1, [4]), (2, [5]), (7, [6])], None)" and iid = 2]
    by (auto simp: demo_view_def)
qed

section \<open>The outcomes of opening\<close>

lemma lmdb_init_outcome:
  "lmdb_storage_init m L cfg s path w = (rc, s', w') \<Longrightarrow>
     rc = 0 \<and> ls_txn s' = ls_txn s \<and> ls_acceptor_id s' = ls_acceptor_id s \<or> rc = -1 \<and> s' = s"
  by (auto simp: lmdb_storage_init_def split: prod.splits if_splits)

text \<open>
  Opening the LMDB backend, whatever the library and the file system answer. The directory is the configured path
  with the acceptor id behind an underscore, never cut off. With \<^verbatim>\<open>trash_files\<close> set, a path and id of more than 592
  characters overrun the buffer of the command that removes the directory; in every other case the function returns:
  0 and a handle without an open transaction, or 1 or -1 and no handle, closed and freed.
\<close>

lemma lmdb_open_outcome:
  fixes m :: "('w, 'e, 't, 'c) mdb"
  assumes "- (2 ^ 31) \<le> aid" "aid < 2 ^ 31" and s: "s = lmdb_storage_new aid"
  shows "lmdb_path cfg aid = lmdb_env_path cfg @ ''_'' @ show_int aid \<and>
     (if trash_files cfg \<noteq> 0 \<and> 592 < length (lmdb_env_path cfg) + length (show_int aid)
      then lmdb_storage_open m px L cfg s w = Inl OutOfBounds
      else \<exists>rc h w'. lmdb_storage_open m px L cfg s w = Inr (rc, h, w') \<and>
        (rc = 0 \<and> (\<exists>s'. h = Some s' \<and> ls_txn s' = None \<and> ls_acceptor_id s' = aid) \<or> (rc = 1 \<or> rc = -1) \<and> h = None))"
proof -
  let ?rm = "''rm -r '' @ lmdb_path cfg aid"
  have path: "lmdb_path cfg aid = lmdb_env_path cfg @ ''_'' @ show_int aid" using assms(1,2) by (rule lmdb_path_complete)
  then have long: "length ?rm + 1 \<le> 600 \<longleftrightarrow> \<not> 592 < length (lmdb_env_path cfg) + length (show_int aid)" by simp linarith
  have id: "ls_acceptor_id s = aid" "ls_txn s = None" by (simp_all add: s lmdb_storage_new_def)
  show ?thesis
  proof (cases "trash_files cfg \<noteq> 0 \<and> 592 < length (lmdb_env_path cfg) + length (show_int aid)")
    case True
    then show ?thesis using path long id by (simp add: lmdb_storage_open_def Let_def)
  next
    case False
    let ?w = "if trash_files cfg = 0 then w else px_system px ?rm w"
    obtain rc0 w0 where d: "(if px_stat px (lmdb_path cfg aid) ?w = 0 then (0, ?w) else px_mkdir px (lmdb_path cfg aid) ?w) = (rc0, w0)"
      by (metis prod.exhaust)
    obtain rc s' w' where i: "lmdb_storage_init m L cfg s (lmdb_path cfg aid) w0 = (rc, s', w')" by (metis prod.exhaust)
    have "lmdb_storage_open m px L cfg s w = Inr (if rc0 \<noteq> 0 then (-1, None, lmdb_storage_close m s w0)
        else if rc \<noteq> 0 then (1, None, lmdb_storage_close m s' w') else (0, Some s', w'))"
      using False long id d i by (auto simp: lmdb_storage_open_def Let_def split: if_splits)
    then show ?thesis using False path lmdb_init_outcome[OF i] id by auto
  qed
qed

end
