(* ===== verification/Wire.thy ===== *)
theory Wire
  imports Paxos_Types
begin

text \<open>
  \<^verbatim>\<open>evpaxos/paxos_types_pack.c\<close> and \<^verbatim>\<open>evpaxos/message.c\<close>: messages to MessagePack objects and back, and
  the framing of a byte stream into messages. The MessagePack library is not part of the repository:
  packing yields the sequence of calls the code makes to it, its encoder of such a sequence and its
  decoder are the parameters \<open>enc\<close> and \<open>unpack_next\<close> of the functions that need them.
\<close>

section \<open>MessagePack\<close>

text \<open>The calls \<^verbatim>\<open>msgpack_pack_array\<close>, \<^verbatim>\<open>msgpack_pack_int32\<close>/\<^verbatim>\<open>uint32\<close> and \<^verbatim>\<open>msgpack_pack_bin\<close> with its body.\<close>

datatype pack_call = PackArray u32 | PackInt u32 | PackBin "u8 list"

text \<open>
  Decoded objects: an integer, a binary string, an array, or any other kind. Reading a member of the
  union \<^verbatim>\<open>via\<close> that does not belong to the kind of the object is the fault \<open>UnionMisread\<close>.
\<close>

datatype msgpack_object = ObjInt "64 word" | ObjBin "u8 list" | ObjArray "msgpack_object list" | ObjOther

definition MSGPACK_OBJECT_AT :: "msgpack_object \<Rightarrow> nat \<Rightarrow> msgpack_object res" where
  "MSGPACK_OBJECT_AT obj i = (case obj of ObjArray xs \<Rightarrow> aread (Some xs) i | _ \<Rightarrow> Inl UnionMisread)"

definition msgpack_unpack_uint32_at :: "msgpack_object \<Rightarrow> nat \<Rightarrow> (u32 \<times> nat) res" where
  "msgpack_unpack_uint32_at obj i = bind_res (MSGPACK_OBJECT_AT obj i) (\<lambda>x. (case x of
      ObjInt w \<Rightarrow> Inr (ucast w, i + 1) | _ \<Rightarrow> Inl UnionMisread))"

text \<open>
  \<^verbatim>\<open>bin.size\<close> is a \<^verbatim>\<open>uint32_t\<close> read into an \<^verbatim>\<open>int\<close>; the buffer has 16 spare bytes of zeros, and for a
  length that \<^verbatim>\<open>int\<close> arithmetic cannot extend by 16 the allocation fails.
\<close>

definition msgpack_unpack_string_at :: "msgpack_object \<Rightarrow> nat \<Rightarrow> (u8 arr \<times> int \<times> nat) res" where
  "msgpack_unpack_string_at obj i = bind_res (MSGPACK_OBJECT_AT obj i) (\<lambda>x. (case x of
      ObjBin bs \<Rightarrow>
        (let len = int_of_u32 (of_nat (length bs)) in
         if len > 0
         then if len + 16 \<ge> 2 ^ 31 then Inl NullDeref
              else bind_res (acopy (Some bs) (nat len)) (\<lambda>cs. Inr (Some (cs @ replicate 16 0), len, i + 1))
         else Inr (None, len, i + 1))
    | _ \<Rightarrow> Inl UnionMisread))"

section \<open>Values\<close>

definition msgpack_pack_string :: "u8 arr \<Rightarrow> int \<Rightarrow> pack_call list res" where
  "msgpack_pack_string buffer len = bind_res (copy_bytes len buffer) (\<lambda>bs. Inr [PackBin (the bs)])"

definition msgpack_pack_paxos_value :: "paxos_value \<Rightarrow> pack_call list res" where
  "msgpack_pack_paxos_value v = (case pv_val v of
      None \<Rightarrow> msgpack_pack_string (Some []) 0
    | Some _ \<Rightarrow> msgpack_pack_string (pv_val v) (pv_len v))"

definition msgpack_unpack_paxos_value_at :: "msgpack_object \<Rightarrow> nat \<Rightarrow> (paxos_value \<times> nat) res" where
  "msgpack_unpack_paxos_value_at obj i =
     bind_res (msgpack_unpack_string_at obj i) (\<lambda>(buf, len, i). Inr (\<lparr>pv_len = len, pv_val = buf\<rparr>, i))"

section \<open>Loops over arrays\<close>

definition pack_u32s :: "u32 list \<Rightarrow> pack_call list" where
  "pack_u32s xs = map PackInt xs"

fun pack_values :: "paxos_value list \<Rightarrow> pack_call list res" where
  "pack_values [] = Inr []"
| "pack_values (v # vs) =
     bind_res (msgpack_pack_paxos_value v) (\<lambda>c. bind_res (pack_values vs) (\<lambda>cs. Inr (c @ cs)))"

fun unpack_u32s :: "msgpack_object \<Rightarrow> nat \<Rightarrow> nat \<Rightarrow> (u32 list \<times> nat) res" where
  "unpack_u32s obj i 0 = Inr ([], i)"
| "unpack_u32s obj i (Suc n) =
     bind_res (msgpack_unpack_uint32_at obj i) (\<lambda>(x, i). bind_res (unpack_u32s obj i n) (\<lambda>(xs, i). Inr (x # xs, i)))"

fun unpack_values :: "msgpack_object \<Rightarrow> nat \<Rightarrow> nat \<Rightarrow> (paxos_value list \<times> nat) res" where
  "unpack_values obj i 0 = Inr ([], i)"
| "unpack_values obj i (Suc n) =
     bind_res (msgpack_unpack_paxos_value_at obj i) (\<lambda>(x, i).
     bind_res (unpack_values obj i n) (\<lambda>(xs, i). Inr (x # xs, i)))"

section \<open>Messages\<close>

definition msgpack_pack_paxos_prepare :: "paxos_prepare \<Rightarrow> pack_call list res" where
  "msgpack_pack_paxos_prepare v = Inr [PackArray 4, PackInt 0, PackInt (pp_src v), PackInt (pp_iid v), PackInt (pp_ballot v)]"

definition msgpack_unpack_paxos_prepare :: "msgpack_object \<Rightarrow> paxos_prepare res" where
  "msgpack_unpack_paxos_prepare obj =
     bind_res (msgpack_unpack_uint32_at obj 1) (\<lambda>(src, i).
     bind_res (msgpack_unpack_uint32_at obj i) (\<lambda>(iid, i).
     bind_res (msgpack_unpack_uint32_at obj i) (\<lambda>(ballot, i).
     Inr \<lparr>pp_src = src, pp_iid = iid, pp_ballot = ballot\<rparr>)))"

definition msgpack_pack_paxos_promise :: "paxos_promise \<Rightarrow> pack_call list res" where
  "msgpack_pack_paxos_promise v =
     (let n = pr_n_aids v in
      bind_res (msgpack_pack_paxos_value (pr_value_0 v)) (\<lambda>v0.
      bind_res (acopy (pr_aids v) (unat n)) (\<lambda>aids.
      bind_res (acopy (pr_values v) (unat n)) (\<lambda>vals.
      bind_res (pack_values vals) (\<lambda>vs.
      bind_res (acopy (pr_ballots v) (unat n)) (\<lambda>bals.
      bind_res (acopy (pr_value_ballots v) (unat n)) (\<lambda>vbals.
      Inr ([PackArray (7 + n + n + n + n), PackInt 1, PackInt (pr_src v), PackInt (pr_iid v), PackInt (pr_ballot_0 v),
            PackInt (pr_value_ballot_0 v), PackInt n] @ v0 @ pack_u32s aids @ vs @ pack_u32s bals @ pack_u32s vbals))))))))"

definition msgpack_unpack_paxos_promise :: "msgpack_object \<Rightarrow> paxos_promise res" where
  "msgpack_unpack_paxos_promise obj =
     bind_res (msgpack_unpack_uint32_at obj 1) (\<lambda>(src, i).
     bind_res (msgpack_unpack_uint32_at obj i) (\<lambda>(iid, i).
     bind_res (msgpack_unpack_uint32_at obj i) (\<lambda>(ballot, i).
     bind_res (msgpack_unpack_uint32_at obj i) (\<lambda>(vballot, i).
     bind_res (msgpack_unpack_uint32_at obj i) (\<lambda>(n, i).
     bind_res (msgpack_unpack_paxos_value_at obj i) (\<lambda>(v0, i).
     bind_res (unpack_u32s obj i (unat n)) (\<lambda>(aids, i).
     bind_res (unpack_values obj i (unat n)) (\<lambda>(vals, i).
     bind_res (unpack_u32s obj i (unat n)) (\<lambda>(bals, i).
     bind_res (unpack_u32s obj i (unat n)) (\<lambda>(vbals, i).
     Inr \<lparr>pr_src = src, pr_iid = iid, pr_ballot_0 = ballot, pr_value_ballot_0 = vballot, pr_n_aids = n,
          pr_aids = Some aids, pr_value_0 = v0, pr_values = Some vals, pr_ballots = Some bals,
          pr_value_ballots = Some vbals\<rparr>))))))))))"

definition msgpack_pack_paxos_accept :: "paxos_accept \<Rightarrow> pack_call list res" where
  "msgpack_pack_paxos_accept v = bind_res (msgpack_pack_paxos_value (pa_value v)) (\<lambda>cs.
     Inr ([PackArray 5, PackInt 2, PackInt (pa_src v), PackInt (pa_iid v), PackInt (pa_ballot v)] @ cs))"

definition msgpack_unpack_paxos_accept :: "msgpack_object \<Rightarrow> paxos_accept res" where
  "msgpack_unpack_paxos_accept obj =
     bind_res (msgpack_unpack_uint32_at obj 1) (\<lambda>(src, i).
     bind_res (msgpack_unpack_uint32_at obj i) (\<lambda>(iid, i).
     bind_res (msgpack_unpack_uint32_at obj i) (\<lambda>(ballot, i).
     bind_res (msgpack_unpack_paxos_value_at obj i) (\<lambda>(v, i).
     Inr \<lparr>pa_src = src, pa_iid = iid, pa_ballot = ballot, pa_value = v\<rparr>))))"

text \<open>Arrays that may be NULL are packed as zeros (\<^verbatim>\<open>ballots\<close>, \<^verbatim>\<open>value_ballots\<close>).\<close>

definition acopy_or_zeros :: "u32 arr \<Rightarrow> nat \<Rightarrow> u32 list res" where
  "acopy_or_zeros a n = (case a of None \<Rightarrow> Inr (replicate n 0) | Some _ \<Rightarrow> acopy a n)"

definition msgpack_pack_paxos_accepted :: "paxos_accepted \<Rightarrow> pack_call list res" where
  "msgpack_pack_paxos_accepted v =
     (let n = ac_n_aids v;
          is_aids = (ac_aids v \<noteq> None \<and> n > 0);
          is_values = (ac_values v \<noteq> None \<and> n > 0);
          flag = (\<lambda>b. if b then 1 else 0 :: u32) in
      bind_res (if is_aids then acopy (ac_aids v) (unat n) else Inr []) (\<lambda>aids.
      bind_res (if is_values then bind_res (acopy (ac_values v) (unat n)) pack_values else Inr []) (\<lambda>vs.
      bind_res (if is_aids then acopy_or_zeros (ac_ballots v) (unat n) else Inr []) (\<lambda>bals.
      bind_res (if is_aids then acopy_or_zeros (ac_value_ballots v) (unat n) else Inr []) (\<lambda>vbals.
      Inr ([PackArray (6 + (if is_aids then n else 0) * 3 + (if is_values then n else 0)), PackInt 3, PackInt 0,
            PackInt (ac_iid v), PackInt n, PackInt (flag is_aids), PackInt (flag is_values)] @
           pack_u32s aids @ vs @ pack_u32s bals @ pack_u32s vbals))))))"

text \<open>
  The fields the code does not set keep what the memory of the message held before (\<open>old\<close>): the two
  scalar ballots always, \<^verbatim>\<open>ballots\<close> and \<^verbatim>\<open>value_ballots\<close> when there are no ids.
\<close>

definition msgpack_unpack_paxos_accepted :: "msgpack_object \<Rightarrow> paxos_accepted \<Rightarrow> paxos_accepted res" where
  "msgpack_unpack_paxos_accepted obj old =
     bind_res (msgpack_unpack_uint32_at obj 1) (\<lambda>(_, i).
     bind_res (msgpack_unpack_uint32_at obj i) (\<lambda>(iid, i).
     bind_res (msgpack_unpack_uint32_at obj i) (\<lambda>(n, i).
     bind_res (msgpack_unpack_uint32_at obj i) (\<lambda>(is_aids, i).
     bind_res (msgpack_unpack_uint32_at obj i) (\<lambda>(is_values, i).
     bind_res (if is_aids \<noteq> 0 then bind_res (unpack_u32s obj i (unat n)) (\<lambda>(xs, i). Inr (Some xs, i))
               else Inr (None, i)) (\<lambda>(aids, i).
     bind_res (if is_values \<noteq> 0 then bind_res (unpack_values obj i (unat n)) (\<lambda>(xs, i). Inr (Some xs, i))
               else Inr (None, i)) (\<lambda>(vals, i).
     bind_res (if is_aids \<noteq> 0 then bind_res (unpack_u32s obj i (unat n)) (\<lambda>(xs, i). Inr (Some xs, i))
               else Inr (ac_ballots old, i)) (\<lambda>(bals, i).
     bind_res (if is_aids \<noteq> 0 then bind_res (unpack_u32s obj i (unat n)) (\<lambda>(xs, i). Inr (Some xs, i))
               else Inr (ac_value_ballots old, i)) (\<lambda>(vbals, i).
     Inr (old\<lparr>ac_src := -1, ac_iid := iid, ac_n_aids := n, ac_aids := aids, ac_value_0 := value_zero,
              ac_values := vals, ac_ballots := bals, ac_value_ballots := vbals\<rparr>))))))))))"

definition msgpack_pack_paxos_preempted :: "paxos_preempted \<Rightarrow> pack_call list res" where
  "msgpack_pack_paxos_preempted v = Inr [PackArray 4, PackInt 4, PackInt (pe_aid v), PackInt (pe_iid v), PackInt (pe_ballot v)]"

definition msgpack_unpack_paxos_preempted :: "msgpack_object \<Rightarrow> paxos_preempted res" where
  "msgpack_unpack_paxos_preempted obj =
     bind_res (msgpack_unpack_uint32_at obj 1) (\<lambda>(aid, i).
     bind_res (msgpack_unpack_uint32_at obj i) (\<lambda>(iid, i).
     bind_res (msgpack_unpack_uint32_at obj i) (\<lambda>(ballot, i).
     Inr \<lparr>pe_aid = aid, pe_iid = iid, pe_ballot = ballot\<rparr>)))"

definition msgpack_pack_paxos_repeat :: "paxos_repeat \<Rightarrow> pack_call list res" where
  "msgpack_pack_paxos_repeat v = Inr [PackArray 3, PackInt 5, PackInt (rp_from v), PackInt (rp_to v)]"

definition msgpack_unpack_paxos_repeat :: "msgpack_object \<Rightarrow> paxos_repeat res" where
  "msgpack_unpack_paxos_repeat obj =
     bind_res (msgpack_unpack_uint32_at obj 1) (\<lambda>(from, i).
     bind_res (msgpack_unpack_uint32_at obj i) (\<lambda>(to, i). Inr \<lparr>rp_from = from, rp_to = to\<rparr>))"

definition msgpack_pack_paxos_trim :: "paxos_trim \<Rightarrow> pack_call list res" where
  "msgpack_pack_paxos_trim v = Inr [PackArray 2, PackInt 6, PackInt (tr_iid v)]"

definition msgpack_unpack_paxos_trim :: "msgpack_object \<Rightarrow> paxos_trim res" where
  "msgpack_unpack_paxos_trim obj = bind_res (msgpack_unpack_uint32_at obj 1) (\<lambda>(iid, i). Inr \<lparr>tr_iid = iid\<rparr>)"

definition msgpack_pack_paxos_acceptor_state :: "paxos_acceptor_state \<Rightarrow> pack_call list res" where
  "msgpack_pack_paxos_acceptor_state v = Inr [PackArray 3, PackInt 7, PackInt (as_aid v), PackInt (as_trim_iid v)]"

definition msgpack_unpack_paxos_acceptor_state :: "msgpack_object \<Rightarrow> paxos_acceptor_state res" where
  "msgpack_unpack_paxos_acceptor_state obj =
     bind_res (msgpack_unpack_uint32_at obj 1) (\<lambda>(aid, i).
     bind_res (msgpack_unpack_uint32_at obj i) (\<lambda>(iid, i). Inr \<lparr>as_aid = aid, as_trim_iid = iid\<rparr>))"

definition msgpack_pack_paxos_client_value :: "paxos_client_value \<Rightarrow> pack_call list res" where
  "msgpack_pack_paxos_client_value v = bind_res (msgpack_pack_paxos_value (cv_value v)) (\<lambda>cs.
     Inr ([PackArray 2, PackInt 8] @ cs))"

definition msgpack_unpack_paxos_client_value :: "msgpack_object \<Rightarrow> paxos_client_value res" where
  "msgpack_unpack_paxos_client_value obj =
     bind_res (msgpack_unpack_paxos_value_at obj 1) (\<lambda>(v, i). Inr \<lparr>cv_value = v\<rparr>)"

fun msgpack_pack_paxos_message :: "paxos_message \<Rightarrow> pack_call list res" where
  "msgpack_pack_paxos_message (PAXOS_PREPARE v) = msgpack_pack_paxos_prepare v"
| "msgpack_pack_paxos_message (PAXOS_PROMISE v) = msgpack_pack_paxos_promise v"
| "msgpack_pack_paxos_message (PAXOS_ACCEPT v) = msgpack_pack_paxos_accept v"
| "msgpack_pack_paxos_message (PAXOS_ACCEPTED v) = msgpack_pack_paxos_accepted v"
| "msgpack_pack_paxos_message (PAXOS_PREEMPTED v) = msgpack_pack_paxos_preempted v"
| "msgpack_pack_paxos_message (PAXOS_REPEAT v) = msgpack_pack_paxos_repeat v"
| "msgpack_pack_paxos_message (PAXOS_TRIM v) = msgpack_pack_paxos_trim v"
| "msgpack_pack_paxos_message (PAXOS_ACCEPTOR_STATE v) = msgpack_pack_paxos_acceptor_state v"
| "msgpack_pack_paxos_message (PAXOS_CLIENT_VALUE v) = msgpack_pack_paxos_client_value v"

text \<open>An unknown type calls through the function pointer 0.\<close>

definition msgpack_unpack_paxos_message :: "msgpack_object \<Rightarrow> paxos_accepted \<Rightarrow> paxos_message res" where
  "msgpack_unpack_paxos_message obj old =
     bind_res (msgpack_unpack_uint32_at obj 0) (\<lambda>(type, _).
     if type = 0 then bind_res (msgpack_unpack_paxos_prepare obj) (\<lambda>v. Inr (PAXOS_PREPARE v))
     else if type = 1 then bind_res (msgpack_unpack_paxos_promise obj) (\<lambda>v. Inr (PAXOS_PROMISE v))
     else if type = 2 then bind_res (msgpack_unpack_paxos_accept obj) (\<lambda>v. Inr (PAXOS_ACCEPT v))
     else if type = 3 then bind_res (msgpack_unpack_paxos_accepted obj old) (\<lambda>v. Inr (PAXOS_ACCEPTED v))
     else if type = 4 then bind_res (msgpack_unpack_paxos_preempted obj) (\<lambda>v. Inr (PAXOS_PREEMPTED v))
     else if type = 5 then bind_res (msgpack_unpack_paxos_repeat obj) (\<lambda>v. Inr (PAXOS_REPEAT v))
     else if type = 6 then bind_res (msgpack_unpack_paxos_trim obj) (\<lambda>v. Inr (PAXOS_TRIM v))
     else if type = 7 then bind_res (msgpack_unpack_paxos_acceptor_state obj) (\<lambda>v. Inr (PAXOS_ACCEPTOR_STATE v))
     else if type = 8 then bind_res (msgpack_unpack_paxos_client_value obj) (\<lambda>v. Inr (PAXOS_CLIENT_VALUE v))
     else Inl BadCall)"

section \<open>Sending and receiving\<close>

text \<open>The counters of \<^verbatim>\<open>message.c\<close> and the bytes written to a connection.\<close>

record message_io =
  io_nmsg :: "64 word"
  io_nbytes :: "64 word"
  io_out :: "u8 list"

definition getcnt :: "message_io \<Rightarrow> 64 word" where
  "getcnt io = io_nmsg io"

definition getcntbytes :: "message_io \<Rightarrow> 64 word" where
  "getcntbytes io = io_nbytes io"

definition bufferevent_pack_data :: "u8 list \<Rightarrow> message_io \<Rightarrow> message_io" where
  "bufferevent_pack_data buf io = io\<lparr>io_out := io_out io @ buf, io_nbytes := io_nbytes io + of_nat (length buf)\<rparr>"

definition send_paxos_message :: "(pack_call list \<Rightarrow> u8 list) \<Rightarrow> paxos_message \<Rightarrow> message_io \<Rightarrow> message_io res" where
  "send_paxos_message enc msg io =
     (let io = io\<lparr>io_nmsg := io_nmsg io + 1\<rparr> in
      bind_res (msgpack_pack_paxos_message msg) (\<lambda>cs. Inr (bufferevent_pack_data (enc cs) io)))"

definition send_paxos_prepare :: "(pack_call list \<Rightarrow> u8 list) \<Rightarrow> paxos_prepare \<Rightarrow> message_io \<Rightarrow> message_io res" where
  "send_paxos_prepare enc p io = send_paxos_message enc (PAXOS_PREPARE p) io"

definition send_paxos_promise :: "(pack_call list \<Rightarrow> u8 list) \<Rightarrow> paxos_promise \<Rightarrow> message_io \<Rightarrow> message_io res" where
  "send_paxos_promise enc p io = send_paxos_message enc (PAXOS_PROMISE p) io"

definition send_paxos_accept :: "(pack_call list \<Rightarrow> u8 list) \<Rightarrow> paxos_accept \<Rightarrow> message_io \<Rightarrow> message_io res" where
  "send_paxos_accept enc p io = send_paxos_message enc (PAXOS_ACCEPT p) io"

definition send_paxos_accepted :: "(pack_call list \<Rightarrow> u8 list) \<Rightarrow> paxos_accepted \<Rightarrow> message_io \<Rightarrow> message_io res" where
  "send_paxos_accepted enc p io = send_paxos_message enc (PAXOS_ACCEPTED p) io"

definition send_paxos_preempted :: "(pack_call list \<Rightarrow> u8 list) \<Rightarrow> paxos_preempted \<Rightarrow> message_io \<Rightarrow> message_io res" where
  "send_paxos_preempted enc p io = send_paxos_message enc (PAXOS_PREEMPTED p) io"

definition send_paxos_repeat :: "(pack_call list \<Rightarrow> u8 list) \<Rightarrow> paxos_repeat \<Rightarrow> message_io \<Rightarrow> message_io res" where
  "send_paxos_repeat enc p io = send_paxos_message enc (PAXOS_REPEAT p) io"

definition send_paxos_trim :: "(pack_call list \<Rightarrow> u8 list) \<Rightarrow> paxos_trim \<Rightarrow> message_io \<Rightarrow> message_io res" where
  "send_paxos_trim enc t io = send_paxos_message enc (PAXOS_TRIM t) io"

definition paxos_submit :: "(pack_call list \<Rightarrow> u8 list) \<Rightarrow> u8 arr \<Rightarrow> int \<Rightarrow> message_io \<Rightarrow> message_io res" where
  "paxos_submit enc data sz io =
     send_paxos_message enc (PAXOS_CLIENT_VALUE \<lparr>cv_value = \<lparr>pv_len = sz, pv_val = data\<rparr>\<rparr>) io"

text \<open>
  The input buffer is the list of its bytes; \<open>unpack_next\<close> returns the code of
  \<^verbatim>\<open>msgpack_unpack_next\<close>, the object and the number of bytes it took. An undecodable buffer loses up to
  2 MB.
\<close>

type_synonym unpacker = "u8 list \<Rightarrow> int \<times> msgpack_object \<times> nat"

definition recv_paxos_message :: "unpacker \<Rightarrow> u8 list \<Rightarrow> paxos_accepted \<Rightarrow> (u8 list \<times> paxos_message option) res" where
  "recv_paxos_message unpack_next buf out =
     (if buf = [] then Inr (buf, None)
      else (case unpack_next buf of (rc, data, offset) \<Rightarrow>
        if rc > 0 then bind_res (msgpack_unpack_paxos_message data out) (\<lambda>m. Inr (drop offset buf, Some m))
        else if rc = 0 then Inr (buf, None)
        else Inr (drop (2 * 1024 * 1024) buf, None)))"

end
