(* ===== verification/Config.thy ===== *)
theory Config
  imports Paxos_Types C_Library
begin

text \<open>
  \<^verbatim>\<open>evpaxos/config.c\<close>: the reader of the configuration file. The functions of the C library it uses are in \<open>C_Library\<close>.
  A \<^verbatim>\<open>char*\<close> is a \<open>string option\<close>.
\<close>

section \<open>State\<close>

record address =
  ad_addr :: "string option"
  ad_port :: int
  ad_groupid :: int
  ad_parentid :: int

definition address_zero :: address where
  "address_zero = \<lparr>ad_addr = None, ad_port = 0, ad_groupid = 0, ad_parentid = 0\<rparr>"

text \<open>
  The two arrays of \<open>1000\<close> slots are kept as the lists of the slots in use, so that the counts are
  their lengths; the other slots hold zeros. The mutex \<^verbatim>\<open>pgs\<close> is an optional handle.
\<close>

record evpaxos_config =
  ec_proposers :: "address list"
  ec_acceptors :: "address list"
  ec_pgs :: "nat option"

definition config_empty :: evpaxos_config where
  "config_empty = \<lparr>ec_proposers = [], ec_acceptors = [], ec_pgs = None\<rparr>"

datatype option_type = option_boolean | option_integer | option_string | option_verbosity | option_backend | option_bytes

text \<open>The options by name; the functions store into the field the source's pointer names.\<close>

datatype option_field = OptVerbosity | OptTcpNodelay | OptLearnerCatchUp | OptProposerTimeout | OptPreexecWindow
  | OptStorageBackend | OptTrashFiles | OptLmdbSync | OptLmdbEnvPath | OptLmdbMapsize

definition options :: "(string \<times> option_field \<times> option_type) list" where
  "options = [(''verbosity'', OptVerbosity, option_verbosity), (''tcp-nodelay'', OptTcpNodelay, option_boolean),
     (''learner-catch-up'', OptLearnerCatchUp, option_boolean), (''proposer-timeout'', OptProposerTimeout, option_integer),
     (''proposer-preexec-window'', OptPreexecWindow, option_integer), (''storage-backend'', OptStorageBackend, option_backend),
     (''acceptor-trash-files'', OptTrashFiles, option_boolean), (''lmdb-sync'', OptLmdbSync, option_boolean),
     (''lmdb-env-path'', OptLmdbEnvPath, option_string), (''lmdb-mapsize'', OptLmdbMapsize, option_bytes)]"

fun store_int :: "option_field \<Rightarrow> int \<Rightarrow> paxos_config \<Rightarrow> paxos_config" where
  "store_int OptTcpNodelay v g = g\<lparr>tcp_nodelay := v\<rparr>"
| "store_int OptLearnerCatchUp v g = g\<lparr>learner_catch_up := v\<rparr>"
| "store_int OptProposerTimeout v g = g\<lparr>proposer_timeout := v\<rparr>"
| "store_int OptPreexecWindow v g = g\<lparr>proposer_preexec_window := v\<rparr>"
| "store_int OptTrashFiles v g = g\<lparr>trash_files := v\<rparr>"
| "store_int OptLmdbSync v g = g\<lparr>lmdb_sync := v\<rparr>"
| "store_int OptLmdbMapsize v g = g\<lparr>lmdb_mapsize := v\<rparr>"
| "store_int _ v g = g"

section \<open>Values of options\<close>

definition strtrim :: "string option \<Rightarrow> string res" where
  "strtrim s = (case s of None \<Rightarrow> Inl NullDeref
    | Some cs \<Rightarrow> Inr (rev (dropWhile c_isspace (rev (dropWhile c_isspace cs)))))"

definition parse_bytes :: "string \<Rightarrow> 64 word \<times> bool" where
  "parse_bytes str = (case strtoull str of (bytes, endp, errno) \<Rightarrow>
     if errno then (bytes, False)
     else (let endp = dropWhile c_isspace endp in
           if endp = [] then (bytes, True)
           else if strcaseeq endp ''kb'' then (bytes * 1024, True)
           else if strcaseeq endp ''mb'' then (bytes * (1024 * 1024), True)
           else if strcaseeq endp ''gb'' then (bytes * (1024 * 1024 * 1024), True)
           else (bytes, False)))"

definition parse_boolean :: "string \<Rightarrow> int option" where
  "parse_boolean str = (if strcaseeq str ''yes'' then Some 1 else if strcaseeq str ''no'' then Some 0 else None)"

definition parse_integer :: "string \<Rightarrow> int option" where
  "parse_integer str = map_option (\<lambda>(v, _). int_of_long v) (strtol str)"

definition parse_string :: "string \<Rightarrow> string option" where
  "parse_string str = (if str = [] \<or> hd str = CHR 0x0A then None else Some str)"

definition parse_verbosity :: "string \<Rightarrow> paxos_log_level option" where
  "parse_verbosity str =
     (if strcaseeq str ''quiet'' then Some PAXOS_LOG_QUIET
      else if strcaseeq str ''error'' then Some PAXOS_LOG_ERROR
      else if strcaseeq str ''info'' then Some PAXOS_LOG_INFO
      else if strcaseeq str ''debug'' then Some PAXOS_LOG_DEBUG
      else None)"

definition parse_backend :: "string \<Rightarrow> paxos_storage_backend option" where
  "parse_backend str =
     (if strcaseeq str ''memory'' then Some PAXOS_MEM_STORAGE
      else if strcaseeq str ''lmdb'' then Some PAXOS_LMDB_STORAGE
      else None)"

fun lookup_option_from :: "(string \<times> option_field \<times> option_type) list \<Rightarrow> string \<Rightarrow> (option_field \<times> option_type) option" where
  "lookup_option_from [] opt = None"
| "lookup_option_from ((name, ft) # os) opt = (if strcaseeq name opt then Some ft else lookup_option_from os opt)"

definition lookup_option :: "string \<Rightarrow> (option_field \<times> option_type) option" where
  "lookup_option opt = lookup_option_from options opt"

section \<open>Addresses\<close>

definition address_init :: "string option \<Rightarrow> int \<Rightarrow> address res" where
  "address_init addr port = (case addr of
      None \<Rightarrow> Inl NullDeref
    | Some a \<Rightarrow> Inr \<lparr>ad_addr = Some a, ad_port = port, ad_groupid = -1, ad_parentid = -1\<rparr>)"

definition address_copy :: "address \<Rightarrow> address res" where
  "address_copy src = bind_res (address_init (ad_addr src) (ad_port src)) (\<lambda>dst.
     Inr (dst\<lparr>ad_groupid := ad_groupid src, ad_parentid := ad_parentid src\<rparr>))"

text \<open>
  \<^verbatim>\<open>sscanf\<close> through NULL is a fault, and so is a word that does not fit \<^verbatim>\<open>char address[128]\<close>; \<open>old\<close> is
  what the slot held, which a line that does not match leaves alone.
\<close>

definition parse_address :: "string option \<Rightarrow> address \<Rightarrow> (address \<times> bool) res" where
  "parse_address str old = (case str of None \<Rightarrow> Inl NullDeref | Some s \<Rightarrow>
     (case scan_int s of None \<Rightarrow> Inr (old, False) | Some (nid, s) \<Rightarrow>
     (case scan_word s of None \<Rightarrow> Inr (old, False) | Some (w, s) \<Rightarrow>
      if length w \<ge> 128 then Inl OutOfBounds
      else (case scan_int s of None \<Rightarrow> Inr (old, False)
            | Some (port, s) \<Rightarrow> bind_res (address_init (Some w) port) (\<lambda>a. Inr (a, True))))))"

definition parse_address_replica :: "string option \<Rightarrow> address \<Rightarrow> (address \<times> bool) res" where
  "parse_address_replica str old = (case str of None \<Rightarrow> Inl NullDeref | Some s \<Rightarrow>
     (case scan_int s of None \<Rightarrow> Inr (old, False) | Some (nid, s) \<Rightarrow>
     (case scan_word s of None \<Rightarrow> Inr (old, False) | Some (w, s) \<Rightarrow>
      if length w \<ge> 128 then Inl OutOfBounds
      else (case scan_int s of None \<Rightarrow> Inr (old, False) | Some (port, s) \<Rightarrow>
           (case scan_int s of None \<Rightarrow> Inr (old, False) | Some (groupid, s) \<Rightarrow>
           (case scan_int s of None \<Rightarrow> Inr (old, False) | Some (parentid, s) \<Rightarrow>
            bind_res (address_init (Some w) port) (\<lambda>a. Inr (a\<lparr>ad_groupid := groupid, ad_parentid := parentid\<rparr>, True))))))))"

section \<open>Lines\<close>

text \<open>The \<^verbatim>\<open>switch\<close> over the type of the option: the new settings and the return value.\<close>

definition parse_option :: "option_field \<times> option_type \<Rightarrow> string \<Rightarrow> paxos_config \<Rightarrow> paxos_config \<times> bool" where
  "parse_option ft line g = (case ft of (f, ty) \<Rightarrow> (case ty of
      option_boolean \<Rightarrow> (case parse_boolean line of None \<Rightarrow> (g, False) | Some v \<Rightarrow> (store_int f v g, True))
    | option_integer \<Rightarrow> (case parse_integer line of None \<Rightarrow> (g, False) | Some v \<Rightarrow> (store_int f v g, True))
    | option_string \<Rightarrow> (case parse_string line of None \<Rightarrow> (g, False) | Some v \<Rightarrow> (g\<lparr>lmdb_env_path := v\<rparr>, True))
    | option_verbosity \<Rightarrow> (case parse_verbosity line of None \<Rightarrow> (g, False) | Some v \<Rightarrow> (g\<lparr>verbosity := v\<rparr>, True))
    | option_backend \<Rightarrow> (case parse_backend line of None \<Rightarrow> (g, False) | Some v \<Rightarrow> (g\<lparr>storage_backend := v\<rparr>, True))
    | option_bytes \<Rightarrow> (case parse_bytes line of (v, ok) \<Rightarrow> (store_int f (uint v) g, ok))))"

definition parse_line :: "paxos_config \<Rightarrow> evpaxos_config \<Rightarrow> string \<Rightarrow> (paxos_config \<times> evpaxos_config \<times> bool) res" where
  "parse_line g c line =
     bind_res (strtrim (Some line)) (\<lambda>line.
     (case strsep_space line of (tok, rest) \<Rightarrow>
      if strcaseeq tok ''a'' \<or> strcaseeq tok ''acceptor'' then
        if length (ec_acceptors c) \<ge> MAX_N_OF_PROPOSERS then Inr (g, c, False)
        else bind_res (parse_address rest address_zero) (\<lambda>(addr, rv).
             Inr (g, c\<lparr>ec_acceptors := ec_acceptors c @ [addr]\<rparr>, rv))
      else if strcaseeq tok ''p'' \<or> strcaseeq tok ''proposer'' then
        if length (ec_proposers c) \<ge> MAX_N_OF_PROPOSERS then Inr (g, c, False)
        else bind_res (parse_address rest address_zero) (\<lambda>(addr, rv).
             Inr (g, c\<lparr>ec_proposers := ec_proposers c @ [addr]\<rparr>, rv))
      else if strcaseeq tok ''r'' \<or> strcaseeq tok ''replica'' then
        if length (ec_proposers c) \<ge> MAX_N_OF_PROPOSERS \<or> length (ec_acceptors c) \<ge> MAX_N_OF_PROPOSERS then Inr (g, c, False)
        else bind_res (parse_address_replica rest address_zero) (\<lambda>(pro, rv).
             bind_res (address_copy pro) (\<lambda>acc.
             Inr (g, c\<lparr>ec_proposers := ec_proposers c @ [pro], ec_acceptors := ec_acceptors c @ [acc]\<rparr>, rv)))
      else bind_res (strtrim rest) (\<lambda>line.
           (case lookup_option tok of
              None \<Rightarrow> Inr (g, c, False)
            | Some ft \<Rightarrow> (case parse_option ft line g of (g, rv) \<Rightarrow> Inr (g, c, rv))))))"

section \<open>Files\<close>

definition skipped_line :: "string \<Rightarrow> bool" where
  "skipped_line line \<longleftrightarrow> line \<noteq> [] \<and> hd line \<in> {CHR ''#'', CHR 0x0A, CHR 0x0D}"

lemma fgets_shorter: "fgets (Suc n) s = (l, rest) \<Longrightarrow> s \<noteq> [] \<Longrightarrow> length rest < length s"
proof (induction n arbitrary: s l rest)
  case 0
  then show ?case by (cases s) (auto split: if_splits prod.splits)
next
  case (Suc n)
  then obtain c cs where s: "s = c # cs" by (cases s) auto
  show ?case
  proof (cases "c = CHR 0x0A \<or> cs = []")
    case True
    then show ?thesis using Suc.prems s by (auto split: if_splits prod.splits)
  next
    case False
    then obtain l' where "fgets (Suc n) cs = (l', rest)" using Suc.prems(1) s by (auto split: prod.splits)
    then show ?thesis using Suc.IH[of cs l' rest] False s by simp
  qed
qed

lemma fgets_511: "(l, rest) = fgets 511 s \<Longrightarrow> s \<noteq> [] \<Longrightarrow> length rest < length s"
  using fgets_shorter[of 510 s l rest] by simp

text \<open>The loop of \<^verbatim>\<open>evpaxos_config_read\<close> over \<^verbatim>\<open>fgets(line, 512, f)\<close>.\<close>

function read_lines :: "paxos_config \<Rightarrow> evpaxos_config \<Rightarrow> string \<Rightarrow> (paxos_config \<times> evpaxos_config option) res" where
  "read_lines g c s =
     (if s = [] then Inr (g, Some c)
      else (case fgets 511 s of (line, rest) \<Rightarrow>
        if skipped_line line then read_lines g c rest
        else bind_res (parse_line g c line) (\<lambda>(g, c, rv). if rv then read_lines g c rest else Inr (g, None))))"
  by pat_completeness auto
termination
  by (relation "measure (\<lambda>(g, c, s). length s)") (auto simp del: fgets.simps dest: fgets_511)

text \<open>The file is \<open>None\<close> when it cannot be opened or is not a regular file.\<close>

definition evpaxos_config_read :: "paxos_config \<Rightarrow> string option \<Rightarrow> (paxos_config \<times> evpaxos_config option) res" where
  "evpaxos_config_read g file = (case file of None \<Rightarrow> Inr (g, None) | Some s \<Rightarrow> read_lines g config_empty s)"

section \<open>Access\<close>

text \<open>Slots of the arrays behind the last one in use hold zeros.\<close>

definition slot :: "address list \<Rightarrow> int \<Rightarrow> address res" where
  "slot xs i = (if i < 0 \<or> int MAX_N_OF_PROPOSERS \<le> i then Inl OutOfBounds
     else if nat i < length xs then Inr (xs ! nat i) else Inr address_zero)"

record sockaddr_in =
  sin_port :: "16 word"
  sin_addr :: u32

text \<open>\<^verbatim>\<open>inet_addr\<close> reads the dotted address; \<^verbatim>\<open>htons\<close> keeps 16 bits of the port.\<close>

definition address_to_sockaddr :: "(string \<Rightarrow> u32) \<Rightarrow> address \<Rightarrow> sockaddr_in res" where
  "address_to_sockaddr inet_addr a = (case ad_addr a of
      None \<Rightarrow> Inl NullDeref
    | Some s \<Rightarrow> Inr \<lparr>sin_port = word_of_int (ad_port a), sin_addr = inet_addr s\<rparr>)"

definition evpaxos_replica_nodes :: "evpaxos_config \<Rightarrow> int" where
  "evpaxos_replica_nodes ref = int (length (ec_acceptors ref))"

definition evpaxos_acceptor_count :: "evpaxos_config \<Rightarrow> int" where
  "evpaxos_acceptor_count config = int (length (ec_acceptors config))"

definition evpaxos_proposer_address :: "(string \<Rightarrow> u32) \<Rightarrow> evpaxos_config \<Rightarrow> int \<Rightarrow> sockaddr_in res" where
  "evpaxos_proposer_address inet_addr config i = bind_res (slot (ec_proposers config) i) (address_to_sockaddr inet_addr)"

definition evpaxos_proposer_listen_port :: "evpaxos_config \<Rightarrow> int \<Rightarrow> int res" where
  "evpaxos_proposer_listen_port config i = bind_res (slot (ec_proposers config) i) (\<lambda>a. Inr (ad_port a))"

definition evpaxos_acceptor_address :: "(string \<Rightarrow> u32) \<Rightarrow> evpaxos_config \<Rightarrow> int \<Rightarrow> sockaddr_in res" where
  "evpaxos_acceptor_address inet_addr config i = bind_res (slot (ec_acceptors config) i) (address_to_sockaddr inet_addr)"

definition evpaxos_acceptor_listen_port :: "evpaxos_config \<Rightarrow> int \<Rightarrow> int res" where
  "evpaxos_acceptor_listen_port config i = bind_res (slot (ec_acceptors config) i) (\<lambda>a. Inr (ad_port a))"

definition getPGS :: "evpaxos_config \<Rightarrow> nat option" where
  "getPGS c = ec_pgs c"

definition setPGS :: "evpaxos_config \<Rightarrow> nat option \<Rightarrow> evpaxos_config" where
  "setPGS c pgs = c\<lparr>ec_pgs := pgs\<rparr>"

end
