(* ===== verification/Peers.thy ===== *)
theory Peers
  imports Wire Config
begin

text \<open>
  The connections of a process, src/evpaxos/peers.c. A process keeps an array of peers it connects to
  (the acceptors), an array of clients that connected to it, and a table of subscriptions that maps
  message types to callbacks. The connections themselves (sockets, timers, the event loop) are
  libevent's; the model keeps of each the bytes written to it, its status, and the connection attempts
  handed to libevent. The reading loop \<open>on_read\<close>, the dispatch to the callbacks, the bookkeeping of
  clients and the choice of the acceptors to connect or forward to are modelled as written. The lock
  \<^verbatim>\<open>pgs\<close> serialises the callbacks of a process; one callback at a time is what is modelled, but the
  read of the configuration that fetches the lock is kept, because the configuration can be freed.
\<close>

section \<open>State\<close>

text \<open>The event flags libevent reports for a connection; a report is a set of flags.\<close>

datatype bev_flag = BEV_EVENT_READING | BEV_EVENT_WRITING | BEV_EVENT_EOF | BEV_EVENT_ERROR
  | BEV_EVENT_TIMEOUT | BEV_EVENT_CONNECTED

text \<open>
  \<open>peer_out\<close> holds the bytes written to the current connection; \<open>peer_reconnect\<close> tells whether the
  peer owns a reconnect timer and \<open>peer_waiting\<close> whether that timer is armed; \<open>peer_attempts\<close> counts
  the connection attempts.
\<close>

record peer =
  peer_id :: int
  peer_status :: "bev_flag set"
  peer_out :: "u8 list"
  peer_reconnect :: bool
  peer_waiting :: bool
  peer_attempts :: nat
  peer_addr :: sockaddr_in

text \<open>The type tags of \<^verbatim>\<open>enum paxos_message_type\<close>.\<close>

datatype paxos_message_type = TypePrepare | TypePromise | TypeAccept | TypeAccepted | TypePreempted
  | TypeRepeat | TypeTrim | TypeAcceptorState | TypeClientValue

fun message_type :: "paxos_message \<Rightarrow> paxos_message_type" where
  "message_type (PAXOS_PREPARE _) = TypePrepare"
| "message_type (PAXOS_PROMISE _) = TypePromise"
| "message_type (PAXOS_ACCEPT _) = TypeAccept"
| "message_type (PAXOS_ACCEPTED _) = TypeAccepted"
| "message_type (PAXOS_PREEMPTED _) = TypePreempted"
| "message_type (PAXOS_REPEAT _) = TypeRepeat"
| "message_type (PAXOS_TRIM _) = TypeTrim"
| "message_type (PAXOS_ACCEPTOR_STATE _) = TypeAcceptorState"
| "message_type (PAXOS_CLIENT_VALUE _) = TypeClientValue"

text \<open>
  A subscription is a type and a callback; \<open>'c\<close> names the callback and its argument. The
  configuration is \<open>None\<close> once it was freed. The counters are those of message.c.
\<close>

record 'c subscription =
  sub_type :: paxos_message_type
  sub_callback :: 'c

record 'c peers =
  ps_peers :: "peer list"
  ps_clients :: "peer list"
  ps_listener :: "int option"
  ps_config :: "evpaxos_config option"
  ps_ownid :: int
  ps_subs :: "'c subscription list"
  ps_nmsg :: "64 word"
  ps_nbytes :: "64 word"

text \<open>A pointer to a peer: an entry of one of the two arrays.\<close>

datatype peer_ref = AcceptorPeer nat | ClientPeer nat

section \<open>Life cycle and access\<close>

definition make_peer :: "int \<Rightarrow> sockaddr_in \<Rightarrow> peer" where
  "make_peer pid addr = \<lparr>peer_id = pid, peer_status = {BEV_EVENT_EOF}, peer_out = [], peer_reconnect = False,
     peer_waiting = False, peer_attempts = 0, peer_addr = addr\<rparr>"

definition peers_new :: "64 word \<Rightarrow> 64 word \<Rightarrow> evpaxos_config \<Rightarrow> 'c peers" where
  "peers_new nmsg nbytes config = \<lparr>ps_peers = [], ps_clients = [], ps_listener = None, ps_config = Some config,
     ps_ownid = -1, ps_subs = [], ps_nmsg = nmsg, ps_nbytes = nbytes\<rparr>"

text \<open>Reading the configuration through the pointer the peers keep.\<close>

definition getconfigfrompeers :: "'c peers \<Rightarrow> evpaxos_config res" where
  "getconfigfrompeers ps = (case ps_config ps of None \<Rightarrow> Inl Dangling | Some c \<Rightarrow> Inr c)"

definition peers_count :: "'c peers \<Rightarrow> int" where
  "peers_count ps = int (length (ps_peers ps))"

definition connect_peer :: "peer \<Rightarrow> peer" where
  "connect_peer p = p\<lparr>peer_attempts := peer_attempts p + 1\<rparr>"

definition on_connection_timeout :: "peer \<Rightarrow> peer" where
  "on_connection_timeout p = connect_peer (p\<lparr>peer_waiting := False\<rparr>)"

definition peers_connect :: "'c peers \<Rightarrow> int \<Rightarrow> sockaddr_in \<Rightarrow> 'c peers" where
  "peers_connect ps pid addr =
     ps\<lparr>ps_peers := ps_peers ps @ [connect_peer ((make_peer pid addr)\<lparr>peer_reconnect := True\<rparr>)]\<rparr>"

text \<open>The four conditions under which replica \<open>r\<close> connects to acceptor \<open>i\<close>.\<close>

definition connects_to :: "address \<Rightarrow> address \<Rightarrow> bool" where
  "connects_to own other \<longleftrightarrow>
     ad_groupid other = ad_groupid own \<or>
     ad_groupid own \<noteq> ad_parentid own \<and> ad_groupid other = ad_parentid own \<or>
     ad_groupid own \<noteq> ad_parentid own \<and> ad_groupid other \<noteq> ad_parentid other \<and> ad_parentid other = ad_parentid own \<or>
     ad_groupid other \<noteq> ad_parentid other \<and> ad_parentid other = ad_groupid own"

fun connect_loop :: "(string \<Rightarrow> u32) \<Rightarrow> evpaxos_config \<Rightarrow> int \<Rightarrow> nat list \<Rightarrow> 'c peers \<Rightarrow> 'c peers res" where
  "connect_loop inet_addr c own [] ps = Inr ps"
| "connect_loop inet_addr c own (i # is) ps =
     bind_res (evpaxos_acceptor_address inet_addr c (int i)) (\<lambda>addr.
     bind_res (slot (ec_acceptors c) (int i)) (\<lambda>other.
     bind_res (slot (ec_acceptors c) own) (\<lambda>me.
     connect_loop inet_addr c own is (if connects_to me other then peers_connect ps (int i) addr else ps))))"

definition peers_connect_to_acceptors :: "(string \<Rightarrow> u32) \<Rightarrow> 'c peers \<Rightarrow> int \<Rightarrow> 'c peers res" where
  "peers_connect_to_acceptors inet_addr ps replica_id =
     bind_res (getconfigfrompeers ps) (\<lambda>c.
     connect_loop inet_addr c replica_id [0..<nat (evpaxos_acceptor_count c)] (ps\<lparr>ps_ownid := replica_id\<rparr>))"

text \<open>The peer a pointer stands for, and the update through it.\<close>

fun peer_at :: "peer_ref \<Rightarrow> 'c peers \<Rightarrow> peer res" where
  "peer_at (AcceptorPeer i) ps = (if i < length (ps_peers ps) then Inr (ps_peers ps ! i) else Inl Dangling)"
| "peer_at (ClientPeer i) ps = (if i < length (ps_clients ps) then Inr (ps_clients ps ! i) else Inl Dangling)"

fun peer_update :: "peer_ref \<Rightarrow> peer \<Rightarrow> 'c peers \<Rightarrow> 'c peers" where
  "peer_update (AcceptorPeer i) p ps = ps\<lparr>ps_peers := (ps_peers ps)[i := p]\<rparr>"
| "peer_update (ClientPeer i) p ps = ps\<lparr>ps_clients := (ps_clients ps)[i := p]\<rparr>"

definition peer_connected :: "peer \<Rightarrow> bool" where
  "peer_connected p \<longleftrightarrow> peer_status p = {BEV_EVENT_CONNECTED}"

fun find_peer :: "peer list \<Rightarrow> nat \<Rightarrow> int \<Rightarrow> nat option" where
  "find_peer [] i pid = None"
| "find_peer (p # ps) i pid = (if peer_id p = pid then Some i else find_peer ps (Suc i) pid)"

definition peers_get_acceptor :: "'c peers \<Rightarrow> int \<Rightarrow> peer_ref option" where
  "peers_get_acceptor ps pid = map_option AcceptorPeer (find_peer (ps_peers ps) 0 pid)"

text \<open>\<^verbatim>\<open>evconnlistener_new_bind\<close> succeeds or not.\<close>

definition peers_listen :: "(int \<Rightarrow> bool) \<Rightarrow> 'c peers \<Rightarrow> int \<Rightarrow> 'c peers \<times> bool" where
  "peers_listen bind_ok ps port =
     (if bind_ok port then (ps\<lparr>ps_listener := Some port\<rparr>, True) else (ps\<lparr>ps_listener := None\<rparr>, False))"

section \<open>Sending\<close>

text \<open>\<^verbatim>\<open>send_paxos_message(peer_get_buffer(p), msg)\<close>.\<close>

definition peer_send :: "(pack_call list \<Rightarrow> u8 list) \<Rightarrow> paxos_message \<Rightarrow> peer_ref \<Rightarrow> 'c peers \<Rightarrow> 'c peers res" where
  "peer_send enc msg r ps =
     bind_res (peer_at r ps) (\<lambda>p.
     bind_res (send_paxos_message enc msg \<lparr>io_nmsg = ps_nmsg ps, io_nbytes = ps_nbytes ps, io_out = peer_out p\<rparr>) (\<lambda>io.
     Inr (peer_update r (p\<lparr>peer_out := io_out io\<rparr>) (ps\<lparr>ps_nmsg := io_nmsg io, ps_nbytes := io_nbytes io\<rparr>))))"

fun peers_foreach :: "(peer_ref \<Rightarrow> 'c peers \<Rightarrow> 'c peers res) \<Rightarrow> peer_ref list \<Rightarrow> 'c peers \<Rightarrow> 'c peers res" where
  "peers_foreach cb [] ps = Inr ps"
| "peers_foreach cb (r # rs) ps = bind_res (cb r ps) (peers_foreach cb rs)"

definition peers_foreach_acceptor :: "(peer_ref \<Rightarrow> 'c peers \<Rightarrow> 'c peers res) \<Rightarrow> 'c peers \<Rightarrow> 'c peers res" where
  "peers_foreach_acceptor cb ps = peers_foreach cb (map AcceptorPeer [0..<length (ps_peers ps)]) ps"

definition peers_foreach_client :: "(peer_ref \<Rightarrow> 'c peers \<Rightarrow> 'c peers res) \<Rightarrow> 'c peers \<Rightarrow> 'c peers res" where
  "peers_foreach_client cb ps = peers_foreach cb (map ClientPeer [0..<length (ps_clients ps)]) ps"

text \<open>
  The test of \<^verbatim>\<open>peers_foreach_down_acceptor\<close> on the configuration entry whose index is the index of the
  peer in the array of peers.
\<close>

definition is_down :: "address \<Rightarrow> address \<Rightarrow> bool" where
  "is_down own other \<longleftrightarrow>
     ad_groupid own = ad_groupid other \<and> ad_groupid other = ad_parentid other \<or>
     ad_groupid own = ad_parentid other \<and> ad_groupid other \<noteq> ad_parentid other"

fun down_loop :: "(peer_ref \<Rightarrow> 'c peers \<Rightarrow> 'c peers res) \<Rightarrow> evpaxos_config \<Rightarrow> address \<Rightarrow> nat list \<Rightarrow> 'c peers \<Rightarrow> 'c peers res" where
  "down_loop cb c own [] ps = Inr ps"
| "down_loop cb c own (i # is) ps =
     bind_res (slot (ec_acceptors c) (int i)) (\<lambda>other.
     bind_res (if is_down own other then cb (AcceptorPeer i) ps else Inr ps) (down_loop cb c own is))"

definition peers_foreach_down_acceptor :: "(peer_ref \<Rightarrow> 'c peers \<Rightarrow> 'c peers res) \<Rightarrow> 'c peers \<Rightarrow> 'c peers res" where
  "peers_foreach_down_acceptor cb ps =
     bind_res (getconfigfrompeers ps) (\<lambda>c.
     bind_res (slot (ec_acceptors c) (ps_ownid ps)) (\<lambda>own.
     if ad_groupid own = ad_parentid own then Inr ps
     else down_loop cb c own [0..<length (ps_peers ps)] ps))"

section \<open>Subscriptions and reading\<close>

definition MAX_SUBS :: nat where
  "MAX_SUBS = 32"

definition peers_subscribe :: "'c peers \<Rightarrow> paxos_message_type \<Rightarrow> 'c \<Rightarrow> 'c peers res" where
  "peers_subscribe ps ty cb =
     (if length (ps_subs ps) < MAX_SUBS
      then Inr (ps\<lparr>ps_subs := ps_subs ps @ [\<lparr>sub_type = ty, sub_callback = cb\<rparr>]\<rparr>)
      else Inl OutOfBounds)"

text \<open>
  A callback works on the peers and on the state \<open>'x\<close> of the components of the process; \<open>call\<close> says
  what each callback does. The loop reads the number of subscriptions anew in each round.
\<close>

type_synonym ('c, 'x) caller = "'c \<Rightarrow> peer_ref \<Rightarrow> paxos_message \<Rightarrow> 'c peers \<times> 'x \<Rightarrow> ('c peers \<times> 'x) res"

fun dispatch_loop :: "('c, 'x) caller \<Rightarrow> peer_ref \<Rightarrow> paxos_message \<Rightarrow> nat list \<Rightarrow> 'c peers \<times> 'x \<Rightarrow> ('c peers \<times> 'x) res" where
  "dispatch_loop call r msg [] s = Inr s"
| "dispatch_loop call r msg (i # is) s =
     (if i < length (ps_subs (fst s))
      then let sub = ps_subs (fst s) ! i in
           bind_res (if sub_type sub = message_type msg then call (sub_callback sub) r msg s else Inr s)
             (dispatch_loop call r msg is)
      else Inr s)"

definition dispatch_message :: "('c, 'x) caller \<Rightarrow> peer_ref \<Rightarrow> paxos_message \<Rightarrow> 'c peers \<times> 'x \<Rightarrow> ('c peers \<times> 'x) res" where
  "dispatch_message call r msg s = dispatch_loop call r msg [0..<MAX_SUBS] s"

text \<open>
  The reading loop: the input buffer of the connection, then the state. Each round that finds a
  message takes at least one byte off the buffer when the decoder reports how much it consumed, so
  \<open>length buf + 1\<close> rounds are enough; a decoder that reports a message and no bytes keeps the loop
  running for ever.
\<close>

fun read_loop :: "unpacker \<Rightarrow> ('c, 'x) caller \<Rightarrow> peer_ref \<Rightarrow> nat \<Rightarrow> u8 list \<Rightarrow> 'c peers \<times> 'x \<Rightarrow> (u8 list \<times> 'c peers \<times> 'x) res" where
  "read_loop unpack_next call r 0 buf s = Inl Diverges"
| "read_loop unpack_next call r (Suc n) buf s =
     bind_res (recv_paxos_message unpack_next buf accepted_zero) (\<lambda>(buf, m). case m of
        None \<Rightarrow> Inr (buf, s)
      | Some msg \<Rightarrow>
          bind_res (dispatch_message call r msg s) (\<lambda>s.
          bind_res (paxos_message_destroy msg) (\<lambda>_. read_loop unpack_next call r n buf s)))"

definition on_read :: "unpacker \<Rightarrow> ('c, 'x) caller \<Rightarrow> peer_ref \<Rightarrow> u8 list \<Rightarrow> 'c peers \<times> 'x \<Rightarrow> (u8 list \<times> 'c peers \<times> 'x) res" where
  "on_read unpack_next call r buf s =
     bind_res (getconfigfrompeers (fst s)) (\<lambda>_. read_loop unpack_next call r (length buf + 1) buf s)"

section \<open>Connections coming and going\<close>

definition on_peer_event :: "bev_flag set \<Rightarrow> peer_ref \<Rightarrow> 'c peers \<Rightarrow> 'c peers res" where
  "on_peer_event ev r ps =
     bind_res (getconfigfrompeers ps) (\<lambda>_.
     bind_res (peer_at r ps) (\<lambda>p.
     Inr (if BEV_EVENT_CONNECTED \<in> ev then peer_update r (p\<lparr>peer_status := ev\<rparr>) ps
          else if BEV_EVENT_ERROR \<in> ev \<or> BEV_EVENT_EOF \<in> ev
          then peer_update r (p\<lparr>peer_out := [], peer_waiting := True, peer_status := ev\<rparr>) ps
          else ps)))"

text \<open>
  The loop of \<^verbatim>\<open>on_client_event\<close> moves the clients behind the one that left down by one place and
  renumbers them. It starts at the id of the client, not at its place in the array: were the two to
  differ, a pointer to the freed client would stay in the array.
\<close>

fun shift_clients :: "peer list \<Rightarrow> nat list \<Rightarrow> peer list" where
  "shift_clients cs [] = cs"
| "shift_clients cs (i # is) = shift_clients (cs[i := (cs ! Suc i)\<lparr>peer_id := int i\<rparr>]) is"

definition on_client_event :: "bev_flag set \<Rightarrow> nat \<Rightarrow> 'c peers \<Rightarrow> 'c peers res" where
  "on_client_event ev i ps =
     bind_res (getconfigfrompeers ps) (\<lambda>_.
     bind_res (peer_at (ClientPeer i) ps) (\<lambda>p.
     if BEV_EVENT_EOF \<in> ev \<or> BEV_EVENT_ERROR \<in> ev
     then if peer_id p \<noteq> int i then Inl Dangling
          else let n = length (ps_clients ps) - 1 in
               Inr (ps\<lparr>ps_clients := take n (shift_clients (ps_clients ps) [nat (peer_id p)..<n])\<rparr>)
     else Inr ps))"

definition on_accept :: "sockaddr_in \<Rightarrow> 'c peers \<Rightarrow> 'c peers res" where
  "on_accept addr ps =
     bind_res (getconfigfrompeers ps) (\<lambda>_.
     Inr (ps\<lparr>ps_clients := ps_clients ps @ [make_peer (int (length (ps_clients ps))) addr]\<rparr>))"

section \<open>The callbacks of a process\<close>

text \<open>The callbacks that evacceptor.c, evproposer.c and evlearner.c subscribe, by name.\<close>

datatype ev_callback =
    Evacceptor_handle_prepare | Evacceptor_handle_accept | Evacceptor_handle_repeat | Evacceptor_handle_trim
  | Evacceptor_fwd_promise | Evacceptor_fwd_accepted | Evacceptor_fwd_preempted
  | Evproposer_handle_promise | Evproposer_handle_accepted | Evproposer_handle_preempted
  | Evproposer_handle_client_value | Evproposer_handle_acceptor_state
  | Evlearner_handle_accepted

fun subscribe_all :: "(paxos_message_type \<times> 'c) list \<Rightarrow> 'c peers \<Rightarrow> 'c peers res" where
  "subscribe_all [] ps = Inr ps"
| "subscribe_all ((ty, cb) # xs) ps = bind_res (peers_subscribe ps ty cb) (subscribe_all xs)"

end
