(* ===== verification/Evacceptor.thy ===== *)
theory Evacceptor
  imports Acceptor Peers
begin

text \<open>
  The acceptor process, src/evpaxos/evacceptor.c: the callbacks that pass messages between the
  connections and the acceptor of \<open>Acceptor\<close>, the forwarding to and from subordinate acceptors, the
  count of subordinates over the tree of groups, and the set-up. A callback takes the peer the message
  came from, the message, and the peers and the acceptor; reading a member of the message union that
  the message does not hold is \<open>UnionMisread\<close>. The callbacks restore the message fields they overwrite
  before they return, so the message is passed by value.
\<close>

section \<open>State\<close>

text \<open>\<open>ea_timer\<close> is the interval of the armed timer, in seconds.\<close>

record 'h evacceptor =
  ea_state :: "'h acceptor"
  ea_subordinates :: int
  ea_timer :: "int option"

type_synonym ('h, 'c) ea_world = "'c peers \<times> 'h evacceptor"

section \<open>Forwarding answers of subordinates\<close>

definition forward_to :: "(pack_call list \<Rightarrow> u8 list) \<Rightarrow> int \<Rightarrow> paxos_message \<Rightarrow> 'c peers \<Rightarrow> 'c peers res" where
  "forward_to enc srcid msg ps =
     (if srcid \<ge> 0
      then (case peers_get_acceptor ps srcid of None \<Rightarrow> Inr ps | Some srcpeer \<Rightarrow> peer_send enc msg srcpeer ps)
      else Inr ps)"

fun evacceptor_fwd_promise :: "(pack_call list \<Rightarrow> u8 list) \<Rightarrow> peer_ref \<Rightarrow> paxos_message \<Rightarrow> ('h, 'c) ea_world \<Rightarrow> ('h, 'c) ea_world res" where
  "evacceptor_fwd_promise enc r (PAXOS_PROMISE pr) (ps, a) =
     bind_res (get_srcid_promise_and_adjust pr (ea_state a)) (\<lambda>(st, srcid).
     bind_res (forward_to enc srcid (PAXOS_PROMISE pr) ps) (\<lambda>ps. Inr (ps, a\<lparr>ea_state := st\<rparr>)))"
| "evacceptor_fwd_promise enc r _ s = Inr s"

fun evacceptor_fwd_preempted :: "(pack_call list \<Rightarrow> u8 list) \<Rightarrow> peer_ref \<Rightarrow> paxos_message \<Rightarrow> ('h, 'c) ea_world \<Rightarrow> ('h, 'c) ea_world res" where
  "evacceptor_fwd_preempted enc r (PAXOS_PREEMPTED ac) (ps, a) =
     bind_res (get_srcid_preempted ac (ea_state a)) (\<lambda>(st, srcid).
     bind_res (forward_to enc srcid (PAXOS_PREEMPTED ac) ps) (\<lambda>ps. Inr (ps, a\<lparr>ea_state := st\<rparr>)))"
| "evacceptor_fwd_preempted enc r _ s = Inr s"

fun evacceptor_fwd_accepted :: "(pack_call list \<Rightarrow> u8 list) \<Rightarrow> peer_ref \<Rightarrow> paxos_message \<Rightarrow> ('h, 'c) ea_world \<Rightarrow> ('h, 'c) ea_world res" where
  "evacceptor_fwd_accepted enc r (PAXOS_ACCEPTED ac) (ps, a) =
     bind_res (get_srcid_accepted ac (ea_state a)) (\<lambda>(st, srcid).
     bind_res (forward_to enc srcid (PAXOS_ACCEPTED ac) ps) (\<lambda>ps. Inr (ps, a\<lparr>ea_state := st\<rparr>)))"
| "evacceptor_fwd_accepted enc r _ s = Inr s"

section \<open>Requests\<close>

fun evacceptor_handle_prepare :: "(pack_call list \<Rightarrow> u8 list) \<Rightarrow> peer_ref \<Rightarrow> paxos_message \<Rightarrow> ('h, 'c) ea_world \<Rightarrow> ('h, 'c) ea_world res" where
  "evacceptor_handle_prepare enc r (PAXOS_PREPARE prepare) (ps, a) =
     bind_res (peers_foreach_down_acceptor
        (peer_send enc (PAXOS_PREPARE (prepare\<lparr>pp_src := u32_of_int (get_aid (ea_state a))\<rparr>))) ps) (\<lambda>ps.
     bind_res (acceptor_receive_prepare (int_of_u32 (pp_src prepare)) (ea_state a) prepare) (\<lambda>(st, out).
     (case out of
        None \<Rightarrow> Inr (ps, a\<lparr>ea_state := st\<rparr>)
      | Some m \<Rightarrow> bind_res (peer_send enc m r ps) (\<lambda>ps.
                  bind_res (paxos_message_destroy m) (\<lambda>_. Inr (ps, a\<lparr>ea_state := st\<rparr>))))))"
| "evacceptor_handle_prepare enc r _ s = Inl UnionMisread"

definition send_answer :: "(pack_call list \<Rightarrow> u8 list) \<Rightarrow> peer_ref \<Rightarrow> paxos_message \<Rightarrow> 'c peers \<Rightarrow> 'c peers res" where
  "send_answer enc r out ps = (case out of
      PAXOS_ACCEPTED _ \<Rightarrow> peers_foreach_client (peer_send enc out) ps
    | PAXOS_PREEMPTED _ \<Rightarrow> peer_send enc out r ps
    | _ \<Rightarrow> Inr ps)"

fun evacceptor_handle_accept :: "(pack_call list \<Rightarrow> u8 list) \<Rightarrow> peer_ref \<Rightarrow> paxos_message \<Rightarrow> ('h, 'c) ea_world \<Rightarrow> ('h, 'c) ea_world res" where
  "evacceptor_handle_accept enc r (PAXOS_ACCEPT accept) (ps, a) =
     bind_res (peers_foreach_down_acceptor (peer_send enc (PAXOS_ACCEPT accept)) ps) (\<lambda>ps.
     bind_res (acceptor_receive_accept (ea_state a) accept) (\<lambda>(st, out).
     (case out of
        None \<Rightarrow> Inr (ps, a\<lparr>ea_state := st\<rparr>)
      | Some m \<Rightarrow> bind_res (send_answer enc r m ps) (\<lambda>ps.
                  bind_res (paxos_message_destroy m) (\<lambda>_. Inr (ps, a\<lparr>ea_state := st\<rparr>))))))"
| "evacceptor_handle_accept enc r _ s = Inl UnionMisread"

text \<open>
  The body of the loop of \<^verbatim>\<open>evacceptor_handle_repeat\<close> and the loop. The counter is 32 bits wide: after
  instance \<open>2^32 - 1\<close> it is 0 again, and when the upper bound is \<open>2^32 - 1\<close> the condition
  \<^verbatim>\<open>iid <= repeat->to\<close> holds for ever.
\<close>

definition repeat_one :: "(pack_call list \<Rightarrow> u8 list) \<Rightarrow> peer_ref \<Rightarrow> iid_t \<Rightarrow> ('h, 'c) ea_world \<Rightarrow> ('h, 'c) ea_world res" where
  "repeat_one enc r iid s = (case s of (ps, a) \<Rightarrow>
     bind_res (acceptor_receive_repeat (ea_state a) iid) (\<lambda>(st, out).
     (case out of
        None \<Rightarrow> Inr (ps, a\<lparr>ea_state := st\<rparr>)
      | Some acc \<Rightarrow>
          bind_res (peer_send enc (PAXOS_ACCEPTED acc) r ps) (\<lambda>ps.
          bind_res (paxos_accepted_destroy acc) (\<lambda>_. Inr (ps, a\<lparr>ea_state := st\<rparr>))))))"

lemma u32_inc_measure: "(n :: u32) + 1 \<noteq> 0 \<Longrightarrow> 2 ^ 32 - unat (n + 1) < 2 ^ 32 - unat n"
  using u32_inc_room[of n] by (simp add: u32_inc_unat)

function repeat_loop :: "(pack_call list \<Rightarrow> u8 list) \<Rightarrow> peer_ref \<Rightarrow> iid_t \<Rightarrow> iid_t \<Rightarrow> ('h, 'c) ea_world \<Rightarrow> ('h, 'c) ea_world res" where
  "repeat_loop enc r iid to s =
     (if iid \<le> to
      then bind_res (repeat_one enc r iid s) (\<lambda>s. if iid + 1 = 0 then Inl Diverges else repeat_loop enc r (iid + 1) to s)
      else Inr s)"
  by pat_completeness auto
termination
  by (relation "measure (\<lambda>(enc, r, iid, to, s). 2 ^ 32 - unat iid)") (auto dest: u32_inc_measure)

declare repeat_loop.simps [simp del]

fun evacceptor_handle_repeat :: "(pack_call list \<Rightarrow> u8 list) \<Rightarrow> peer_ref \<Rightarrow> paxos_message \<Rightarrow> ('h, 'c) ea_world \<Rightarrow> ('h, 'c) ea_world res" where
  "evacceptor_handle_repeat enc r (PAXOS_REPEAT rep) s = repeat_loop enc r (rp_from rep) (rp_to rep) s"
| "evacceptor_handle_repeat enc r _ s = Inl UnionMisread"

fun evacceptor_handle_trim :: "(pack_call list \<Rightarrow> u8 list) \<Rightarrow> peer_ref \<Rightarrow> paxos_message \<Rightarrow> ('h, 'c) ea_world \<Rightarrow> ('h, 'c) ea_world res" where
  "evacceptor_handle_trim enc r (PAXOS_TRIM trim) (ps, a) =
     bind_res (peers_foreach_down_acceptor (peer_send enc (PAXOS_TRIM trim)) ps) (\<lambda>ps.
     bind_res (acceptor_receive_trim (ea_state a) trim) (\<lambda>(st, _). Inr (ps, a\<lparr>ea_state := st\<rparr>)))"
| "evacceptor_handle_trim enc r _ s = Inl UnionMisread"

section \<open>Statistics\<close>

text \<open>
  The timer callback writes a line of counters, at most once a second, and re-arms the timer; the code
  that would send the acceptor's state to the clients follows a \<^verbatim>\<open>return\<close> and never runs. \<open>now\<close> is the
  clock, \<open>file_ok\<close> whether the file could be opened.
\<close>

record msg_stats =
  prevmsg :: "64 word"
  etprev :: "64 word"
  bytesprev :: "64 word"

record stats_line =
  sl_nmsg :: "64 word"
  sl_nsec :: "64 word"
  sl_replicas :: int
  sl_msgrate :: "64 word"
  sl_bytes :: "64 word"
  sl_byterate :: "64 word"

definition send_acceptor_state ::
  "int \<Rightarrow> bool \<Rightarrow> msg_stats \<Rightarrow> ('h, 'c) ea_world \<Rightarrow> (msg_stats \<times> stats_line option \<times> ('h, 'c) ea_world) res" where
  "send_acceptor_state now file_ok g s = (case s of (ps, a) \<Rightarrow>
     let nsec = word_of_int now - etprev g in
     if nsec \<noteq> 0
     then bind_res (getconfigfrompeers ps) (\<lambda>c.
          if \<not> file_ok then Inl NullDeref
          else Inr (\<lparr>prevmsg = ps_nmsg ps, etprev = word_of_int now, bytesprev = ps_nbytes ps\<rparr>,
                    Some \<lparr>sl_nmsg = ps_nmsg ps, sl_nsec = nsec, sl_replicas = int (length (ec_acceptors c)),
                          sl_msgrate = (ps_nmsg ps - prevmsg g) div nsec, sl_bytes = ps_nbytes ps,
                          sl_byterate = (ps_nbytes ps - bytesprev g) div nsec\<rparr>,
                    ps, a\<lparr>ea_timer := Some 2\<rparr>))
     else Inr (g, None, ps, a\<lparr>ea_timer := Some 2\<rparr>))"

section \<open>Counting subordinates\<close>

text \<open>
  The arrays \<^verbatim>\<open>scanned\<close> and \<^verbatim>\<open>toscan\<close> hold group numbers, \<open>-1\<close> for a free slot. \<open>store_group\<close> writes a group
  to the first free slot unless a slot before it holds the group already.
\<close>

fun store_group :: "int list \<Rightarrow> int \<Rightarrow> int list" where
  "store_group [] g = []"
| "store_group (x # xs) g = (if x = g then x # xs else if x = -1 then g # xs else x # store_group xs g)"

definition scan_entry :: "address \<Rightarrow> int \<Rightarrow> int list \<Rightarrow> address \<Rightarrow> int list \<times> int \<Rightarrow> int list \<times> int" where
  "scan_entry own grp scanned a s = (case s of (toscan, ncnt) \<Rightarrow>
     if ad_groupid a = grp \<and> ad_groupid a = ad_parentid own then (toscan, ncnt + 1)
     else if ad_parentid a = grp
     then (if ad_groupid a \<in> set scanned \<or> ad_groupid a \<in> set toscan then toscan else store_group toscan (ad_groupid a), ncnt + 1)
     else (toscan, ncnt))"

text \<open>
  The loop \<^verbatim>\<open>while (toscan[0] != -1)\<close>. Every round moves one group from \<^verbatim>\<open>toscan\<close> to \<^verbatim>\<open>scanned\<close>, and no
  group comes back, so there are at most as many rounds as acceptors (\<open>subordinates_counted\<close>).
\<close>

fun scan_groups :: "nat \<Rightarrow> address list \<Rightarrow> address \<Rightarrow> int list \<Rightarrow> int list \<Rightarrow> int \<Rightarrow> int res" where
  "scan_groups 0 accs own scanned toscan ncnt = Inl Diverges"
| "scan_groups (Suc k) accs own scanned toscan ncnt =
     (case toscan of
        [] \<Rightarrow> Inl OutOfBounds
      | grp # rest \<Rightarrow>
          if grp = -1 then Inr ncnt
          else let scanned = store_group scanned grp in
               (case fold (scan_entry own grp scanned) accs (rest @ [-1], ncnt) of
                  (toscan, ncnt) \<Rightarrow> scan_groups k accs own scanned toscan ncnt))"

definition count_subordinates :: "evpaxos_config \<Rightarrow> int \<Rightarrow> int res" where
  "count_subordinates c aid =
     bind_res (slot (ec_acceptors c) aid) (\<lambda>own.
     let n = length (ec_acceptors c); free = replicate n (-1) in
     if ad_groupid own \<noteq> ad_parentid own
     then bind_res (awrite (Some free) 0 (ad_groupid own)) (\<lambda>toscan.
          scan_groups (n + 1) (ec_acceptors c) own free (the toscan) 0)
     else scan_groups (n + 1) (ec_acceptors c) own free free 0)"

section \<open>Set-up\<close>

definition evacceptor_subs :: "(paxos_message_type \<times> ev_callback) list" where
  "evacceptor_subs = [(TypePrepare, Evacceptor_handle_prepare), (TypeAccept, Evacceptor_handle_accept),
     (TypeRepeat, Evacceptor_handle_repeat), (TypeTrim, Evacceptor_handle_trim),
     (TypePromise, Evacceptor_fwd_promise), (TypeAccepted, Evacceptor_fwd_accepted),
     (TypePreempted, Evacceptor_fwd_preempted)]"

text \<open>\<open>None\<close> when the process ends because the storage backend is not available.\<close>

definition evacceptor_init_internal ::
  "paxos_config \<Rightarrow> int \<Rightarrow> int \<Rightarrow> evpaxos_config \<Rightarrow> ev_callback peers \<Rightarrow> (mem_storage, ev_callback) ea_world option res" where
  "evacceptor_init_internal cfg junk aid c ps = (case acceptor_new cfg junk aid of
      None \<Rightarrow> Inr None
    | Some st \<Rightarrow>
        bind_res (count_subordinates c aid) (\<lambda>ncnt.
        bind_res (subscribe_all evacceptor_subs ps) (\<lambda>ps.
        Inr (Some (ps, \<lparr>ea_state = setsubordinates st ncnt, ea_subordinates = ncnt, ea_timer = Some 2\<rparr>)))))"

text \<open>
  The stand-alone acceptor. It frees the configuration at the end, which the peers keep a pointer to.
\<close>

definition evacceptor_init ::
  "paxos_config \<Rightarrow> (int \<Rightarrow> bool) \<Rightarrow> int \<Rightarrow> int \<Rightarrow> string option \<Rightarrow> (paxos_config \<times> (mem_storage, ev_callback) ea_world option) res" where
  "evacceptor_init cfg bind_ok junk aid file =
     bind_res (evpaxos_config_read cfg file) (\<lambda>(cfg, conf). case conf of
        None \<Rightarrow> Inr (cfg, None)
      | Some c \<Rightarrow>
          if aid < 0 \<or> aid \<ge> evpaxos_acceptor_count c then Inr (cfg, None)
          else bind_res (evpaxos_acceptor_listen_port c aid) (\<lambda>port.
               (case peers_listen bind_ok (peers_new 0 0 c) port of (ps, ok) \<Rightarrow>
                  if \<not> ok then Inr (cfg, None)
                  else bind_res (evacceptor_init_internal cfg junk aid c ps) (\<lambda>r. case r of
                         None \<Rightarrow> Inr (cfg, None)
                       | Some (ps, a) \<Rightarrow> Inr (cfg, Some (ps\<lparr>ps_config := None\<rparr>, a))))))"

end
