(* ===== verification/Quorum.thy ===== *)
theory Quorum
  imports Paxos_Types
begin

text \<open>
  \<^verbatim>\<open>paxos/quorum.c\<close>: a counter of distinct acceptors over a flag array indexed by acceptor id. An
  id outside of the array is a fault. The flags and the counter agree at all times, a second answer
  of the same acceptor does not count, and two quorums of the same system share an acceptor
  (interface \<open>majority\<close>).
\<close>

section \<open>Counting acceptors\<close>

record quorum =
  qr_count :: int
  qr_quorum :: int
  qr_acceptors :: int
  qr_acceptor_ids :: "int list"

definition quorum_clear :: "quorum \<Rightarrow> quorum" where
  "quorum_clear q = q\<lparr>qr_count := 0, qr_acceptor_ids := replicate (nat (qr_acceptors q)) 0\<rparr>"

definition quorum_init :: "int \<Rightarrow> quorum" where
  "quorum_init acceptors = quorum_clear
     \<lparr>qr_count = 0, qr_quorum = paxos_quorum acceptors, qr_acceptors = acceptors, qr_acceptor_ids = []\<rparr>"

text \<open>\<^verbatim>\<open>quorum_add\<close> returns whether the acceptor is new; the index is a C \<^verbatim>\<open>int\<close>.\<close>

definition quorum_add :: "quorum \<Rightarrow> int \<Rightarrow> (quorum \<times> bool) res" where
  "quorum_add q i =
     (if 0 \<le> i \<and> i < int (length (qr_acceptor_ids q))
      then if qr_acceptor_ids q ! nat i = 0
           then Inr (q\<lparr>qr_count := qr_count q + 1,
                       qr_acceptor_ids := (qr_acceptor_ids q)[nat i := 1]\<rparr>, True)
           else Inr (q, False)
      else Inl OutOfBounds)"

definition quorum_reached :: "quorum \<Rightarrow> bool" where
  "quorum_reached q \<longleftrightarrow> qr_count q \<ge> qr_quorum q"

section \<open>The acceptors counted\<close>

definition quorum_members :: "quorum \<Rightarrow> int set" where
  "quorum_members q = {i. 0 \<le> i \<and> i < qr_acceptors q \<and> qr_acceptor_ids q ! nat i \<noteq> 0}"

definition quorum_ok :: "int \<Rightarrow> quorum \<Rightarrow> bool" where
  "quorum_ok n q \<longleftrightarrow> 0 \<le> n \<and> qr_acceptors q = n \<and> qr_quorum q = paxos_quorum n \<and>
     length (qr_acceptor_ids q) = nat n \<and> qr_count q = int (card (quorum_members q))"

lemma finite_quorum_members [simp]: "finite (quorum_members q)"
  by (rule finite_subset[of _ "{0..<qr_acceptors q}"]) (auto simp: quorum_members_def)

lemma quorum_members_subset: "quorum_members q \<subseteq> {0..<qr_acceptors q}"
  by (auto simp: quorum_members_def)

lemma quorum_clear_members [simp]: "quorum_members (quorum_clear q) = {}"
  by (auto simp: quorum_members_def quorum_clear_def)

lemma quorum_clear_ok: "quorum_ok n q \<Longrightarrow> quorum_ok n (quorum_clear q)"
  using quorum_clear_members[of q] by (auto simp: quorum_ok_def quorum_clear_def)

lemma quorum_init_ok: "0 \<le> n \<Longrightarrow> quorum_ok n (quorum_init n) \<and> quorum_members (quorum_init n) = {}"
  unfolding quorum_init_def quorum_ok_def quorum_clear_members by (simp add: quorum_clear_def)

lemma quorum_add_spec:
  assumes ok: "quorum_ok n q" and i: "0 \<le> i" "i < n"
  shows "\<exists>q'. quorum_add q i = Inr (q', i \<notin> quorum_members q) \<and> quorum_ok n q' \<and>
           quorum_members q' = insert i (quorum_members q)"
proof (cases "qr_acceptor_ids q ! nat i = 0")
  case True
  let ?q = "q\<lparr>qr_count := qr_count q + 1, qr_acceptor_ids := (qr_acceptor_ids q)[nat i := 1]\<rparr>"
  have len: "length (qr_acceptor_ids q) = nat n" "qr_acceptors q = n" using ok by (simp_all add: quorum_ok_def)
  have new: "i \<notin> quorum_members q" using True by (simp add: quorum_members_def)
  have mem: "quorum_members ?q = insert i (quorum_members q)"
    using i len by (auto simp: quorum_members_def nth_list_update)
  have "quorum_ok n ?q"
    using ok new unfolding quorum_ok_def mem by simp
  with True new mem i len show ?thesis by (simp add: quorum_add_def)
next
  case False
  then have "i \<in> quorum_members q" using ok i by (simp add: quorum_members_def quorum_ok_def)
  with False ok i show ?thesis by (auto simp: quorum_add_def quorum_ok_def)
qed

lemma quorum_add_fault:
  assumes "quorum_ok n q"
  shows "quorum_add q i = Inl e \<longleftrightarrow> e = OutOfBounds \<and> (i < 0 \<or> n \<le> i)"
  using assms by (auto simp: quorum_add_def quorum_ok_def)

lemma quorum_reached_iff:
  "quorum_ok n q \<Longrightarrow> quorum_reached q \<longleftrightarrow> n div 2 < int (card (quorum_members q))"
  by (auto simp: quorum_reached_def quorum_ok_def paxos_quorum_nonneg)

section \<open>Quorums intersect\<close>

text \<open>What the protocol needs of a notion of quorum over the acceptors \<open>0..<n\<close>.\<close>

locale majority =
  fixes n :: int and is_quorum :: "int set \<Rightarrow> bool"
  assumes nonneg: "is_quorum Q \<Longrightarrow> 0 \<le> n"
    and inside: "is_quorum Q \<Longrightarrow> Q \<subseteq> {0..<n}"
    and large: "is_quorum Q \<Longrightarrow> n < 2 * int (card Q)"
begin

lemma intersect:
  assumes "is_quorum P" "is_quorum Q"
  shows "P \<inter> Q \<noteq> {}"
proof
  assume d: "P \<inter> Q = {}"
  have fin: "finite P" "finite Q" using inside assms finite_subset by blast+
  have "card P + card Q = card (P \<union> Q)" using d fin by (simp add: card_Un_disjoint)
  also have "\<dots> \<le> card {0..<n}" using inside assms by (intro card_mono) auto
  finally have "card P + card Q \<le> nat n" by simp
  then show False using large[OF assms(1)] large[OF assms(2)] nonneg[OF assms(1)] by linarith
qed

lemma common_member:
  assumes "is_quorum P" "is_quorum Q"
  obtains a where "a \<in> P" "a \<in> Q" "0 \<le> a" "a < n"
  using intersect[OF assms] inside[OF assms(1)] by (metis IntE atLeastLessThan_iff ex_in_conv subsetD)

end

definition quorum_set :: "int \<Rightarrow> int set \<Rightarrow> bool" where
  "quorum_set n Q \<longleftrightarrow> (\<exists>q. quorum_ok n q \<and> quorum_reached q \<and> quorum_members q = Q)"

interpretation qm: majority n "quorum_set n" for n
proof
  fix Q assume "quorum_set n Q"
  then obtain q where q: "quorum_ok n q" "quorum_reached q" "Q = quorum_members q"
    by (auto simp: quorum_set_def)
  then show "0 \<le> n" by (simp add: quorum_ok_def)
  show "Q \<subseteq> {0..<n}" using q quorum_members_subset[of q] by (simp add: quorum_ok_def)
  show "n < 2 * int (card Q)" using quorum_reached_iff[OF q(1)] q by simp
qed

section \<open>Properties\<close>

fun quorum_add_all :: "quorum \<Rightarrow> int list \<Rightarrow> quorum res" where
  "quorum_add_all q [] = Inr q"
| "quorum_add_all q (i # is) = bind_res (quorum_add q i) (\<lambda>(q, _). quorum_add_all q is)"

lemma quorum_add_all_ok:
  "quorum_ok n q \<Longrightarrow> \<forall>i \<in> set is. 0 \<le> i \<and> i < n \<Longrightarrow>
    \<exists>q'. quorum_add_all q is = Inr q' \<and> quorum_ok n q' \<and> quorum_members q' = quorum_members q \<union> set is"
proof (induction "is" arbitrary: q)
  case Nil
  then show ?case by simp
next
  case (Cons i "is")
  then obtain q1 where q1: "quorum_add q i = Inr (q1, i \<notin> quorum_members q)" "quorum_ok n q1"
    "quorum_members q1 = insert i (quorum_members q)"
    using quorum_add_spec[OF Cons.prems(1), of i] by auto
  then show ?case using Cons.IH[OF q1(2)] Cons.prems(2) by auto
qed

text \<open>
  A quorum counts distinct acceptors. Adding the answers of acceptors \<open>0..<n\<close> in any order and
  with any repetitions to a fresh quorum never fails, and the quorum is reached exactly when more than
  half of the \<open>n\<close> acceptors are among them; an id outside of the range is a write outside of the array.
\<close>

lemma quorum_counts_acceptors:
  assumes "0 \<le> n" "\<forall>i \<in> set is. 0 \<le> i \<and> i < n"
  shows "\<exists>q. quorum_add_all (quorum_init n) is = Inr q \<and> quorum_members q = set is \<and>
    (quorum_reached q \<longleftrightarrow> n div 2 < int (card (set is))) \<and>
    (\<forall>i. i < 0 \<or> n \<le> i \<longrightarrow> quorum_add q i = Inl OutOfBounds)"
proof -
  have "quorum_ok n (quorum_init n)" "quorum_members (quorum_init n) = {}" using quorum_init_ok[OF assms(1)] by simp_all
  then obtain q where q: "quorum_add_all (quorum_init n) is = Inr q" "quorum_ok n q" "quorum_members q = set is"
    using quorum_add_all_ok[OF _ assms(2)] by force
  then show ?thesis using quorum_reached_iff[OF q(2)] quorum_add_fault[OF q(2)] by auto
qed

text \<open>
  Two quorums share an acceptor. If the answers in \<open>is\<close> and the answers in \<open>js\<close> each reach a quorum
  of the same \<open>n\<close> acceptors, some acceptor is in both.
\<close>

lemma quorums_intersect:
  assumes "0 \<le> n" "\<forall>i \<in> set is \<union> set js. 0 \<le> i \<and> i < n"
    "quorum_add_all (quorum_init n) is = Inr q" "quorum_reached q"
    "quorum_add_all (quorum_init n) js = Inr r" "quorum_reached r"
  shows "set is \<inter> set js \<noteq> {}"
proof -
  have i: "quorum_ok n (quorum_init n)" "quorum_members (quorum_init n) = {}" using quorum_init_ok[OF assms(1)] by simp_all
  have "quorum_set n (set is)" "quorum_set n (set js)"
    using quorum_add_all_ok[OF i(1), of "is"] quorum_add_all_ok[OF i(1), of js] i(2) assms(2-6)
    unfolding quorum_set_def by auto
  then show ?thesis by (rule qm.intersect)
qed

end
