(* ===== verification/Proposer.thy ===== *)
theory Proposer
  imports Carray Quorum Khash_Map
begin

text \<open>
  \<^verbatim>\<open>paxos/proposer.c\<close>. The instances live in two hash tables of pointers; a write through such a
  pointer is a \<open>kh_write\<close> of the changed instance. \<^verbatim>\<open>gettimeofday\<close> is the argument \<open>now\<close> (the clock
  does not advance during a call) and the global \<^verbatim>\<open>paxos_config\<close> the argument \<open>cfg\<close>. An operation
  that fills an output message returns it as an option, \<open>None\<close> when the C function returns 0.
\<close>

section \<open>Instances\<close>

record timeval =
  tv_sec :: int
  tv_usec :: int

record pinstance =
  pi_iid :: iid_t
  pi_ballot :: ballot_t
  pi_value :: "paxos_value option"
  pi_promised_value :: "paxos_value option"
  pi_value_ballot :: ballot_t
  pi_quorum :: quorum
  pi_created_at :: timeval

record proposer =
  po_id :: int
  po_acceptors :: int
  po_values :: "paxos_value carray"
  po_max_trim_iid :: iid_t
  po_next_prepare_iid :: iid_t
  po_prepare_instances :: "pinstance khash"
  po_accept_instances :: "pinstance khash"

definition instance_new :: "timeval \<Rightarrow> iid_t \<Rightarrow> ballot_t \<Rightarrow> int \<Rightarrow> pinstance res" where
  "instance_new now iid bal acceptors = cassert (iid > 0) (Inr
     \<lparr>pi_iid = iid, pi_ballot = bal, pi_value = None, pi_promised_value = None, pi_value_ballot = 0,
      pi_quorum = quorum_init acceptors, pi_created_at = now\<rparr>)"

definition instance_has_value :: "pinstance \<Rightarrow> bool" where
  "instance_has_value inst \<longleftrightarrow> pi_value inst \<noteq> None"

definition instance_has_promised_value :: "pinstance \<Rightarrow> bool" where
  "instance_has_promised_value inst \<longleftrightarrow> pi_promised_value inst \<noteq> None"

text \<open>\<^verbatim>\<open>int diff = now->tv_sec - inst->created_at.tv_sec\<close> keeps the low 32 bits of the difference.\<close>

definition instance_has_timedout :: "paxos_config \<Rightarrow> pinstance \<Rightarrow> timeval \<Rightarrow> bool" where
  "instance_has_timedout cfg inst now \<longleftrightarrow>
     int_of_u32 (u32_of_int (tv_sec now - tv_sec (pi_created_at inst))) \<ge> proposer_timeout cfg"

definition instance_to_accept :: "proposer \<Rightarrow> pinstance \<Rightarrow> paxos_accept res" where
  "instance_to_accept p inst =
     (case (if instance_has_promised_value inst then pi_promised_value inst else pi_value inst) of
        None \<Rightarrow> Inl NullDeref
      | Some v \<Rightarrow> Inr \<lparr>pa_src = u32_of_int (po_id p), pa_iid = pi_iid inst, pa_ballot = pi_ballot inst, pa_value = v\<rparr>)"

text \<open>\<^verbatim>\<open>paxos_value_cmp(v1, v2) != 0\<close>.\<close>

definition paxos_value_cmp :: "paxos_value \<Rightarrow> paxos_value \<Rightarrow> bool res" where
  "paxos_value_cmp v1 v2 =
     (if pv_len v1 \<noteq> pv_len v2 then Inr True
      else if pv_len v1 < 0 then Inl OutOfBounds
      else bind_res (acopy (pv_val v1) (nat (pv_len v1))) (\<lambda>xs.
           bind_res (acopy (pv_val v2) (nat (pv_len v1))) (\<lambda>ys. Inr (xs \<noteq> ys))))"

section \<open>Life cycle\<close>

definition get_prid :: "proposer \<Rightarrow> int" where
  "get_prid p = po_id p"

definition proposer_new :: "int \<Rightarrow> int \<Rightarrow> proposer" where
  "proposer_new pid acceptors = \<lparr>po_id = pid, po_acceptors = acceptors, po_values = carray_new 128,
     po_max_trim_iid = 0, po_next_prepare_iid = 0, po_prepare_instances = kh_init, po_accept_instances = kh_init\<rparr>"

definition proposer_propose :: "proposer \<Rightarrow> u8 arr \<Rightarrow> int \<Rightarrow> proposer res" where
  "proposer_propose p val sz =
     bind_res (paxos_value_new val sz) (\<lambda>v.
     bind_res (carray_push_back (po_values p) v) (\<lambda>q. Inr (p\<lparr>po_values := q\<rparr>)))"

definition proposer_prepared_count :: "proposer \<Rightarrow> nat" where
  "proposer_prepared_count p = kh_size (po_prepare_instances p)"

definition proposer_no_values :: "proposer \<Rightarrow> bool" where
  "proposer_no_values p = carray_empty (po_values p)"

text \<open>
  The loop of \<^verbatim>\<open>proposer_trim_instances\<close>: the values of the instances that go are queued again in the
  order of the walk.
\<close>

fun carray_push_all :: "'a carray \<Rightarrow> 'a list \<Rightarrow> 'a carray res" where
  "carray_push_all q [] = Inr q"
| "carray_push_all q (x # xs) = bind_res (carray_push_back q x) (\<lambda>q. carray_push_all q xs)"

definition trim_values :: "iid_t \<Rightarrow> pinstance khash \<Rightarrow> paxos_value list" where
  "trim_values iid h =
     List.map_filter pi_value (filter (\<lambda>inst. pi_iid inst \<le> iid) (map snd (kh_entries h)))"

definition proposer_trim_instances ::
  "paxos_value carray \<Rightarrow> pinstance khash \<Rightarrow> iid_t \<Rightarrow> (paxos_value carray \<times> pinstance khash) res" where
  "proposer_trim_instances q h iid =
     bind_res (carray_push_all q (trim_values iid h)) (\<lambda>q.
     Inr (q, kh_remove_if (\<lambda>inst. pi_iid inst \<le> iid) h))"

definition proposer_set_instance_id :: "proposer \<Rightarrow> iid_t \<Rightarrow> proposer res" where
  "proposer_set_instance_id p iid =
     (if iid > po_next_prepare_iid p
      then bind_res (proposer_trim_instances (po_values p) (po_prepare_instances p) iid) (\<lambda>(q, hp).
           bind_res (proposer_trim_instances q (po_accept_instances p) iid) (\<lambda>(q, ha).
           Inr (p\<lparr>po_next_prepare_iid := iid, po_values := q, po_prepare_instances := hp,
                  po_accept_instances := ha\<rparr>)))
      else Inr p)"

section \<open>Phase 1\<close>

definition proposer_next_ballot :: "int \<Rightarrow> ballot_t \<Rightarrow> ballot_t" where
  "proposer_next_ballot pid b =
     (if b > 0 then of_nat MAX_N_OF_PROPOSERS + b else u32_of_int (int MAX_N_OF_PROPOSERS + pid))"

definition prepare_message :: "int \<Rightarrow> pinstance \<Rightarrow> paxos_prepare" where
  "prepare_message pid inst = \<lparr>pp_src = u32_of_int pid, pp_iid = pi_iid inst, pp_ballot = pi_ballot inst\<rparr>"

definition proposer_prepare :: "timeval \<Rightarrow> proposer \<Rightarrow> (proposer \<times> paxos_prepare) res" where
  "proposer_prepare now p =
     (let iid = po_next_prepare_iid p + 1; bal = proposer_next_ballot (po_id p) 0 in
      bind_res (instance_new now iid bal (po_acceptors p)) (\<lambda>inst.
      bind_res (kh_put (po_prepare_instances p) iid inst) (\<lambda>(h, rv).
      cassert (rv > 0) (Inr
        (p\<lparr>po_next_prepare_iid := iid, po_prepare_instances := h\<rparr>, prepare_message (po_id p) inst)))))"

definition proposer_preempt :: "timeval \<Rightarrow> int \<Rightarrow> pinstance \<Rightarrow> pinstance" where
  "proposer_preempt now pid inst =
     inst\<lparr>pi_ballot := proposer_next_ballot pid (pi_ballot inst), pi_value_ballot := 0,
          pi_promised_value := None, pi_quorum := quorum_clear (pi_quorum inst), pi_created_at := now\<rparr>"

text \<open>
  The body of the loop of \<^verbatim>\<open>proposer_receive_promise\<close> for one entry of the promise; \<open>out\<close> is the
  prepare to send, once an entry preempted the instance.
\<close>

definition promise_value :: "paxos_promise \<Rightarrow> nat \<Rightarrow> pinstance \<Rightarrow> pinstance res" where
  "promise_value ack j inst =
     bind_res (aread (pr_values ack) j) (\<lambda>v.
     if pv_len v > 0
     then bind_res (aread (pr_value_ballots ack) j) (\<lambda>vb.
          if vb > pi_value_ballot inst
          then bind_res (paxos_value_new (pv_val v) (pv_len v)) (\<lambda>w.
               Inr (inst\<lparr>pi_value_ballot := vb, pi_promised_value := Some w\<rparr>))
          else Inr inst)
     else Inr inst)"

definition promise_entry ::
  "timeval \<Rightarrow> int \<Rightarrow> paxos_promise \<Rightarrow> nat \<Rightarrow> pinstance \<times> paxos_prepare option \<Rightarrow>
     (pinstance \<times> paxos_prepare option) res" where
  "promise_entry now pid ack j s = (case s of (inst, out) \<Rightarrow>
     bind_res (aread (pr_ballots ack) j) (\<lambda>b.
     if b < pi_ballot inst then Inr (inst, out)
     else if b > pi_ballot inst
     then let inst = proposer_preempt now pid inst in Inr (inst, Some (prepare_message pid inst))
     else bind_res (aread (pr_aids ack) j) (\<lambda>aid.
          bind_res (quorum_add (pi_quorum inst) (int_of_u32 aid)) (\<lambda>(q, _).
          bind_res (promise_value ack j (inst\<lparr>pi_quorum := q\<rparr>)) (\<lambda>inst. Inr (inst, out))))))"

fun promise_loop ::
  "timeval \<Rightarrow> int \<Rightarrow> paxos_promise \<Rightarrow> nat list \<Rightarrow> pinstance \<times> paxos_prepare option \<Rightarrow>
     (pinstance \<times> paxos_prepare option) res" where
  "promise_loop now pid ack [] s = Inr s"
| "promise_loop now pid ack (j # js) s =
     bind_res (promise_entry now pid ack j s) (promise_loop now pid ack js)"

definition proposer_receive_promise ::
  "timeval \<Rightarrow> proposer \<Rightarrow> paxos_promise \<Rightarrow> (proposer \<times> paxos_prepare option) res" where
  "proposer_receive_promise now p ack =
     (case kh_lookup (po_prepare_instances p) (pr_iid ack) of
        None \<Rightarrow> Inr (p, None)
      | Some inst \<Rightarrow>
          bind_res (promise_loop now (po_id p) ack [0..<unat (pr_n_aids ack)] (inst, None)) (\<lambda>(inst, out).
          Inr (p\<lparr>po_prepare_instances := kh_write (po_prepare_instances p) (pr_iid ack) inst\<rparr>, out)))"

section \<open>Phase 2\<close>

fun smallest_instance :: "pinstance option \<Rightarrow> pinstance list \<Rightarrow> pinstance option" where
  "smallest_instance inst [] = inst"
| "smallest_instance inst (x # xs) =
     (case inst of
        None \<Rightarrow> smallest_instance (Some x) xs
      | Some y \<Rightarrow> smallest_instance (if pi_iid y > pi_iid x then Some x else Some y) xs)"

text \<open>\<^verbatim>\<open>proposer_move_instance\<close> from the table \<open>f\<close> to the table \<open>t\<close>.\<close>

definition proposer_move_instance ::
  "pinstance khash \<Rightarrow> pinstance khash \<Rightarrow> pinstance \<Rightarrow> (pinstance khash \<times> pinstance khash \<times> pinstance) res" where
  "proposer_move_instance f t inst =
     (let k = kh_get f (pi_iid inst) in
      cassert (k \<noteq> n_buckets f)
      (let f = kh_del f k; inst' = inst\<lparr>pi_quorum := quorum_clear (pi_quorum inst)\<rparr> in
       bind_res (kh_put t (pi_iid inst) inst') (\<lambda>(t, rv).
       cassert (rv > 0) (Inr (f, t, inst')))))"

definition proposer_accept :: "proposer \<Rightarrow> (proposer \<times> paxos_accept option) res" where
  "proposer_accept p =
     (case smallest_instance None (map snd (kh_entries (po_prepare_instances p))) of
        None \<Rightarrow> Inr (p, None)
      | Some inst \<Rightarrow>
          if \<not> quorum_reached (pi_quorum inst) then Inr (p, None)
          else bind_res (if \<not> instance_has_value inst
                         then bind_res (carray_pop_front (po_values p)) (\<lambda>(v, q).
                              let inst = inst\<lparr>pi_value := v\<rparr> in
                              Inr (inst, p\<lparr>po_values := q, po_prepare_instances :=
                                     kh_write (po_prepare_instances p) (pi_iid inst) inst\<rparr>))
                         else Inr (inst, p)) (\<lambda>(inst, p).
               if \<not> instance_has_value inst \<and> \<not> instance_has_promised_value inst then Inr (p, None)
               else bind_res (proposer_move_instance (po_prepare_instances p) (po_accept_instances p) inst)
                 (\<lambda>(hp, ha, inst).
                  bind_res (instance_to_accept p inst) (\<lambda>out.
                  Inr (p\<lparr>po_prepare_instances := hp, po_accept_instances := ha\<rparr>, Some out)))))"

text \<open>The flag is the return value.\<close>

definition proposer_receive_accepted :: "proposer \<Rightarrow> paxos_accepted \<Rightarrow> (proposer \<times> bool) res" where
  "proposer_receive_accepted p ack =
     (case kh_lookup (po_accept_instances p) (ac_iid ack) of
        None \<Rightarrow> Inr (p, False)
      | Some inst \<Rightarrow>
          bind_res (aread (ac_ballots ack) 0) (\<lambda>b.
          if b = pi_ballot inst
          then bind_res (aread (ac_aids ack) 0) (\<lambda>aid.
               bind_res (quorum_add (pi_quorum inst) (int_of_u32 aid)) (\<lambda>(q, added).
               if \<not> added then Inr (p, False)
               else if quorum_reached q
               then bind_res (case (pi_promised_value inst, pi_value inst) of
                        (Some w, Some v) \<Rightarrow> bind_res (paxos_value_cmp v w) (\<lambda>differ.
                           if differ then carray_push_back (po_values p) v else Inr (po_values p))
                      | _ \<Rightarrow> Inr (po_values p)) (\<lambda>vals.
                    Inr (p\<lparr>po_values := vals, po_accept_instances := kh_delete (po_accept_instances p) (ac_iid ack)\<rparr>, True))
               else Inr (p\<lparr>po_accept_instances :=
                      kh_write (po_accept_instances p) (ac_iid ack) (inst\<lparr>pi_quorum := q\<rparr>)\<rparr>, True)))
          else Inr (p, False)))"

definition proposer_receive_preempted ::
  "timeval \<Rightarrow> proposer \<Rightarrow> paxos_preempted \<Rightarrow> (proposer \<times> paxos_prepare option) res" where
  "proposer_receive_preempted now p ack =
     (case kh_lookup (po_accept_instances p) (pe_iid ack) of
        None \<Rightarrow> Inr (p, None)
      | Some inst \<Rightarrow>
          if pe_ballot ack > pi_ballot inst
          then bind_res (proposer_move_instance (po_accept_instances p) (po_prepare_instances p) inst)
                 (\<lambda>(ha, hp, inst).
                  let inst = proposer_preempt now (po_id p) inst in
                  Inr (p\<lparr>po_accept_instances := ha, po_prepare_instances := kh_write hp (pi_iid inst) inst\<rparr>,
                       Some (prepare_message (po_id p) inst)))
          else Inr (p, None))"

definition proposer_receive_acceptor_state :: "proposer \<Rightarrow> paxos_acceptor_state \<Rightarrow> proposer res" where
  "proposer_receive_acceptor_state p state =
     (if po_max_trim_iid p < as_trim_iid state
      then proposer_set_instance_id (p\<lparr>po_max_trim_iid := as_trim_iid state\<rparr>) (as_trim_iid state)
      else Inr p)"

section \<open>Timeouts\<close>

record timeout_iterator =
  ti_pi :: nat
  ti_ai :: nat
  ti_timeout :: timeval

definition proposer_timeout_iterator :: "timeval \<Rightarrow> timeout_iterator" where
  "proposer_timeout_iterator now = \<lparr>ti_pi = 0, ti_ai = 0, ti_timeout = now\<rparr>"

fun next_timedout_from :: "paxos_config \<Rightarrow> pinstance khash \<Rightarrow> nat list \<Rightarrow> timeval \<Rightarrow> nat option" where
  "next_timedout_from cfg h [] t = None"
| "next_timedout_from cfg h (k # ks) t =
     (case buckets h ! k of
        Full key inst \<Rightarrow> if \<not> quorum_reached (pi_quorum inst) \<and> instance_has_timedout cfg inst t
                        then Some k else next_timedout_from cfg h ks t
      | _ \<Rightarrow> next_timedout_from cfg h ks t)"

text \<open>The loop leaves \<^verbatim>\<open>*k\<close> at the bucket it found, or at \<^verbatim>\<open>kh_end\<close>.\<close>

definition next_timedout ::
  "paxos_config \<Rightarrow> pinstance khash \<Rightarrow> nat \<Rightarrow> timeval \<Rightarrow> nat \<times> pinstance option" where
  "next_timedout cfg h k t =
     (case next_timedout_from cfg h [k..<n_buckets h] t of
        None \<Rightarrow> (max k (n_buckets h), None)
      | Some j \<Rightarrow> (j, case buckets h ! j of Full key inst \<Rightarrow> Some inst | _ \<Rightarrow> None))"

definition timeout_iterator_prepare ::
  "paxos_config \<Rightarrow> proposer \<Rightarrow> timeout_iterator \<Rightarrow> proposer \<times> timeout_iterator \<times> paxos_prepare option" where
  "timeout_iterator_prepare cfg p it =
     (case next_timedout cfg (po_prepare_instances p) (ti_pi it) (ti_timeout it) of
        (k, None) \<Rightarrow> (p, it\<lparr>ti_pi := k\<rparr>, None)
      | (k, Some inst) \<Rightarrow>
          (p\<lparr>po_prepare_instances := kh_write (po_prepare_instances p) (pi_iid inst) (inst\<lparr>pi_created_at := ti_timeout it\<rparr>)\<rparr>,
           it\<lparr>ti_pi := k\<rparr>, Some (prepare_message (po_id p) inst)))"

definition timeout_iterator_accept ::
  "paxos_config \<Rightarrow> proposer \<Rightarrow> timeout_iterator \<Rightarrow> (proposer \<times> timeout_iterator \<times> paxos_accept option) res" where
  "timeout_iterator_accept cfg p it =
     (case next_timedout cfg (po_accept_instances p) (ti_ai it) (ti_timeout it) of
        (k, None) \<Rightarrow> Inr (p, it\<lparr>ti_ai := k\<rparr>, None)
      | (k, Some inst) \<Rightarrow>
          bind_res (instance_to_accept p inst) (\<lambda>out.
          Inr (p\<lparr>po_accept_instances := kh_write (po_accept_instances p) (pi_iid inst) (inst\<lparr>pi_created_at := ti_timeout it\<rparr>)\<rparr>,
               it\<lparr>ti_ai := k\<rparr>, Some out)))"

end
