(* ===== verification/Evproposer.thy ===== *)
theory Evproposer
  imports Proposer Peers
begin

text \<open>
  The proposer process, src/evpaxos/evproposer.c: keeping a window of instances in phase 1, sending
  accept requests as soon as instances are ready, and the callbacks. \<open>now\<close> is the clock during a
  callback.
\<close>

section \<open>State\<close>

record evproposer =
  ep_id :: int
  ep_preexec_window :: int
  ep_state :: proposer
  ep_tv :: timeval
  ep_timeout_armed :: bool

type_synonym 'c ep_world = "'c peers \<times> evproposer"

section \<open>Progress\<close>

fun preexec_loop :: "(pack_call list \<Rightarrow> u8 list) \<Rightarrow> timeval \<Rightarrow> nat \<Rightarrow> 'c ep_world \<Rightarrow> 'c ep_world res" where
  "preexec_loop enc now 0 s = Inr s"
| "preexec_loop enc now (Suc k) (ps, p) =
     bind_res (proposer_prepare now (ep_state p)) (\<lambda>(st, pr).
     bind_res (peers_foreach_acceptor (peer_send enc (PAXOS_PREPARE pr)) ps) (\<lambda>ps.
     preexec_loop enc now k (ps, p\<lparr>ep_state := st\<rparr>)))"

definition proposer_preexecute :: "(pack_call list \<Rightarrow> u8 list) \<Rightarrow> timeval \<Rightarrow> 'c ep_world \<Rightarrow> 'c ep_world res" where
  "proposer_preexecute enc now s = (case s of (ps, p) \<Rightarrow>
     if proposer_no_values (ep_state p) then Inr s
     else let count = ep_preexec_window p - int (proposer_prepared_count (ep_state p)) in
          if count \<le> 0 then Inr s else preexec_loop enc now (nat count) s)"

text \<open>
  \<^verbatim>\<open>while (proposer_accept(...))\<close>: every round moves an instance out of phase 1, so the number of
  instances in phase 1 bounds the rounds (\<open>try_accept_progress\<close>).
\<close>

fun accept_loop :: "(pack_call list \<Rightarrow> u8 list) \<Rightarrow> nat \<Rightarrow> 'c ep_world \<Rightarrow> 'c ep_world res" where
  "accept_loop enc 0 s = Inl Diverges"
| "accept_loop enc (Suc k) (ps, p) =
     bind_res (proposer_accept (ep_state p)) (\<lambda>(st, out). case out of
        None \<Rightarrow> Inr (ps, p\<lparr>ep_state := st\<rparr>)
      | Some accept \<Rightarrow>
          bind_res (peers_foreach_acceptor (peer_send enc (PAXOS_ACCEPT accept)) ps) (\<lambda>ps.
          accept_loop enc k (ps, p\<lparr>ep_state := st\<rparr>)))"

definition try_accept :: "(pack_call list \<Rightarrow> u8 list) \<Rightarrow> timeval \<Rightarrow> 'c ep_world \<Rightarrow> 'c ep_world res" where
  "try_accept enc now s =
     bind_res (accept_loop enc (proposer_prepared_count (ep_state (snd s)) + 1) s) (proposer_preexecute enc now)"

section \<open>Callbacks\<close>

definition send_prepare :: "(pack_call list \<Rightarrow> u8 list) \<Rightarrow> paxos_prepare option \<Rightarrow> 'c peers \<Rightarrow> 'c peers res" where
  "send_prepare enc pr ps = (case pr of
      None \<Rightarrow> Inr ps
    | Some prepare \<Rightarrow> peers_foreach_acceptor (peer_send enc (PAXOS_PREPARE prepare)) ps)"

text \<open>The debug output of \<^verbatim>\<open>evproposer_handle_promise\<close> reads \<^verbatim>\<open>pro->aids[0]\<close>.\<close>

fun evproposer_handle_promise :: "(pack_call list \<Rightarrow> u8 list) \<Rightarrow> timeval \<Rightarrow> peer_ref \<Rightarrow> paxos_message \<Rightarrow> 'c ep_world \<Rightarrow> 'c ep_world res" where
  "evproposer_handle_promise enc now r (PAXOS_PROMISE pro) (ps, p) =
     bind_res (proposer_receive_promise now (ep_state p) pro) (\<lambda>(st, prepare).
     bind_res (send_prepare enc prepare ps) (\<lambda>ps.
     bind_res (aread (pr_aids pro) 0) (\<lambda>_. try_accept enc now (ps, p\<lparr>ep_state := st\<rparr>))))"
| "evproposer_handle_promise enc now r _ s = Inl UnionMisread"

fun evproposer_handle_accepted :: "(pack_call list \<Rightarrow> u8 list) \<Rightarrow> timeval \<Rightarrow> peer_ref \<Rightarrow> paxos_message \<Rightarrow> 'c ep_world \<Rightarrow> 'c ep_world res" where
  "evproposer_handle_accepted enc now r (PAXOS_ACCEPTED acc) (ps, p) =
     bind_res (proposer_receive_accepted (ep_state p) acc) (\<lambda>(st, rv).
     if rv then try_accept enc now (ps, p\<lparr>ep_state := st\<rparr>) else Inr (ps, p\<lparr>ep_state := st\<rparr>))"
| "evproposer_handle_accepted enc now r _ s = Inl UnionMisread"

fun evproposer_handle_preempted :: "(pack_call list \<Rightarrow> u8 list) \<Rightarrow> timeval \<Rightarrow> peer_ref \<Rightarrow> paxos_message \<Rightarrow> 'c ep_world \<Rightarrow> 'c ep_world res" where
  "evproposer_handle_preempted enc now r (PAXOS_PREEMPTED ack) (ps, p) =
     bind_res (proposer_receive_preempted now (ep_state p) ack) (\<lambda>(st, prepare).
     if prepare = None then Inr (ps, p\<lparr>ep_state := st\<rparr>)
     else bind_res (send_prepare enc prepare ps) (\<lambda>ps. try_accept enc now (ps, p\<lparr>ep_state := st\<rparr>)))"
| "evproposer_handle_preempted enc now r _ s = Inl UnionMisread"

fun evproposer_handle_client_value :: "(pack_call list \<Rightarrow> u8 list) \<Rightarrow> timeval \<Rightarrow> peer_ref \<Rightarrow> paxos_message \<Rightarrow> 'c ep_world \<Rightarrow> 'c ep_world res" where
  "evproposer_handle_client_value enc now r (PAXOS_CLIENT_VALUE v) (ps, p) =
     bind_res (proposer_propose (ep_state p) (pv_val (cv_value v)) (pv_len (cv_value v))) (\<lambda>st.
     try_accept enc now (ps, p\<lparr>ep_state := st\<rparr>))"
| "evproposer_handle_client_value enc now r _ s = Inl UnionMisread"

fun evproposer_handle_acceptor_state :: "peer_ref \<Rightarrow> paxos_message \<Rightarrow> 'c ep_world \<Rightarrow> 'c ep_world res" where
  "evproposer_handle_acceptor_state r (PAXOS_ACCEPTOR_STATE st) (ps, p) =
     bind_res (proposer_receive_acceptor_state (ep_state p) st) (\<lambda>st. Inr (ps, p\<lparr>ep_state := st\<rparr>))"
| "evproposer_handle_acceptor_state r _ s = Inl UnionMisread"

text \<open>
  The timeout callback returns at its first statement: the timer that fired is not armed again and no
  timed-out instance is retried.
\<close>

definition evproposer_check_timeouts :: "evproposer \<Rightarrow> evproposer" where
  "evproposer_check_timeouts p = p\<lparr>ep_timeout_armed := False\<rparr>"

definition evproposer_preexec_once :: "(pack_call list \<Rightarrow> u8 list) \<Rightarrow> timeval \<Rightarrow> 'c ep_world \<Rightarrow> 'c ep_world res" where
  "evproposer_preexec_once enc now s = proposer_preexecute enc now s"

section \<open>Set-up\<close>

definition evproposer_subs :: "(paxos_message_type \<times> ev_callback) list" where
  "evproposer_subs = [(TypePromise, Evproposer_handle_promise), (TypeAccepted, Evproposer_handle_accepted),
     (TypePreempted, Evproposer_handle_preempted), (TypeClientValue, Evproposer_handle_client_value),
     (TypeAcceptorState, Evproposer_handle_acceptor_state)]"

definition evproposer_init_internal ::
  "paxos_config \<Rightarrow> int \<Rightarrow> evpaxos_config \<Rightarrow> ev_callback peers \<Rightarrow> ev_callback ep_world res" where
  "evproposer_init_internal cfg pid c ps =
     bind_res (subscribe_all evproposer_subs ps) (\<lambda>ps.
     Inr (ps, \<lparr>ep_id = pid, ep_preexec_window = proposer_preexec_window cfg,
               ep_state = proposer_new pid (evpaxos_acceptor_count c),
               ep_tv = \<lparr>tv_sec = proposer_timeout cfg, tv_usec = 0\<rparr>, ep_timeout_armed = True\<rparr>))"

text \<open>The stand-alone proposer connects as acceptor 0 would, and frees the configuration at the end.\<close>

definition evproposer_init ::
  "paxos_config \<Rightarrow> (string \<Rightarrow> u32) \<Rightarrow> (int \<Rightarrow> bool) \<Rightarrow> int \<Rightarrow> string option \<Rightarrow> (paxos_config \<times> ev_callback ep_world option) res" where
  "evproposer_init cfg inet_addr bind_ok pid file =
     bind_res (evpaxos_config_read cfg file) (\<lambda>(cfg, conf). case conf of
        None \<Rightarrow> Inr (cfg, None)
      | Some c \<Rightarrow>
          if pid < 0 \<or> pid \<ge> int MAX_N_OF_PROPOSERS then Inr (cfg, None)
          else bind_res (peers_connect_to_acceptors inet_addr (peers_new 0 0 c) 0) (\<lambda>ps.
               bind_res (evpaxos_proposer_listen_port c pid) (\<lambda>port.
               (case peers_listen bind_ok ps port of (ps, ok) \<Rightarrow>
                  if \<not> ok then Inr (cfg, None)
                  else bind_res (evproposer_init_internal cfg pid c ps) (\<lambda>(ps, p).
                       Inr (cfg, Some (ps\<lparr>ps_config := None\<rparr>, p)))))))"

definition evproposer_set_instance_id :: "evproposer option \<Rightarrow> iid_t \<Rightarrow> evproposer option res" where
  "evproposer_set_instance_id p iid = (case p of
      None \<Rightarrow> Inr None
    | Some p \<Rightarrow> bind_res (proposer_set_instance_id (ep_state p) iid) (\<lambda>st. Inr (Some (p\<lparr>ep_state := st\<rparr>))))"

end
