(* ===== verification/Learner.thy ===== *)
theory Learner
  imports Quorum Khash_Map
begin

text \<open>
  \<^verbatim>\<open>paxos/learner.c\<close>: the learner keeps, per instance, the last accepted message of each acceptor
  (an array indexed by acceptor id), closes an instance when a quorum of them carries the ballot of
  the last update, and hands the closed instances out in the order of their numbers. The pointer
  \<^verbatim>\<open>final_value\<close> always points into \<^verbatim>\<open>acks\<close>, so the model keeps the index.
\<close>

section \<open>State\<close>

record linstance =
  li_iid :: iid_t
  li_last_update_ballot :: ballot_t
  li_acks :: "paxos_accepted option list"
  li_final_value :: "nat option"

record learner =
  le_acceptors :: int
  le_late_start :: bool
  le_current_iid :: iid_t
  le_highest_iid_closed :: iid_t
  le_instances :: "linstance khash"

section \<open>Copies of messages\<close>

text \<open>A value whose pointer is NULL keeps its length and gets no buffer.\<close>

definition learner_value_copy :: "paxos_value \<Rightarrow> paxos_value res" where
  "learner_value_copy src = (case pv_val src of
      None \<Rightarrow> Inr \<lparr>pv_len = pv_len src, pv_val = None\<rparr>
    | Some _ \<Rightarrow> bind_res (copy_bytes (pv_len src) (pv_val src)) (\<lambda>bs. Inr \<lparr>pv_len = pv_len src, pv_val = bs\<rparr>))"

fun learner_values_copy :: "paxos_value list \<Rightarrow> paxos_value list res" where
  "learner_values_copy [] = Inr []"
| "learner_values_copy (v # vs) =
     bind_res (learner_value_copy v) (\<lambda>w. bind_res (learner_values_copy vs) (\<lambda>ws. Inr (w # ws)))"

text \<open>The first \<^verbatim>\<open>n\<close> elements of an array that may be NULL.\<close>

definition entries_copy :: "'a arr \<Rightarrow> u32 \<Rightarrow> 'a arr res" where
  "entries_copy a n = (case a of None \<Rightarrow> Inr None | Some _ \<Rightarrow> bind_res (acopy a (unat n)) (\<lambda>xs. Inr (Some xs)))"

definition paxos_accepted_deep_copy :: "paxos_accepted \<Rightarrow> paxos_accepted res" where
  "paxos_accepted_deep_copy ack =
     (let n = ac_n_aids ack; copy = ack\<lparr>ac_value_0 := value_zero\<rparr> in
      if n > 0
      then bind_res (entries_copy (ac_aids ack) n) (\<lambda>aids.
           bind_res (entries_copy (ac_values ack) n) (\<lambda>vals.
           bind_res (case vals of None \<Rightarrow> Inr None
                     | Some vs \<Rightarrow> bind_res (learner_values_copy vs) (\<lambda>ws. Inr (Some ws))) (\<lambda>vals.
           bind_res (entries_copy (ac_ballots ack) n) (\<lambda>bals.
           bind_res (entries_copy (ac_value_ballots ack) n) (\<lambda>vbals.
           Inr (copy\<lparr>ac_aids := aids, ac_values := vals, ac_ballots := bals, ac_value_ballots := vbals\<rparr>))))))
      else Inr copy)"

definition paxos_accepted_dup :: "paxos_accepted \<Rightarrow> paxos_accepted res" where
  "paxos_accepted_dup ack = paxos_accepted_deep_copy ack"

section \<open>Instances\<close>

definition linstance_new :: "int \<Rightarrow> linstance" where
  "linstance_new acceptors = \<lparr>li_iid = 0, li_last_update_ballot = 0,
     li_acks = replicate (nat acceptors) None, li_final_value = None\<rparr>"

fun linstance_free_loop :: "paxos_accepted option list \<Rightarrow> nat list \<Rightarrow> unit res" where
  "linstance_free_loop acks [] = Inr ()"
| "linstance_free_loop acks (i # is) =
     bind_res (aread (Some acks) i) (\<lambda>a.
     bind_res (case a of None \<Rightarrow> Inr () | Some a \<Rightarrow> paxos_accepted_free a) (\<lambda>_. linstance_free_loop acks is))"

definition linstance_free :: "linstance \<Rightarrow> int \<Rightarrow> unit res" where
  "linstance_free inst acceptors = linstance_free_loop (li_acks inst) [0..<nat acceptors]"

text \<open>The loop of \<^verbatim>\<open>instance_has_quorum\<close> with its \<^verbatim>\<open>a_valid_index\<close> and \<^verbatim>\<open>count\<close>.\<close>

fun quorum_scan :: "paxos_accepted option list \<Rightarrow> ballot_t \<Rightarrow> nat list \<Rightarrow> int \<times> int \<Rightarrow> (int \<times> int) res" where
  "quorum_scan acks b [] vc = Inr vc"
| "quorum_scan acks b (i # is) (v, c) =
     bind_res (aread (Some acks) i) (\<lambda>curr_ack. case curr_ack of
        None \<Rightarrow> quorum_scan acks b is (v, c)
      | Some a \<Rightarrow> bind_res (aread (ac_ballots a) 0) (\<lambda>bal.
          if bal = b then quorum_scan acks b is (int i, c + 1) else quorum_scan acks b is (v, c)))"

definition instance_has_quorum :: "linstance \<Rightarrow> int \<Rightarrow> (linstance \<times> bool) res" where
  "instance_has_quorum inst acceptors =
     (if li_final_value inst \<noteq> None then Inr (inst, True)
      else bind_res (quorum_scan (li_acks inst) (li_last_update_ballot inst) [0..<nat acceptors] (-1, 0)) (\<lambda>(a_valid_index, count).
           if count \<ge> paxos_quorum acceptors
           then if a_valid_index < 0 then Inl OutOfBounds
                else Inr (inst\<lparr>li_final_value := Some (nat a_valid_index)\<rparr>, True)
           else Inr (inst, False)))"

definition instance_add_accept :: "linstance \<Rightarrow> paxos_accepted \<Rightarrow> linstance res" where
  "instance_add_accept inst accepted =
     bind_res (aread (ac_aids accepted) 0) (\<lambda>aid.
     let acceptor_id = int_of_u32 aid in
     if acceptor_id < 0 then Inl OutOfBounds
     else bind_res (aread (Some (li_acks inst)) (nat acceptor_id)) (\<lambda>old.
          bind_res (case old of None \<Rightarrow> Inr () | Some a \<Rightarrow> paxos_accepted_free a) (\<lambda>_.
          bind_res (paxos_accepted_dup accepted) (\<lambda>copy.
          bind_res (aread (ac_ballots accepted) 0) (\<lambda>bal.
          Inr (inst\<lparr>li_acks := (li_acks inst)[nat acceptor_id := Some copy], li_last_update_ballot := bal\<rparr>))))))"

definition instance_update :: "linstance \<Rightarrow> paxos_accepted \<Rightarrow> int \<Rightarrow> linstance res" where
  "instance_update inst accepted acceptors =
     bind_res (if li_iid inst = 0
               then bind_res (aread (ac_ballots accepted) 0) (\<lambda>bal.
                    Inr (inst\<lparr>li_iid := ac_iid accepted, li_last_update_ballot := bal\<rparr>))
               else Inr inst) (\<lambda>inst.
     bind_res (instance_has_quorum inst acceptors) (\<lambda>(inst, closed).
     if closed then Inr inst
     else bind_res (aread (ac_aids accepted) 0) (\<lambda>aid.
          bind_res (aread (Some (li_acks inst)) (unat aid)) (\<lambda>prev_accepted.
          bind_res (case prev_accepted of None \<Rightarrow> Inr False
                    | Some p \<Rightarrow> bind_res (aread (ac_ballots p) 0) (\<lambda>pb.
                                bind_res (aread (ac_ballots accepted) 0) (\<lambda>b. Inr (pb \<ge> b)))) (\<lambda>newer.
          if newer then Inr inst else instance_add_accept inst accepted)))))"

section \<open>The learner\<close>

definition learner_new :: "paxos_config \<Rightarrow> int \<Rightarrow> learner" where
  "learner_new cfg acceptors = \<lparr>le_acceptors = acceptors, le_late_start = (learner_catch_up cfg = 0),
     le_current_iid = 1, le_highest_iid_closed = 1, le_instances = kh_init\<rparr>"

fun linstance_free_all :: "linstance list \<Rightarrow> int \<Rightarrow> unit res" where
  "linstance_free_all [] acceptors = Inr ()"
| "linstance_free_all (inst # is) acceptors =
     bind_res (linstance_free inst acceptors) (\<lambda>_. linstance_free_all is acceptors)"

definition learner_free :: "learner \<Rightarrow> unit res" where
  "learner_free l = linstance_free_all (map snd (kh_entries (le_instances l))) (le_acceptors l)"

definition learner_set_instance_id :: "learner \<Rightarrow> iid_t \<Rightarrow> learner" where
  "learner_set_instance_id l iid = l\<lparr>le_current_iid := iid + 1, le_highest_iid_closed := iid\<rparr>"

definition learner_get_instance :: "learner \<Rightarrow> iid_t \<Rightarrow> linstance option" where
  "learner_get_instance l iid = kh_lookup (le_instances l) iid"

definition learner_get_current_instance :: "learner \<Rightarrow> linstance option" where
  "learner_get_current_instance l = learner_get_instance l (le_current_iid l)"

definition learner_get_instance_or_create :: "learner \<Rightarrow> iid_t \<Rightarrow> (learner \<times> linstance) res" where
  "learner_get_instance_or_create l iid = (case learner_get_instance l iid of
      Some inst \<Rightarrow> Inr (l, inst)
    | None \<Rightarrow> let inst = linstance_new (le_acceptors l) in
        bind_res (kh_put (le_instances l) iid inst) (\<lambda>(h, rv).
        cassert (rv \<noteq> -1) (Inr (l\<lparr>le_instances := h\<rparr>, inst))))"

definition learner_delete_instance :: "learner \<Rightarrow> linstance \<Rightarrow> learner res" where
  "learner_delete_instance l inst =
     bind_res (linstance_free inst (le_acceptors l)) (\<lambda>_.
     Inr (l\<lparr>le_instances := kh_delete (le_instances l) (li_iid inst)\<rparr>))"

definition learner_receive_accepted :: "learner \<Rightarrow> paxos_accepted \<Rightarrow> learner res" where
  "learner_receive_accepted l ack =
     (let l = (if le_late_start l then l\<lparr>le_late_start := False, le_current_iid := ac_iid ack\<rparr> else l) in
      if ac_iid ack < le_current_iid l then Inr l
      else bind_res (learner_get_instance_or_create l (ac_iid ack)) (\<lambda>(l, inst).
           bind_res (instance_update inst ack (le_acceptors l)) (\<lambda>inst.
           bind_res (instance_has_quorum inst (le_acceptors l)) (\<lambda>(inst, closed).
           Inr (l\<lparr>le_instances := kh_write (le_instances l) (ac_iid ack) inst,
                  le_highest_iid_closed := (if closed \<and> li_iid inst > le_highest_iid_closed l
                                            then li_iid inst else le_highest_iid_closed l)\<rparr>)))))"

definition learner_deliver_next :: "learner \<Rightarrow> (learner \<times> paxos_accepted option) res" where
  "learner_deliver_next l = (case learner_get_current_instance l of
      None \<Rightarrow> Inr (l, None)
    | Some inst \<Rightarrow> bind_res (instance_has_quorum inst (le_acceptors l)) (\<lambda>(inst, closed).
        if \<not> closed then Inr (l, None)
        else (case li_final_value inst of
            None \<Rightarrow> Inl NullDeref
          | Some i \<Rightarrow> bind_res (aread (Some (li_acks inst)) i) (\<lambda>a. (case a of
                None \<Rightarrow> Inl NullDeref
              | Some a \<Rightarrow> bind_res (paxos_accepted_deep_copy a) (\<lambda>out.
                  bind_res (learner_delete_instance l inst) (\<lambda>l.
                  Inr (l\<lparr>le_current_iid := le_current_iid l + 1\<rparr>, Some out))))))))"

definition learner_has_holes :: "learner \<Rightarrow> (iid_t \<times> iid_t) option" where
  "learner_has_holes l =
     (if le_highest_iid_closed l > le_current_iid l then Some (le_current_iid l, le_highest_iid_closed l) else None)"

end
