(* ===== verification/Evlearner.thy ===== *)
theory Evlearner
  imports Learner Peers
begin

text \<open>
  The learner process, src/evpaxos/evlearner.c: feeding acceptances to the learner and handing every
  instance that closed to the application, in order. The delivery function of the application is a
  parameter that works on a state \<open>'d\<close> of its own.
\<close>

record evlearner =
  el_state :: learner
  el_hole_timer_armed :: bool

type_synonym 'd deliver_function = "iid_t \<Rightarrow> u8 arr \<Rightarrow> int \<Rightarrow> 'd \<Rightarrow> 'd res"

text \<open>
  The loop \<^verbatim>\<open>while (learner_deliver_next(...))\<close>: every round deletes an instance, so the number of
  instances bounds the rounds (\<open>learner_hands_out_all\<close>).
\<close>

fun deliver_loop :: "'d deliver_function \<Rightarrow> nat \<Rightarrow> learner \<Rightarrow> 'd \<Rightarrow> (learner \<times> 'd) res" where
  "deliver_loop delfun 0 l d = Inl Diverges"
| "deliver_loop delfun (Suc k) l d =
     bind_res (learner_deliver_next l) (\<lambda>(l, out). case out of
        None \<Rightarrow> Inr (l, d)
      | Some deliver \<Rightarrow>
          bind_res (aread (ac_values deliver) 0) (\<lambda>v.
          bind_res (delfun (ac_iid deliver) (pv_val v) (pv_len v) d) (\<lambda>d.
          bind_res (paxos_accepted_destroy deliver) (\<lambda>_. deliver_loop delfun k l d))))"

definition evlearner_deliver_next_closed :: "'d deliver_function \<Rightarrow> evlearner \<Rightarrow> 'd \<Rightarrow> (evlearner \<times> 'd) res" where
  "evlearner_deliver_next_closed delfun l d =
     bind_res (deliver_loop delfun (kh_size (le_instances (el_state l)) + 1) (el_state l) d) (\<lambda>(st, d).
     Inr (l\<lparr>el_state := st\<rparr>, d))"

fun evlearner_handle_accepted :: "'d deliver_function \<Rightarrow> peer_ref \<Rightarrow> paxos_message \<Rightarrow> evlearner \<Rightarrow> 'd \<Rightarrow> (evlearner \<times> 'd) res" where
  "evlearner_handle_accepted delfun r (PAXOS_ACCEPTED acc) l d =
     bind_res (learner_receive_accepted (el_state l) acc) (\<lambda>st.
     evlearner_deliver_next_closed delfun (l\<lparr>el_state := st\<rparr>) d)"
| "evlearner_handle_accepted delfun r _ l d = Inl UnionMisread"

text \<open>
  The hole check returns at its first statement: the timer that fired is not armed again and no repeat
  is requested.
\<close>

definition evlearner_check_holes :: "evlearner \<Rightarrow> evlearner" where
  "evlearner_check_holes l = l\<lparr>el_hole_timer_armed := False\<rparr>"

definition evlearner_subs :: "(paxos_message_type \<times> ev_callback) list" where
  "evlearner_subs = [(TypeAccepted, Evlearner_handle_accepted)]"

definition evlearner_init_internal :: "paxos_config \<Rightarrow> evpaxos_config \<Rightarrow> ev_callback peers \<Rightarrow> (ev_callback peers \<times> evlearner) res" where
  "evlearner_init_internal cfg c ps =
     bind_res (subscribe_all evlearner_subs ps) (\<lambda>ps.
     Inr (ps, \<lparr>el_state = learner_new cfg (evpaxos_acceptor_count c), el_hole_timer_armed = True\<rparr>))"

definition evlearner_init ::
  "paxos_config \<Rightarrow> (string \<Rightarrow> u32) \<Rightarrow> string option \<Rightarrow> (paxos_config \<times> (ev_callback peers \<times> evlearner) option) res" where
  "evlearner_init cfg inet_addr file =
     bind_res (evpaxos_config_read cfg file) (\<lambda>(cfg, conf). case conf of
        None \<Rightarrow> Inr (cfg, None)
      | Some c \<Rightarrow>
          bind_res (peers_connect_to_acceptors inet_addr (peers_new 0 0 c) 0) (\<lambda>ps.
          bind_res (evlearner_init_internal cfg c ps) (\<lambda>r. Inr (cfg, Some r))))"

definition evlearner_set_instance_id :: "evlearner \<Rightarrow> iid_t \<Rightarrow> evlearner" where
  "evlearner_set_instance_id l iid = l\<lparr>el_state := learner_set_instance_id (el_state l) iid\<rparr>"

definition evlearner_send_trim :: "(pack_call list \<Rightarrow> u8 list) \<Rightarrow> iid_t \<Rightarrow> 'c peers \<Rightarrow> 'c peers res" where
  "evlearner_send_trim enc iid ps = peers_foreach_acceptor (peer_send enc (PAXOS_TRIM \<lparr>tr_iid = iid\<rparr>)) ps"

end
