(* ===== verification/Evreplica.thy ===== *)
theory Evreplica
  imports Evacceptor Evproposer Evlearner
begin

text \<open>
  The replica, src/evpaxos/evreplica.c: one process with an acceptor, a proposer (in root groups only)
  and a learner that share the connections. \<open>replica_call\<close> says what each callback does to the replica;
  a message is dispatched to the components in the order in which they subscribed: acceptor, proposer,
  learner.
\<close>

section \<open>State\<close>

text \<open>
  \<open>er_deliver\<close> tells whether the application registered a delivery function; \<open>er_log\<close> are the calls of
  it: instance, bytes and length.
\<close>

record evpaxos_replica =
  er_acceptor :: "mem_storage evacceptor"
  er_proposer :: "evproposer option"
  er_learner :: evlearner
  er_deliver :: bool
  er_log :: "(iid_t \<times> u8 arr \<times> int) list"

type_synonym er_world = "ev_callback peers \<times> evpaxos_replica"

section \<open>Delivery\<close>

text \<open>The delivery callback of the replica: the proposer learns how far the system is.\<close>

definition evpaxos_replica_deliver :: "iid_t \<Rightarrow> u8 arr \<Rightarrow> int \<Rightarrow> evpaxos_replica \<Rightarrow> evpaxos_replica res" where
  "evpaxos_replica_deliver iid val sz r =
     bind_res (evproposer_set_instance_id (er_proposer r) iid) (\<lambda>p.
     Inr (r\<lparr>er_proposer := p, er_log := (if er_deliver r then er_log r @ [(iid, val, sz)] else er_log r)\<rparr>))"

section \<open>Callbacks\<close>

definition on_acceptor ::
  "((mem_storage, ev_callback) ea_world \<Rightarrow> (mem_storage, ev_callback) ea_world res) \<Rightarrow> er_world \<Rightarrow> er_world res" where
  "on_acceptor f s = (case s of (ps, r) \<Rightarrow>
     bind_res (f (ps, er_acceptor r)) (\<lambda>(ps, a). Inr (ps, r\<lparr>er_acceptor := a\<rparr>)))"

definition on_proposer :: "(ev_callback ep_world \<Rightarrow> ev_callback ep_world res) \<Rightarrow> er_world \<Rightarrow> er_world res" where
  "on_proposer f s = (case s of (ps, r) \<Rightarrow> (case er_proposer r of
      None \<Rightarrow> Inl NullDeref
    | Some p \<Rightarrow> bind_res (f (ps, p)) (\<lambda>(ps, p). Inr (ps, r\<lparr>er_proposer := Some p\<rparr>))))"

text \<open>The learner is taken out of the replica while it delivers, and put back.\<close>

definition on_learner ::
  "(evlearner \<Rightarrow> evpaxos_replica \<Rightarrow> (evlearner \<times> evpaxos_replica) res) \<Rightarrow> er_world \<Rightarrow> er_world res" where
  "on_learner f s = (case s of (ps, r) \<Rightarrow>
     bind_res (f (er_learner r) r) (\<lambda>(l, r). Inr (ps, r\<lparr>er_learner := l\<rparr>)))"

fun replica_call :: "(pack_call list \<Rightarrow> u8 list) \<Rightarrow> timeval \<Rightarrow> (ev_callback, evpaxos_replica) caller" where
  "replica_call enc now Evacceptor_handle_prepare r m s = on_acceptor (evacceptor_handle_prepare enc r m) s"
| "replica_call enc now Evacceptor_handle_accept r m s = on_acceptor (evacceptor_handle_accept enc r m) s"
| "replica_call enc now Evacceptor_handle_repeat r m s = on_acceptor (evacceptor_handle_repeat enc r m) s"
| "replica_call enc now Evacceptor_handle_trim r m s = on_acceptor (evacceptor_handle_trim enc r m) s"
| "replica_call enc now Evacceptor_fwd_promise r m s = on_acceptor (evacceptor_fwd_promise enc r m) s"
| "replica_call enc now Evacceptor_fwd_accepted r m s = on_acceptor (evacceptor_fwd_accepted enc r m) s"
| "replica_call enc now Evacceptor_fwd_preempted r m s = on_acceptor (evacceptor_fwd_preempted enc r m) s"
| "replica_call enc now Evproposer_handle_promise r m s = on_proposer (evproposer_handle_promise enc now r m) s"
| "replica_call enc now Evproposer_handle_accepted r m s = on_proposer (evproposer_handle_accepted enc now r m) s"
| "replica_call enc now Evproposer_handle_preempted r m s = on_proposer (evproposer_handle_preempted enc now r m) s"
| "replica_call enc now Evproposer_handle_client_value r m s = on_proposer (evproposer_handle_client_value enc now r m) s"
| "replica_call enc now Evproposer_handle_acceptor_state r m s = on_proposer (evproposer_handle_acceptor_state r m) s"
| "replica_call enc now Evlearner_handle_accepted r m s =
     on_learner (evlearner_handle_accepted evpaxos_replica_deliver r m) s"

section \<open>Set-up\<close>

text \<open>
  \<open>None\<close> when the process ends because the storage backend is not available. When the port cannot be
  bound, the configuration is freed and then freed again with the learner.
\<close>

definition evpaxos_replica_init ::
  "paxos_config \<Rightarrow> (string \<Rightarrow> u32) \<Rightarrow> (int \<Rightarrow> bool) \<Rightarrow> int \<Rightarrow> 64 word \<times> 64 word \<Rightarrow> int \<Rightarrow> evpaxos_config \<Rightarrow> bool \<Rightarrow> er_world option res" where
  "evpaxos_replica_init cfg inet_addr bind_ok junk counters rid c deliver =
     bind_res (peers_connect_to_acceptors inet_addr (peers_new (fst counters) (snd counters) c) rid) (\<lambda>ps.
     bind_res (evacceptor_init_internal cfg junk rid c ps) (\<lambda>w. case w of
        None \<Rightarrow> Inr None
      | Some (ps, a) \<Rightarrow>
          bind_res (slot (ec_acceptors c) rid) (\<lambda>own.
          bind_res (if ad_parentid own \<le> 0 \<and> ad_groupid own = ad_parentid own
                    then bind_res (evproposer_init_internal cfg rid c ps) (\<lambda>(ps, p). Inr (ps, Some p))
                    else Inr (ps, None)) (\<lambda>(ps, p).
          bind_res (evlearner_init_internal cfg c ps) (\<lambda>(ps, l).
          bind_res (evpaxos_acceptor_listen_port c rid) (\<lambda>port.
          (case peers_listen bind_ok ps port of (ps, ok) \<Rightarrow>
             if \<not> ok then Inl Dangling
             else Inr (Some (ps, \<lparr>er_acceptor = a, er_proposer = p, er_learner = l, er_deliver = deliver, er_log = []\<rparr>)))))))))"

section \<open>Operations of the application\<close>

definition evpaxos_replica_set_instance_id :: "evpaxos_replica \<Rightarrow> iid_t \<Rightarrow> evpaxos_replica res" where
  "evpaxos_replica_set_instance_id r iid =
     bind_res (evproposer_set_instance_id (er_proposer r) iid) (\<lambda>p.
     Inr (r\<lparr>er_learner := evlearner_set_instance_id (er_learner r) iid, er_proposer := p\<rparr>))"

definition evpaxos_replica_send_trim :: "(pack_call list \<Rightarrow> u8 list) \<Rightarrow> iid_t \<Rightarrow> er_world \<Rightarrow> er_world res" where
  "evpaxos_replica_send_trim enc iid s = (case s of (ps, r) \<Rightarrow>
     bind_res (peers_foreach_acceptor (peer_send enc (PAXOS_TRIM \<lparr>tr_iid = iid\<rparr>)) ps) (\<lambda>ps. Inr (ps, r)))"

text \<open>
  The loop looks for the peer with acceptor number \<open>i\<close>, for every index \<open>i\<close> of the array of peers; there
  need not be one.
\<close>

fun submit_loop :: "(pack_call list \<Rightarrow> u8 list) \<Rightarrow> u8 arr \<Rightarrow> int \<Rightarrow> nat list \<Rightarrow> 'c peers \<Rightarrow> 'c peers res" where
  "submit_loop enc val sz [] ps = Inr ps"
| "submit_loop enc val sz (i # is) ps =
     (case peers_get_acceptor ps (int i) of
        None \<Rightarrow> Inl NullDeref
      | Some r \<Rightarrow> bind_res (peer_at r ps) (\<lambda>p.
          if peer_connected p
          then peer_send enc (PAXOS_CLIENT_VALUE \<lparr>cv_value = \<lparr>pv_len = sz, pv_val = val\<rparr>\<rparr>) r ps
          else submit_loop enc val sz is ps))"

definition evpaxos_replica_submit :: "(pack_call list \<Rightarrow> u8 list) \<Rightarrow> u8 arr \<Rightarrow> int \<Rightarrow> 'c peers \<Rightarrow> 'c peers res" where
  "evpaxos_replica_submit enc val sz ps = submit_loop enc val sz [0..<length (ps_peers ps)] ps"

definition evpaxos_replica_count :: "'c peers \<Rightarrow> int" where
  "evpaxos_replica_count ps = peers_count ps"

text \<open>
  The parameters of a replica thread. The start routine initialises the replica and, once the other
  side releases the lock, frees it.
\<close>

record evpaxos_parms =
  epa_id :: int
  epa_config :: evpaxos_config
  epa_deliver :: bool
  epa_tsync :: "nat option"
  epa_pgs :: "nat option"

definition evpaxos_alloc_parms :: "int \<Rightarrow> evpaxos_config \<Rightarrow> bool \<Rightarrow> nat option \<Rightarrow> nat option \<Rightarrow> evpaxos_parms" where
  "evpaxos_alloc_parms rid c deliver isync pgs =
     \<lparr>epa_id = rid, epa_config = c, epa_deliver = deliver, epa_tsync = isync, epa_pgs = pgs\<rparr>"

end
