(* ===== verification/Replica_Threads.thy ===== *)
theory Replica_Threads
  imports Evreplica
begin

text \<open>
  Replicas in threads of their own: \<^verbatim>\<open>evpaxos_replica_init_thread\<close> and \<^verbatim>\<open>evpaxos_replica_init_thread_start\<close> of
  \<^verbatim>\<open>evpaxos/evreplica.c\<close> under the launcher \<^verbatim>\<open>start_replica\<close> of \<^verbatim>\<open>sample/replica2.c\<close>. The launcher creates one
  thread for each replica, all on the same configuration, holds the mutex of each while it dispatches events, and
  releases them at the end. The steps of the launcher and of the threads interleave freely; what they share is the
  mutexes and the configuration.
\<close>

section \<open>State\<close>

text \<open>
  A mutex and who holds it. A thread is not created, before \<^verbatim>\<open>evpaxos_replica_init\<close>, waiting for its mutex with a
  replica, about to destroy the mutex, about to free the replica, or has ended. The launcher creates thread \<open>i\<close>,
  dispatches events, is about to release mutex \<open>i\<close>, waits for the end of thread \<open>i\<close>, or has returned.
  \<open>rt_config\<close>: the shared configuration is allocated.
\<close>

datatype tmutex = MUninit | MFree | MLauncher | MThread | MDestroyed

datatype thread_pc = TNone | TInit | TLock er_world | TDestroy er_world | TFree er_world | TExit

datatype launcher_pc = Creating nat | Dispatching | Unlocking nat | Joining nat | Returned

record replica_threads =
  rt_launcher :: launcher_pc
  rt_threads :: "thread_pc list"
  rt_mutexes :: "tmutex list"
  rt_config :: bool

definition threads_new :: "nat \<Rightarrow> replica_threads" where
  "threads_new n = \<lparr>rt_launcher = Creating 0, rt_threads = replicate n TNone, rt_mutexes = replicate n MUninit, rt_config = True\<rparr>"

section \<open>The thread of a replica\<close>

text \<open>\<^verbatim>\<open>evpaxos_config_free\<close> of the shared configuration.\<close>

definition config_free_shared :: "replica_threads \<Rightarrow> replica_threads res" where
  "config_free_shared s = (if rt_config s then Inr (s\<lparr>rt_config := False\<rparr>) else Inl Dangling)"

text \<open>The configuration is freed with the learner, the rest belongs to the replica alone.\<close>

definition evpaxos_replica_free :: "replica_threads \<Rightarrow> replica_threads res" where
  "evpaxos_replica_free s = config_free_shared s"

text \<open>
  The mutex is initialised, locked and the thread created; the caller passes the same mutex as the parameters hold.
\<close>

definition evpaxos_replica_init_thread :: "nat \<Rightarrow> replica_threads \<Rightarrow> replica_threads" where
  "evpaxos_replica_init_thread i s =
     s\<lparr>rt_mutexes := (rt_mutexes s)[i := MLauncher], rt_threads := (rt_threads s)[i := TInit]\<rparr>"

text \<open>
  The steps of thread \<open>i\<close>; \<open>None\<close> when it cannot move. \<open>ini\<close> is \<^verbatim>\<open>evpaxos_replica_init\<close> on the parameters of the
  thread, which reads the shared configuration; without a replica the thread returns at once. The mutex is destroyed
  by its holder, while it is locked.
\<close>

definition evpaxos_replica_init_thread_start ::
  "(nat \<Rightarrow> er_world option res) \<Rightarrow> nat \<Rightarrow> replica_threads \<Rightarrow> replica_threads res option" where
  "evpaxos_replica_init_thread_start ini i s =
     (if i < length (rt_threads s) then case rt_threads s ! i of
        TInit \<Rightarrow> Some (if rt_config s
            then bind_res (ini i) (\<lambda>r. Inr (s\<lparr>rt_threads := (rt_threads s)[i := (case r of None \<Rightarrow> TExit | Some w \<Rightarrow> TLock w)]\<rparr>))
            else Inl Dangling)
      | TLock w \<Rightarrow> if rt_mutexes s ! i = MFree
            then Some (Inr (s\<lparr>rt_mutexes := (rt_mutexes s)[i := MThread], rt_threads := (rt_threads s)[i := TDestroy w]\<rparr>))
            else None
      | TDestroy w \<Rightarrow>
            Some (Inr (s\<lparr>rt_mutexes := (rt_mutexes s)[i := MDestroyed], rt_threads := (rt_threads s)[i := TFree w]\<rparr>))
      | TFree w \<Rightarrow> Some (bind_res (evpaxos_replica_free s) (\<lambda>s. Inr (s\<lparr>rt_threads := (rt_threads s)[i := TExit]\<rparr>)))
      | _ \<Rightarrow> None
      else None)"

section \<open>The launcher\<close>

definition start_replica :: "nat \<Rightarrow> replica_threads \<Rightarrow> replica_threads res option" where
  "start_replica nnodes s = (case rt_launcher s of
      Creating i \<Rightarrow> Some (Inr (if i < nnodes then (evpaxos_replica_init_thread i s)\<lparr>rt_launcher := Creating (Suc i)\<rparr>
                              else s\<lparr>rt_launcher := Dispatching\<rparr>))
    | Dispatching \<Rightarrow> Some (Inr (s\<lparr>rt_launcher := Unlocking 0\<rparr>))
    | Unlocking i \<Rightarrow> Some (Inr (if i < nnodes then s\<lparr>rt_mutexes := (rt_mutexes s)[i := MFree], rt_launcher := Joining i\<rparr>
                               else s\<lparr>rt_launcher := Returned\<rparr>))
    | Joining i \<Rightarrow> if rt_threads s ! i = TExit
                  then Some (bind_res (config_free_shared s) (\<lambda>s. Inr (s\<lparr>rt_launcher := Unlocking (Suc i)\<rparr>)))
                  else None
    | Returned \<Rightarrow> None)"

section \<open>Interleavings\<close>

datatype actor = Launcher | Thread nat

fun threads_step :: "(nat \<Rightarrow> er_world option res) \<Rightarrow> nat \<Rightarrow> actor \<Rightarrow> replica_threads \<Rightarrow> replica_threads res option" where
  "threads_step ini n Launcher s = start_replica n s"
| "threads_step ini n (Thread i) s = evpaxos_replica_init_thread_start ini i s"

inductive threads_reachable :: "(nat \<Rightarrow> er_world option res) \<Rightarrow> nat \<Rightarrow> replica_threads \<Rightarrow> bool" for ini n where
  thr_new: "threads_reachable ini n (threads_new n)"
| thr_step: "threads_reachable ini n s \<Longrightarrow> threads_step ini n a s = Some (Inr s') \<Longrightarrow> threads_reachable ini n s'"

text \<open>A schedule; an actor that cannot move is skipped.\<close>

fun threads_run :: "(nat \<Rightarrow> er_world option res) \<Rightarrow> nat \<Rightarrow> actor list \<Rightarrow> replica_threads \<Rightarrow> replica_threads res" where
  "threads_run ini n [] s = Inr s"
| "threads_run ini n (a # as) s = (case threads_step ini n a s of
      None \<Rightarrow> threads_run ini n as s
    | Some r \<Rightarrow> bind_res r (threads_run ini n as))"

section \<open>The invariant\<close>

text \<open>Thread \<open>j\<close> has been created and its replica is not touched: the launcher holds the mutex.\<close>

fun building :: "thread_pc \<Rightarrow> bool" where
  "building TInit = True"
| "building (TLock w) = True"
| "building _ = False"

definition up :: "replica_threads \<Rightarrow> nat \<Rightarrow> bool" where
  "up s j \<longleftrightarrow> rt_mutexes s ! j = MLauncher \<and> building (rt_threads s ! j)"

text \<open>
  While the launcher creates threads and dispatches events all created threads are up. It only ever gets to release
  the first mutex: when that thread has ended the configuration is gone, and freeing it again is a fault.
\<close>

definition threads_inv :: "nat \<Rightarrow> replica_threads \<Rightarrow> bool" where
  "threads_inv n s \<longleftrightarrow> length (rt_threads s) = n \<and> length (rt_mutexes s) = n \<and>
     (case rt_launcher s of
        Creating i \<Rightarrow> i \<le> n \<and> rt_config s \<and> (\<forall>j < n. if j < i then up s j else rt_threads s ! j = TNone)
      | Dispatching \<Rightarrow> rt_config s \<and> (\<forall>j < n. up s j)
      | Unlocking i \<Rightarrow> i = 0 \<and> rt_config s \<and> (\<forall>j < n. up s j)
      | Joining i \<Rightarrow> i = 0 \<and> 0 < n \<and> (\<forall>j < n. 0 < j \<longrightarrow> up s j) \<and> rt_threads s ! 0 \<noteq> TNone \<and>
          rt_config s = (rt_threads s ! 0 \<noteq> TExit) \<and>
          (building (rt_threads s ! 0) \<longrightarrow> rt_mutexes s ! 0 = MFree)
      | Returned \<Rightarrow> n = 0)"

lemma threads_inv_new: "threads_inv n (threads_new n)"
  by (simp add: threads_inv_def threads_new_def)

lemma up_other: "i \<noteq> j \<Longrightarrow>
  up (s\<lparr>rt_threads := (rt_threads s)[i := x]\<rparr>) j = up s j"
  "i \<noteq> j \<Longrightarrow> up (s\<lparr>rt_mutexes := (rt_mutexes s)[i := y], rt_threads := (rt_threads s)[i := x]\<rparr>) j = up s j"
  "i \<noteq> j \<Longrightarrow> up (s\<lparr>rt_mutexes := (rt_mutexes s)[i := y], rt_launcher := l\<rparr>) j = up s j"
  "i \<noteq> j \<Longrightarrow> up (s\<lparr>rt_mutexes := (rt_mutexes s)[i := y], rt_threads := (rt_threads s)[i := x], rt_launcher := l\<rparr>) j = up s j"
  "i \<noteq> j \<Longrightarrow> up (s\<lparr>rt_mutexes := (rt_mutexes s)[i := y]\<rparr>) j = up s j"
  "up (s\<lparr>rt_launcher := l\<rparr>) j = up s j" "up (s\<lparr>rt_config := b\<rparr>) j = up s j"
  by (simp_all add: up_def)

lemma launcher_inv:
  assumes "threads_inv n s" "start_replica n s = Some (Inr s')"
  shows "threads_inv n s'"
proof (cases "rt_launcher s")
  case (Creating i)
  show ?thesis
  proof (cases "i < n")
    case True
    then have s': "s' = s\<lparr>rt_mutexes := (rt_mutexes s)[i := MLauncher], rt_threads := (rt_threads s)[i := TInit], rt_launcher := Creating (Suc i)\<rparr>"
      using assms(2) Creating by (simp add: start_replica_def evpaxos_replica_init_thread_def)
    have "if j < Suc i then up s' j else rt_threads s' ! j = TNone" if "j < n" for j
      using assms(1) Creating True that unfolding s' by (cases "j = i") (auto simp: threads_inv_def up_def nth_list_update)
    moreover have "rt_launcher s' = Creating (Suc i)" "rt_config s'" "length (rt_threads s') = n" "length (rt_mutexes s') = n"
      using assms(1) Creating by (simp_all add: threads_inv_def s')
    ultimately show ?thesis using True by (simp add: threads_inv_def)
  next
    case False
    then have "s' = s\<lparr>rt_launcher := Dispatching\<rparr>" using assms(2) Creating by (simp add: start_replica_def)
    then show ?thesis using assms(1) Creating False by (auto simp: threads_inv_def up_other)
  qed
next
  case Dispatching
  then have "s' = s\<lparr>rt_launcher := Unlocking 0\<rparr>" using assms(2) by (simp add: start_replica_def)
  then show ?thesis using assms(1) Dispatching by (auto simp: threads_inv_def up_other)
next
  case (Unlocking i)
  then have i: "i = 0" "rt_config s" "\<forall>j < n. up s j" "length (rt_threads s) = n" "length (rt_mutexes s) = n"
    using assms(1) by (auto simp: threads_inv_def)
  show ?thesis
  proof (cases "n = 0")
    case True
    then show ?thesis using assms(2) Unlocking i by (auto simp: threads_inv_def start_replica_def)
  next
    case False
    then have s': "s' = s\<lparr>rt_mutexes := (rt_mutexes s)[0 := MFree], rt_launcher := Joining 0\<rparr>"
      using assms(2) Unlocking i(1) by (simp add: start_replica_def)
    have "up s 0" using False i(3) by simp
    then have "rt_threads s ! 0 \<noteq> TNone" "rt_threads s ! 0 \<noteq> TExit" by (auto simp: up_def)
    then show ?thesis using False i by (auto simp: threads_inv_def s' up_other)
  qed
next
  case (Joining i)
  then show ?thesis using assms by (auto simp: start_replica_def threads_inv_def config_free_shared_def split: if_splits)
next
  case Returned
  then show ?thesis using assms(2) by (simp add: start_replica_def)
qed

text \<open>While the launcher holds all mutexes of created threads, such a thread can only build its replica.\<close>

lemma up_step:
  assumes "up s i" "i < length (rt_threads s)" "evpaxos_replica_init_thread_start ini i s = Some (Inr s')"
    and "\<exists>w. ini i = Inr (Some w)"
  shows "\<exists>w. s' = s\<lparr>rt_threads := (rt_threads s)[i := TLock w]\<rparr>"
proof -
  obtain w where w: "ini i = Inr (Some w)" using assms(4) by blast
  show ?thesis
    using assms(1-3) w by (cases "rt_threads s ! i") (auto simp: up_def evpaxos_replica_init_thread_start_def simp del: split_paired_Ex split: if_splits)
qed

lemma up_init: "up s i \<Longrightarrow> i < length (rt_threads s) \<Longrightarrow> up (s\<lparr>rt_threads := (rt_threads s)[j := TLock w]\<rparr>) i"
  by (cases "i = j") (simp_all add: up_def)

lemma started: "evpaxos_replica_init_thread_start ini i s = Some r \<Longrightarrow> i < length (rt_threads s) \<and> rt_threads s ! i \<noteq> TNone"
  by (auto simp: evpaxos_replica_init_thread_start_def split: if_splits)

lemma first_thread_inv:
  assumes s: "threads_inv n s" "rt_launcher s = Joining 0" and ini: "\<exists>w. ini 0 = Inr (Some w)"
    and step: "evpaxos_replica_init_thread_start ini 0 s = Some (Inr s')"
  shows "threads_inv n s'"
proof -
  have n: "0 < n" "length (rt_threads s) = n" "length (rt_mutexes s) = n" "rt_config s = (rt_threads s ! 0 \<noteq> TExit)"
    "\<forall>j < n. 0 < j \<longrightarrow> up s j" "building (rt_threads s ! 0) \<longrightarrow> rt_mutexes s ! 0 = MFree"
    using s by (auto simp: threads_inv_def)
  show ?thesis
  proof (cases "rt_threads s ! 0")
    case (TFree w)
    then show ?thesis using step n s(2)
      by (auto simp: evpaxos_replica_init_thread_start_def evpaxos_replica_free_def config_free_shared_def threads_inv_def up_def)
  qed (use step n s(2) ini in \<open>auto simp: evpaxos_replica_init_thread_start_def threads_inv_def up_def split: if_splits\<close>)
qed

lemma thread_inv:
  assumes s: "threads_inv n s" and ini: "\<forall>i < n. \<exists>w. ini i = Inr (Some w)"
    and step: "evpaxos_replica_init_thread_start ini i s = Some (Inr s')"
  shows "threads_inv n s'"
proof (cases "rt_launcher s = Joining 0 \<and> i = 0")
  case True
  then have "0 < n" using s by (auto simp: threads_inv_def)
  then show ?thesis using first_thread_inv[OF s] True ini step by blast
next
  case False
  have i: "i < n" "rt_threads s ! i \<noteq> TNone" using started[OF step] s by (auto simp: threads_inv_def)
  have u: "up s i" using s False i by (auto simp: threads_inv_def split: launcher_pc.splits if_splits)
  obtain w where s': "s' = s\<lparr>rt_threads := (rt_threads s)[i := TLock w]\<rparr>"
    using up_step[OF u _ step] i(1) s ini by (auto simp: threads_inv_def)
  have up: "up s' j" if "up s j" "j < n" for j using up_init[OF that(1)] that(2) s by (simp add: s' threads_inv_def)
  have eq: "rt_launcher s' = rt_launcher s" "rt_config s' = rt_config s" "rt_mutexes s' = rt_mutexes s"
    "length (rt_threads s') = length (rt_threads s)" "\<And>j. j \<noteq> i \<Longrightarrow> rt_threads s' ! j = rt_threads s ! j"
    by (simp_all add: s')
  show ?thesis
  proof (cases "rt_launcher s")
    case (Creating k)
    then have "i < k" using s i by (auto simp: threads_inv_def intro: ccontr)
    then show ?thesis using s up eq Creating by (auto simp: threads_inv_def)
  next
    case (Joining k)
    then have "k = 0" "i \<noteq> 0" using s False by (auto simp: threads_inv_def)
    then show ?thesis using s up eq(1-4) eq(5)[of 0] Joining by (auto simp: threads_inv_def)
  qed (use s up eq(1-4) in \<open>auto simp: threads_inv_def\<close>)
qed

lemma threads_inv_reachable:
  assumes "threads_reachable ini n s" "\<forall>i < n. \<exists>w. ini i = Inr (Some w)"
  shows "threads_inv n s"
  using assms(1)
proof induction
  case thr_new
  show ?case by (rule threads_inv_new)
next
  case (thr_step s a s')
  show ?case
  proof (cases a)
    case Launcher
    then show ?thesis using launcher_inv[OF thr_step.IH] thr_step.hyps(2) by simp
  next
    case (Thread i)
    then show ?thesis using thread_inv[OF thr_step.IH assms(2)] thr_step.hyps(2) by simp
  qed
qed

section \<open>Shutting down\<close>

fun thread_left :: "thread_pc \<Rightarrow> nat" where
  "thread_left TNone = 5"
| "thread_left TInit = 4"
| "thread_left (TLock w) = 3"
| "thread_left (TDestroy w) = 2"
| "thread_left (TFree w) = 1"
| "thread_left TExit = 0"

fun launcher_left :: "nat \<Rightarrow> launcher_pc \<Rightarrow> nat" where
  "launcher_left n (Creating i) = n - i + 3"
| "launcher_left n Dispatching = 2"
| "launcher_left n (Unlocking i) = 1"
| "launcher_left n _ = 0"

definition steps_left :: "nat \<Rightarrow> replica_threads \<Rightarrow> nat" where
  "steps_left n s = launcher_left n (rt_launcher s) + thread_left (rt_threads s ! 0)"

lemma first_thread_moves:
  assumes "threads_inv n s" "rt_launcher s = Joining 0" "\<exists>w. ini 0 = Inr (Some w)" "rt_threads s ! 0 \<noteq> TExit"
  shows "\<exists>s'. evpaxos_replica_init_thread_start ini 0 s = Some (Inr s') \<and> steps_left n s' < steps_left n s"
  using assms
  by (cases "rt_threads s ! 0")
    (auto simp: threads_inv_def evpaxos_replica_init_thread_start_def evpaxos_replica_free_def config_free_shared_def steps_left_def)

lemma shutdown_progress:
  assumes s: "threads_inv n s" and n: "0 < n" and ini: "\<forall>i < n. \<exists>w. ini i = Inr (Some w)"
  shows "(\<exists>a. threads_step ini n a s = Some (Inl Dangling)) \<or>
    (\<exists>a s'. threads_step ini n a s = Some (Inr s') \<and> steps_left n s' < steps_left n s)"
proof (cases "rt_launcher s")
  case (Creating i)
  have "thread_left ((rt_threads s)[i := TInit] ! 0) \<le> thread_left (rt_threads s ! 0)" if "i < n"
    using s Creating n that by (cases "i = 0") (auto simp: threads_inv_def)
  then have "\<exists>s'. start_replica n s = Some (Inr s') \<and> steps_left n s' < steps_left n s"
    using Creating by (auto simp: start_replica_def steps_left_def evpaxos_replica_init_thread_def)
  then show ?thesis by (metis threads_step.simps(1))
next
  case (Joining i)
  then have i: "i = 0" "rt_config s = (rt_threads s ! 0 \<noteq> TExit)" using s by (auto simp: threads_inv_def)
  show ?thesis
  proof (cases "rt_threads s ! 0 = TExit")
    case True
    then have "threads_step ini n Launcher s = Some (Inl Dangling)"
      using Joining i by (simp add: start_replica_def config_free_shared_def)
    then show ?thesis by blast
  next
    case False
    then show ?thesis using first_thread_moves[OF s, of ini] Joining i(1) ini n by (metis threads_step.simps(2))
  qed
next
  case Returned
  then show ?thesis using s n by (simp add: threads_inv_def)
qed (use s n in \<open>auto simp: start_replica_def steps_left_def threads_inv_def intro!: exI[of _ Launcher]\<close>)

lemma shutdown_run:
  assumes "threads_inv n s" "0 < n" "\<forall>i < n. \<exists>w. ini i = Inr (Some w)"
  shows "\<exists>as. threads_run ini n as s = Inl Dangling"
  using assms(1)
proof (induction "steps_left n s" arbitrary: s rule: less_induct)
  case less
  from shutdown_progress[OF less.prems assms(2,3)] show ?case
  proof
    assume "\<exists>a. threads_step ini n a s = Some (Inl Dangling)"
    then obtain a where "threads_step ini n a s = Some (Inl Dangling)" by blast
    then have "threads_run ini n [a] s = Inl Dangling" by simp
    then show ?thesis by blast
  next
    assume "\<exists>a s'. threads_step ini n a s = Some (Inr s') \<and> steps_left n s' < steps_left n s"
    then obtain a s' where a: "threads_step ini n a s = Some (Inr s')" "steps_left n s' < steps_left n s" by blast
    have "threads_inv n s'" using a(1) launcher_inv[OF less.prems] thread_inv[OF less.prems assms(3)] by (cases a) simp_all
    from less.hyps[OF a(2) this] obtain as where "threads_run ini n as s' = Inl Dangling" by blast
    then have "threads_run ini n (a # as) s = Inl Dangling" using a(1) by simp
    then show ?thesis by blast
  qed
qed


text \<open>
  C36: the launcher never returns. With at least one replica, the thread of the first replica frees the shared configuration
  with its learner and the launcher frees it again: no interleaving lets the launcher return, and from every
  state some interleaving uses the freed configuration.
\<close>

theorem shutdown_double_free:
  assumes "threads_reachable ini n s" "\<forall>i < n. \<exists>w. ini i = Inr (Some w)" "0 < n"
  shows "rt_launcher s \<noteq> Returned \<and> (\<exists>as. threads_run ini n as s = Inl Dangling)"
proof -
  have inv: "threads_inv n s" using threads_inv_reachable assms(1,2) by blast
  then have "rt_launcher s \<noteq> Returned" using assms(3) by (auto simp: threads_inv_def)
  then show ?thesis using shutdown_run[OF inv assms(3,2)] by blast
qed

section \<open>Two replicas\<close>

definition two_replicas :: evpaxos_config where
  "two_replicas = (let a = \<lparr>ad_addr = Some ''127.0.0.1'', ad_port = 8800, ad_groupid = 0, ad_parentid = 0\<rparr>;
     as = [a, a\<lparr>ad_port := 8801\<rparr>] in \<lparr>ec_proposers = as, ec_acceptors = as, ec_pgs = Some 0\<rparr>)"

definition two_init :: "nat \<Rightarrow> er_world option res" where
  "two_init i = evpaxos_replica_init paxos_config_default (\<lambda>_. 0x7F000001) (\<lambda>_. True) 0 (0, 0) (int i) two_replicas False"

fun is_replica :: "er_world option res \<Rightarrow> bool" where
  "is_replica (Inr (Some w)) = True"
| "is_replica _ = False"

lemma two_init_ok: "\<forall>i < 2. \<exists>w. two_init i = Inr (Some w)"
proof -
  have "is_replica (two_init 0)" "is_replica (two_init 1)" by code_simp+
  then show ?thesis by (auto simp: less_2_cases_iff elim!: is_replica.elims simp del: split_paired_Ex)
qed

lemma threads_run_reachable:
  "threads_reachable ini n s \<Longrightarrow> threads_run ini n as s = Inr s' \<Longrightarrow> threads_reachable ini n s'"
proof (induction as arbitrary: s)
  case (Cons a as)
  then show ?case
    by (cases "threads_step ini n a s") (auto simp: bind_res_Inr_iff intro: Cons.IH[OF thr_step])
qed simp


theorem shutdown_double_free_witness:
  "rt_launcher (threads_new 2) \<noteq> Returned \<and> (\<exists>as. threads_run two_init 2 as (threads_new 2) = Inl Dangling)"
  by (rule shutdown_double_free[OF thr_new two_init_ok]) simp

end
