(* ===== verification/Counter.thy ===== *)
theory Counter
  imports Evreplica C_Library
begin

text \<open>
  \<^verbatim>\<open>sample/counter.c\<close>: a replicated counter on top of a replica. Every delivered value counts, except the messages
  \<^verbatim>\<open>TRIM <id> <instance>\<close> with which a replica announces that it wrote a checkpoint; when all replicas have
  announced one, the acceptors are told to forget the instances below. The state file of the replica is the field
  \<open>cr_file\<close>; whether it can be opened for writing is an argument.
\<close>

section \<open>State\<close>

record trim_info =
  ti_count :: int
  ti_last_trim :: int
  ti_instances :: "int list"

record counter_replica =
  cr_id :: int
  cr_count :: int
  cr_instance_id :: iid_t
  cr_trim :: trim_info
  cr_client_ev :: bool
  cr_file :: "string option"

type_synonym counter_world = "er_world \<times> counter_replica"

definition trim_zero :: "int \<Rightarrow> trim_info" where
  "trim_zero n = \<lparr>ti_count = n, ti_last_trim = 0, ti_instances = replicate 16 0\<rparr>"

section \<open>The state file\<close>

text \<open>
  \<^verbatim>\<open>fscanf(f, "%d %d", ...)\<close> stores the numbers one by one, so a file with a single number sets the count only.
  The unsigned \<^verbatim>\<open>instance_id\<close> is printed and scanned as a signed number.
\<close>

definition scan_state :: "string \<Rightarrow> counter_replica \<Rightarrow> counter_replica" where
  "scan_state txt c = (case scan_int txt of
      None \<Rightarrow> c
    | Some (v, rest) \<Rightarrow> (case scan_int rest of
          None \<Rightarrow> c\<lparr>cr_count := v\<rparr>
        | Some (i, _) \<Rightarrow> c\<lparr>cr_count := v, cr_instance_id := u32_of_int i\<rparr>))"

definition init_state :: "counter_replica \<Rightarrow> counter_replica" where
  "init_state c = (let c = c\<lparr>cr_count := 0, cr_instance_id := 0\<rparr> in
     case cr_file c of None \<Rightarrow> c | Some txt \<Rightarrow> scan_state txt c)"

definition state_text :: "counter_replica \<Rightarrow> string" where
  "state_text c = show_int (cr_count c) @ '' '' @ show_int (int_of_u32 (cr_instance_id c))"

text \<open>The result of \<^verbatim>\<open>fopen\<close> is not checked.\<close>

definition checkpoint_state :: "bool \<Rightarrow> counter_replica \<Rightarrow> counter_replica res" where
  "checkpoint_state writable c = (if writable then Inr (c\<lparr>cr_file := Some (state_text c)\<rparr>) else Inl NullDeref)"

section \<open>Updates\<close>

text \<open>The count wraps around at the width of an \<^verbatim>\<open>int\<close>.\<close>

definition update_state :: "iid_t \<Rightarrow> counter_replica \<Rightarrow> counter_replica" where
  "update_state iid c = c\<lparr>cr_count := int_of_long (cr_count c + 1), cr_instance_id := iid\<rparr>"

text \<open>\<^verbatim>\<open>instances[i]\<close> for an \<^verbatim>\<open>int\<close>, and the loop for the minimum.\<close>

definition trim_at :: "int list \<Rightarrow> int \<Rightarrow> int res" where
  "trim_at xs i = (if i < 0 then Inl OutOfBounds else aread (Some xs) (nat i))"

fun trim_min :: "int list \<Rightarrow> nat list \<Rightarrow> int \<Rightarrow> int res" where
  "trim_min xs [] m = Inr m"
| "trim_min xs (i # is) m = bind_res (aread (Some xs) i) (\<lambda>x. trim_min xs is (if x < m then x else m))"

text \<open>The minimum starts with the entry of replica 0 from before the update.\<close>

definition update_trim_info ::
  "(pack_call list \<Rightarrow> u8 list) \<Rightarrow> int \<Rightarrow> int \<Rightarrow> counter_world \<Rightarrow> counter_world res" where
  "update_trim_info enc replica_id trim_id w = (case w of (s, c) \<Rightarrow>
     let t = cr_trim c in
     bind_res (trim_at (ti_instances t) replica_id) (\<lambda>x.
     if trim_id \<le> x then Inr w
     else bind_res (trim_at (ti_instances t) 0) (\<lambda>m.
          let xs = (ti_instances t)[nat replica_id := trim_id] in
          bind_res (trim_min xs [0..<nat (ti_count t)] m) (\<lambda>m.
          if m > ti_last_trim t
          then bind_res (evpaxos_replica_send_trim enc (u32_of_int m) s) (\<lambda>s.
               Inr (s, c\<lparr>cr_trim := t\<lparr>ti_instances := xs, ti_last_trim := m\<rparr>\<rparr>))
          else Inr (s, c\<lparr>cr_trim := t\<lparr>ti_instances := xs\<rparr>\<rparr>)))))"

section \<open>Messages\<close>

definition str_bytes :: "string \<Rightarrow> u8 list" where
  "str_bytes s = map (\<lambda>c. word_of_nat (of_char c)) s"

text \<open>A \<^verbatim>\<open>char*\<close> as a string: the bytes up to the first null character, which has to be inside the buffer.\<close>

definition c_string :: "u8 arr \<Rightarrow> string res" where
  "c_string val = (case val of
      None \<Rightarrow> Inl NullDeref
    | Some bs \<Rightarrow> if 0 \<in> set bs then Inr (map (\<lambda>b. char_of (unat b)) (takeWhile (\<lambda>b. b \<noteq> 0) bs)) else Inl OutOfBounds)"

text \<open>\<^verbatim>\<open>sscanf(value, "TRIM %d %d", ...) == 2\<close>.\<close>

definition scan_trim :: "string \<Rightarrow> (int \<times> int) option" where
  "scan_trim s =
     (if take 4 s = ''TRIM''
      then Option.bind (scan_int (drop 4 s)) (\<lambda>(r, rest). map_option (\<lambda>(k, _). (r, k)) (scan_int rest))
      else None)"

definition trim_text :: "counter_replica \<Rightarrow> string" where
  "trim_text c = take 63 (''TRIM '' @ show_int (cr_id c) @ '' '' @ show_int (int_of_u32 (cr_instance_id c)))"

definition submit_trim :: "(pack_call list \<Rightarrow> u8 list) \<Rightarrow> counter_world \<Rightarrow> counter_world res" where
  "submit_trim enc w = (case w of ((ps, r), c) \<Rightarrow>
     bind_res (evpaxos_replica_submit enc (Some (str_bytes (trim_text c) @ [0])) (int (length (trim_text c)) + 1) ps) (\<lambda>ps.
     Inr ((ps, r), c)))"

section \<open>Callbacks\<close>

definition on_deliver ::
  "bool \<Rightarrow> (pack_call list \<Rightarrow> u8 list) \<Rightarrow> iid_t \<Rightarrow> u8 arr \<Rightarrow> int \<Rightarrow> counter_world \<Rightarrow> counter_world res" where
  "on_deliver writable enc iid val sz w =
     bind_res (c_string val) (\<lambda>txt.
     bind_res (case scan_trim txt of
         Some (replica_id, trim_id) \<Rightarrow> update_trim_info enc replica_id trim_id w
       | None \<Rightarrow> Inr (fst w, update_state iid (snd w))) (\<lambda>(s, c).
     if iid mod 100 = 0
     then bind_res (checkpoint_state writable c) (\<lambda>c. submit_trim enc (s, c))
     else Inr (s, c)))"

definition on_client_value :: "(pack_call list \<Rightarrow> u8 list) \<Rightarrow> counter_world \<Rightarrow> counter_world res" where
  "on_client_value enc w = (case w of ((ps, r), c) \<Rightarrow>
     bind_res (evpaxos_replica_submit enc (Some (str_bytes ''COUNT'' @ [0])) 6 ps) (\<lambda>ps.
     Inr ((ps, r), c\<lparr>cr_client_ev := True\<rparr>)))"

section \<open>Set-up\<close>

text \<open>
  \<^verbatim>\<open>start_replica\<close> up to the event loop. A configuration that cannot be read is a null pointer for
  \<^verbatim>\<open>evpaxos_replica_init\<close>; without a replica the process exits (\<open>None\<close>).
\<close>

definition counter_start ::
  "paxos_config \<Rightarrow> (string \<Rightarrow> u32) \<Rightarrow> (int \<Rightarrow> bool) \<Rightarrow> int \<Rightarrow> 64 word \<times> 64 word \<Rightarrow> int \<Rightarrow> string option \<Rightarrow> string option \<Rightarrow>
     counter_world option res" where
  "counter_start cfg inet_addr bind_ok junk counters rid config state =
     bind_res (evpaxos_config_read cfg config) (\<lambda>(cfg, conf). case conf of
        None \<Rightarrow> Inl NullDeref
      | Some conf \<Rightarrow>
          bind_res (evpaxos_replica_init cfg inet_addr bind_ok junk counters rid conf True) (\<lambda>w. case w of
             None \<Rightarrow> Inr None
           | Some (ps, r) \<Rightarrow>
               let c = init_state \<lparr>cr_id = rid, cr_count = 0, cr_instance_id = 0, cr_trim = trim_zero 0,
                         cr_client_ev = False, cr_file = state\<rparr> in
               bind_res (evpaxos_replica_set_instance_id r (cr_instance_id c)) (\<lambda>r.
               Inr (Some ((ps, r), c\<lparr>cr_trim := trim_zero (evpaxos_replica_count ps), cr_client_ev := True\<rparr>)))))"

end
