(* ===== verification/Acceptor_Safety.thy ===== *)
theory Acceptor_Safety
  imports Acceptor
begin

text \<open>
  What the handlers of \<open>Acceptor\<close> guarantee, over every storage that keeps the contract
  \<open>record_store\<close>, and as properties of the acceptor on the memory backend.
\<close>

section \<open>Reading a record\<close>

definition promised :: "paxos_accepted \<Rightarrow> ballot_t" where
  "promised r = hd (the (ac_ballots r))"

definition own_record :: "int \<Rightarrow> paxos_accepted \<Rightarrow> bool" where
  "own_record aid r \<longleftrightarrow> hd (the (ac_aids r)) = u32_of_int aid"

definition first_value :: "paxos_accepted \<Rightarrow> paxos_value" where
  "first_value r = (case ac_values r of None \<Rightarrow> value_zero
     | Some vs \<Rightarrow> \<lparr>pv_len = pv_len (hd vs), pv_val = Some (take (nat (pv_len (hd vs))) (case pv_val (hd vs) of None \<Rightarrow> [] | Some bs \<Rightarrow> bs))\<rparr>)"

definition promise_of :: "paxos_accepted \<Rightarrow> paxos_promise" where
  "promise_of r = \<lparr>pr_src = ac_src r, pr_iid = ac_iid r, pr_ballot_0 = promised r,
     pr_value_ballot_0 = hd (the (ac_value_ballots r)), pr_n_aids = 1,
     pr_aids = Some [hd (the (ac_aids r))], pr_value_0 = value_zero, pr_values = Some [first_value r],
     pr_ballots = Some [promised r], pr_value_ballots = Some [hd (the (ac_value_ballots r))]\<rparr>"

lemma arr_len_Cons: "arr_len a n \<Longrightarrow> 0 < n \<Longrightarrow> \<exists>x xs. a = Some (x # xs)"
  using unat_u32_pos[of n] by (auto simp: arr_len_iff neq_Nil_conv[symmetric])

lemma accepted_ok_shape:
  assumes "accepted_ok r"
  obtains a as b bs v vs where "ac_aids r = Some (a # as)" "ac_ballots r = Some (b # bs)"
    "ac_value_ballots r = Some (v # vs)"
  using assms arr_len_Cons[of _ "ac_n_aids r"] unfolding accepted_ok_def by metis

lemma aread_ballot: "accepted_ok r \<Longrightarrow> aread (ac_ballots r) 0 = Inr (promised r)"
  by (erule accepted_ok_shape) (simp add: promised_def)

lemma ballot_allowed_ok:
  "accepted_ok r \<Longrightarrow> ballot_allowed 1 r b = Inr (promised r \<le> b)"
  by (simp add: ballot_allowed_def aread_ballot)

lemma ballot_allowed_absent [simp]: "ballot_allowed 0 r b = Inr True"
  by (simp add: ballot_allowed_def)

lemma first_value_copy:
  assumes "accepted_ok r" "ac_values r = Some vs"
  shows "aread (ac_values r) 0 = Inr (hd vs)"
    and "copy_bytes (pv_len (hd vs)) (pv_val (hd vs)) = Inr (pv_val (first_value r))"
proof -
  have "length vs = unat (ac_n_aids r)" "0 < unat (ac_n_aids r)" and v: "\<forall>v \<in> set vs. value_ok v"
    using assms by (auto simp: accepted_ok_def unat_u32_pos)
  then obtain w ws where vs: "vs = w # ws" by (cases vs) auto
  with assms(2) show "aread (ac_values r) 0 = Inr (hd vs)" by simp
  have "value_ok w" using v vs by simp
  then show "copy_bytes (pv_len (hd vs)) (pv_val (hd vs)) = Inr (pv_val (first_value r))"
    using assms(2) vs
    by (auto simp: value_ok_cases copy_bytes_def acopy_def first_value_def nat_le_iff split: option.splits)
qed

lemma accepted_to_promise_ok:
  assumes "accepted_ok r"
  shows "paxos_accepted_to_promise r = Inr (promise_of r)"
proof -
  obtain a as b bs v vs where s: "ac_aids r = Some (a # as)" "ac_ballots r = Some (b # bs)"
    "ac_value_ballots r = Some (v # vs)" using accepted_ok_shape[OF assms] .
  show ?thesis
  proof (cases "ac_values r")
    case None
    with s show ?thesis
      by (simp add: paxos_accepted_to_promise_def promise_of_def promised_def first_value_def)
  next
    case (Some ws)
    from first_value_copy[OF assms Some] have
      "(case ac_values r of None \<Rightarrow> Inr value_zero
         | Some _ \<Rightarrow> bind_res (aread (ac_values r) 0) (\<lambda>v. bind_res (copy_bytes (pv_len v) (pv_val v)) (\<lambda>bs.
             Inr \<lparr>pv_len = pv_len v, pv_val = bs\<rparr>))) = Inr (first_value r)"
      using Some by (simp add: first_value_def)
    with s show ?thesis
      by (simp add: paxos_accepted_to_promise_def promise_of_def promised_def)
  qed
qed

lemma own_record_search:
  assumes "accepted_ok r" "own_record aid r"
  shows "aids_search (ac_aids r) [0..<unat (ac_n_aids r)] (u32_of_int aid) = Inr True"
proof -
  have "0 < unat (ac_n_aids r)" using assms(1) by (simp add: accepted_ok_def unat_u32_pos)
  then have "[0..<unat (ac_n_aids r)] = 0 # [Suc 0..<unat (ac_n_aids r)]" by (simp add: upt_rec)
  moreover obtain as where "ac_aids r = Some (u32_of_int aid # as)"
    using accepted_ok_shape[OF assms(1)] assms(2) by (metis own_record_def list.sel(1) option.sel)
  ultimately show ?thesis by simp
qed

lemma prepared_record_props:
  shows "accepted_ok (prepared_record isrc aid req r)"
    and "ac_value_0 r = value_zero \<Longrightarrow> record_norm (prepared_record isrc aid req r)"
    and "promised (prepared_record isrc aid req r) = pp_ballot req"
    and "own_record aid (prepared_record isrc aid req r)"
    and "ac_iid (prepared_record isrc aid req r) = pp_iid req"
    and "ac_values (prepared_record isrc aid req r) = None"
  by (simp_all add: prepared_record_def accepted_ok_def record_norm_def arr_len_def promised_def own_record_def)

section \<open>The state an acceptor reaches\<close>

text \<open>A storage on which no operation reports an error, as the memory backend.\<close>

definition never_fails :: "'h storage_api \<Rightarrow> bool" where
  "never_fails api \<longleftrightarrow> (\<forall>h. snd (sa_tx_begin api h) = 0) \<and> (\<forall>h. snd (sa_tx_commit api h) = 0) \<and>
     (\<forall>h a h' rc. sa_put api h a = Inr (h', rc) \<longrightarrow> rc = 0)"

text \<open>The record a prepare leaves, and the record an accept writes.\<close>

definition prepare_result :: "int \<Rightarrow> int \<Rightarrow> paxos_prepare \<Rightarrow> paxos_accepted option \<Rightarrow> paxos_accepted" where
  "prepare_result isrc aid req old = (case old of
      None \<Rightarrow> prepared_record isrc aid req accepted_zero
    | Some r \<Rightarrow> if promised r \<le> pp_ballot req then prepared_record isrc aid req r else r)"

definition accepted_record :: "int \<Rightarrow> paxos_accept \<Rightarrow> paxos_accepted" where
  "accepted_record aid req =
     \<lparr>ac_src = pa_src req, ac_iid = pa_iid req, ac_ballot_0 = pa_ballot req,
      ac_value_ballot_0 = pa_ballot req, ac_n_aids = 1, ac_aids = Some [u32_of_int aid],
      ac_value_0 = value_zero, ac_values = Some [\<lparr>pv_len = pv_len (pa_value req),
        pv_val = Some (take (nat (pv_len (pa_value req))) (case pv_val (pa_value req) of None \<Rightarrow> [] | Some bs \<Rightarrow> bs))\<rparr>],
      ac_ballots = Some [pa_ballot req], ac_value_ballots = Some [pa_ballot req]\<rparr>"

lemma accept_to_accepted_ok:
  "value_ok (pa_value req) \<Longrightarrow> paxos_accept_to_accepted aid req = Inr (accepted_record aid req)"
  by (auto simp: value_ok_cases paxos_accept_to_accepted_def accepted_record_def copy_bytes_def acopy_def
      nat_le_iff split: option.splits)

lemma accepted_record_props:
  assumes "value_ok (pa_value req)"
  shows "accepted_ok (accepted_record aid req)" and "own_record aid (record_clip (accepted_record aid req))"
    and "promised (record_clip (accepted_record aid req)) = pa_ballot req"
    and "ac_iid (accepted_record aid req) = pa_iid req"
  using assms by (auto simp: value_ok_cases accepted_record_def accepted_ok_def arr_len_def own_record_def
      promised_def record_clip_def)

text \<open>A storage with the records \<open>R\<close>.\<close>

definition storage_holds ::
  "'h storage_api \<Rightarrow> ('h \<Rightarrow> bool) \<Rightarrow> ('h \<Rightarrow> iid_t \<Rightarrow> paxos_accepted option) \<Rightarrow> 'h storage \<Rightarrow>
     (iid_t \<Rightarrow> paxos_accepted option) \<Rightarrow> bool" where
  "storage_holds api ok recs st R \<longleftrightarrow> st_api st = api \<and> ok (st_handle st) \<and> recs (st_handle st) = R"

lemma never_failsD:
  assumes "never_fails api"
  shows "sa_tx_begin api h = (h', rc) \<Longrightarrow> rc = 0" "sa_tx_commit api h = (h', rc) \<Longrightarrow> rc = 0"
    "sa_put api h a = Inr (h', rc) \<Longrightarrow> rc = 0"
  using assms unfolding never_fails_def by (metis snd_conv)+

definition accept_result ::
  "int \<Rightarrow> paxos_accept \<Rightarrow> paxos_accepted option \<Rightarrow> paxos_accepted \<times> paxos_message" where
  "accept_result aid req old =
     (let acc = (record_clip (accepted_record aid req), PAXOS_ACCEPTED (accepted_record aid req)) in
      case old of
        None \<Rightarrow> acc
      | Some r \<Rightarrow> if promised r \<le> pa_ballot req then acc
                  else (r, PAXOS_PREEMPTED \<lparr>pe_aid = u32_of_int aid, pe_iid = pa_iid req, pe_ballot = promised r\<rparr>))"

definition repeat_result :: "paxos_accepted option \<Rightarrow> paxos_accepted option" where
  "repeat_result old = (case old of
      None \<Rightarrow> None
    | Some r \<Rightarrow> (case ac_values r of None \<Rightarrow> None
                  | Some vs \<Rightarrow> if 0 < pv_len (hd vs) then Some r else None))"

lemma accepted_to_preempted_ok:
  "accepted_ok r \<Longrightarrow> paxos_accepted_to_preempted aid r =
     Inr \<lparr>pe_aid = u32_of_int aid, pe_iid = ac_iid r, pe_ballot = promised r\<rparr>"
  by (simp add: paxos_accepted_to_preempted_def aread_ballot)

lemma destroy_zero [simp]: "paxos_accepted_destroy accepted_zero = Inr accepted_zero"
  by (simp add: paxos_accepted_destroy_def accepted_zero_def values_destroy_def)

section \<open>The handlers over any storage\<close>

context record_store
begin

lemma begin_holds:
  assumes "storage_holds api ok recs st R"
  obtains st' rc where "storage_tx_begin st = (st', rc)" "storage_holds api ok recs st' R"
    "never_fails api \<longrightarrow> rc = 0"
proof -
  obtain h rc where h: "sa_tx_begin api (st_handle st) = (h, rc)" by fastforce
  then show ?thesis
    using that[of "st\<lparr>st_handle := h\<rparr>" rc] assms tx_begin[OF _ h] never_failsD(1)[OF _ h]
    by (auto simp: storage_holds_def storage_tx_begin_def)
qed

lemma commit_holds:
  assumes "storage_holds api ok recs st R"
  obtains st' rc where "storage_tx_commit st = (st', rc)" "storage_holds api ok recs st' R"
    "never_fails api \<longrightarrow> rc = 0"
proof -
  obtain h rc where h: "sa_tx_commit api (st_handle st) = (h, rc)" by fastforce
  then show ?thesis
    using that[of "st\<lparr>st_handle := h\<rparr>" rc] assms tx_commit[OF _ h] never_failsD(2)[OF _ h]
    by (auto simp: storage_holds_def storage_tx_commit_def)
qed

lemma get_holds:
  assumes "storage_holds api ok recs st R"
  shows "storage_get_record st iid out = Inr (case R iid of None \<Rightarrow> (0, out) | Some rec \<Rightarrow> (1, rec))"
  using assms get[of "st_handle st" iid out] by (auto simp: storage_holds_def storage_get_record_def)

lemma put_holds:
  assumes "storage_holds api ok recs st R" "accepted_ok acc"
  obtains st' rc where "storage_put_record st acc = Inr (st', rc)"
    "rc = 0 \<longrightarrow> storage_holds api ok recs st' (R(ac_iid acc \<mapsto> record_clip acc))"
    "rc \<noteq> 0 \<longrightarrow> storage_holds api ok recs st' R \<and> storage_holds api ok recs (storage_tx_abort st') R"
    "never_fails api \<longrightarrow> rc = 0"
proof -
  have st: "st_api st = api" "ok (st_handle st)" "recs (st_handle st) = R"
    using assms(1) by (simp_all add: storage_holds_def)
  obtain h rc where h: "sa_put api (st_handle st) acc = Inr (h, rc)" "ok h"
    "recs h = (if rc = 0 then R(ac_iid acc \<mapsto> record_clip acc) else R)"
    using put[OF st(2) assms(2)] st(3) by metis
  show ?thesis
    using that[of "st\<lparr>st_handle := h\<rparr>" rc] st h abort[OF st(2) assms(2) h(1)] never_failsD(3)[OF _ h(1)]
    by (auto simp: storage_holds_def storage_put_record_def storage_tx_abort_def)
qed

lemma held_record:
  assumes "storage_holds api ok recs st R" "R i = Some r"
  shows "record_norm r" "accepted_ok r" "ac_iid r = i" "ac_value_0 r = value_zero"
  using assms records[of "st_handle st" i r] by (auto simp: storage_holds_def record_norm_def)

lemma prepare_finish_ok:
  assumes "storage_holds api ok recs st R" "accepted_ok acc"
  shows "\<exists>st' out. prepare_finish a st acc = Inr (a\<lparr>ar_store := st'\<rparr>, out) \<and>
    storage_holds api ok recs st' R \<and>
    (out = None \<or> out = Some (PAXOS_PROMISE (promise_of acc))) \<and> (never_fails api \<longrightarrow> out \<noteq> None)"
proof -
  obtain st' rc where c: "storage_tx_commit st = (st', rc)" "storage_holds api ok recs st' R"
    "never_fails api \<longrightarrow> rc = 0" using commit_holds[OF assms(1)] .
  show ?thesis
    by (rule exI[of _ st'], cases "rc = 0")
      (use c in \<open>auto simp: prepare_finish_def accepted_to_promise_ok[OF assms(2)]\<close>)
qed

text \<open>
  What a prepare does: the new records are the old ones with the result of the prepare at its
  instance, unless the storage failed, and the answer is the promise for that result.
\<close>

lemma prepare_spec:
  assumes st: "storage_holds api ok recs (ar_store a) R"
    and own: "\<forall>i r. R i = Some r \<longrightarrow> own_record (ar_id a) r"
    and new_def: "new = prepare_result isrc (ar_id a) req (R (pp_iid req))"
  shows "\<exists>st' R' out. acceptor_receive_prepare isrc a req = Inr (a\<lparr>ar_store := st'\<rparr>, out) \<and>
    storage_holds api ok recs st' R' \<and> (R' = R \<or> R' = R(pp_iid req \<mapsto> new)) \<and>
    (out = None \<or> out = Some (PAXOS_PROMISE (promise_of new)) \<and> R' = R(pp_iid req \<mapsto> new)) \<and>
    (pp_iid req \<le> ar_trim_iid a \<longrightarrow> out = None \<and> R' = R) \<and>
    (never_fails api \<longrightarrow> ar_trim_iid a < pp_iid req \<longrightarrow> out \<noteq> None)"
proof (cases "pp_iid req \<le> ar_trim_iid a")
  case True
  then show ?thesis using st by (auto simp: acceptor_receive_prepare_def intro!: exI[of _ "ar_store a"])
next
  case False
  obtain s1 rc where b: "storage_tx_begin (ar_store a) = (s1, rc)" "storage_holds api ok recs s1 R"
    "never_fails api \<longrightarrow> rc = 0" using begin_holds[OF st] .
  have g: "storage_get_record s1 (pp_iid req) accepted_zero =
      Inr (case R (pp_iid req) of None \<Rightarrow> (0, accepted_zero) | Some r \<Rightarrow> (1, r))"
    by (rule get_holds[OF b(2)])
  show ?thesis
  proof (cases "rc = 0")
    case failed: False
    then show ?thesis using False b by (auto simp: acceptor_receive_prepare_def intro!: exI[of _ s1])
  next
    case ok0: True
    show ?thesis
    proof (cases "\<exists>r. R (pp_iid req) = Some r \<and> pp_ballot req < promised r")
      case True
      then obtain r where r: "R (pp_iid req) = Some r" "pp_ballot req < promised r" by blast
      note rok = held_record[OF b(2) r(1)]
      have new: "new = r" using r by (simp add: new_def prepare_result_def)
      have "\<not> promised r \<le> pp_ballot req" using r(2) by simp
      then have "acceptor_receive_prepare isrc a req = prepare_finish a s1 r"
        using False b(1) ok0 g r(1) ballot_allowed_ok[OF rok(2)] own_record_search[OF rok(2)] own
        by (simp add: acceptor_receive_prepare_def)
      moreover have "R(pp_iid req \<mapsto> r) = R" using r(1) by auto
      ultimately show ?thesis
        using prepare_finish_ok[OF b(2) rok(2), of a] False new by auto
    next
      case fresh: False
      define acc where "acc = (case R (pp_iid req) of None \<Rightarrow> accepted_zero | Some r \<Rightarrow> r)"
      have al: "ballot_allowed (case R (pp_iid req) of None \<Rightarrow> 0 | Some r \<Rightarrow> 1) acc (pp_ballot req) = Inr True"
        using fresh held_record[OF b(2)] by (auto simp: acc_def ballot_allowed_ok split: option.splits)
      have v0: "ac_value_0 acc = value_zero"
        using held_record[OF b(2)] by (auto simp: acc_def accepted_zero_def split: option.splits)
      have new: "new = prepared_record isrc (ar_id a) req acc"
        using fresh by (auto simp: new_def prepare_result_def acc_def split: option.splits)
      have nn: "accepted_ok new" "record_clip new = new" "ac_iid new = pp_iid req"
        using prepared_record_props[where r = acc] v0 by (simp_all add: new record_norm_clip)
      obtain s2 rc2 where p: "storage_put_record s1 new = Inr (s2, rc2)"
        "rc2 = 0 \<longrightarrow> storage_holds api ok recs s2 (R(pp_iid req \<mapsto> new))"
        "rc2 \<noteq> 0 \<longrightarrow> storage_holds api ok recs (storage_tx_abort s2) R" "never_fails api \<longrightarrow> rc2 = 0"
        using put_holds[OF b(2) nn(1)] nn(2,3) by metis
      have eq: "acceptor_receive_prepare isrc a req =
          (if rc2 \<noteq> 0 then Inr (a\<lparr>ar_store := storage_tx_abort s2\<rparr>, None) else prepare_finish a s2 new)"
        using False b(1) ok0 g al p(1) unfolding new acc_def
        by (auto simp: acceptor_receive_prepare_def split: option.splits)
      show ?thesis
      proof (cases "rc2 = 0")
        case True
        with prepare_finish_ok[of s2 "R(pp_iid req \<mapsto> new)" new a] p(2) nn(1) eq False show ?thesis by auto
      next
        case False
        with eq p(3,4) \<open>\<not> pp_iid req \<le> ar_trim_iid a\<close> show ?thesis
          by (auto intro!: exI[of _ "storage_tx_abort s2"])
      qed
    qed
  qed
qed

lemma accept_spec:
  assumes st: "storage_holds api ok recs (ar_store a) R" and v: "value_ok (pa_value req)"
    and res: "accept_result (ar_id a) req (R (pa_iid req)) = (new, msg)"
  shows "\<exists>st' R' out. acceptor_receive_accept a req = Inr (a\<lparr>ar_store := st'\<rparr>, out) \<and>
    storage_holds api ok recs st' R' \<and> (R' = R \<or> R' = R(pa_iid req \<mapsto> new)) \<and>
    (out = None \<or> out = Some msg \<and> R' = R(pa_iid req \<mapsto> new)) \<and>
    (pa_iid req \<le> ar_trim_iid a \<longrightarrow> out = None \<and> R' = R) \<and>
    (never_fails api \<longrightarrow> ar_trim_iid a < pa_iid req \<longrightarrow> out \<noteq> None)"
proof (cases "pa_iid req \<le> ar_trim_iid a")
  case True
  then show ?thesis using st by (auto simp: acceptor_receive_accept_def intro!: exI[of _ "ar_store a"])
next
  case False
  obtain s1 rc where b: "storage_tx_begin (ar_store a) = (s1, rc)" "storage_holds api ok recs s1 R"
    "never_fails api \<longrightarrow> rc = 0" using begin_holds[OF st] .
  define acc where "acc = (case R (pa_iid req) of None \<Rightarrow> accepted_zero | Some r \<Rightarrow> r)"
  have g: "storage_get_record s1 (pa_iid req) accepted_zero =
      Inr (case R (pa_iid req) of None \<Rightarrow> 0 | Some r \<Rightarrow> 1, acc)"
    using get_holds[OF b(2)] by (auto simp: acc_def split: option.splits)
  have d: "\<exists>x. paxos_accepted_destroy acc = Inr x"
    using held_record[OF b(2)] accepted_destroy_ok by (auto simp: acc_def split: option.splits)
  show ?thesis
  proof (cases "rc = 0")
    case failed: False
    then show ?thesis using False b by (auto simp: acceptor_receive_accept_def intro!: exI[of _ s1])
  next
    case ok0: True
    show ?thesis
    proof (cases "\<exists>r. R (pa_iid req) = Some r \<and> pa_ballot req < promised r")
      case True
      then obtain r where r: "R (pa_iid req) = Some r" "\<not> promised r \<le> pa_ballot req" by auto
      note rok = held_record[OF b(2) r(1)]
      obtain s2 rc2 where c: "storage_tx_commit s1 = (s2, rc2)" "storage_holds api ok recs s2 R"
        "never_fails api \<longrightarrow> rc2 = 0" using commit_holds[OF b(2)] .
      have nm: "new = r" "msg = PAXOS_PREEMPTED \<lparr>pe_aid = u32_of_int (ar_id a), pe_iid = pa_iid req, pe_ballot = promised r\<rparr>"
        using res r by (auto simp: accept_result_def Let_def)
      have "R(pa_iid req \<mapsto> r) = R" using r(1) by auto
      then show ?thesis
        using False b(1) ok0 g r rok ballot_allowed_ok[OF rok(2)] accepted_to_preempted_ok[OF rok(2)] c d nm
        by (intro exI[of _ s2] exI[of _ R] exI[of _ "if rc2 = 0 then Some msg else None"])
          (auto simp: acceptor_receive_accept_def acc_def)
    next
      case fresh: False
      have al: "ballot_allowed (case R (pa_iid req) of None \<Rightarrow> 0 | Some r \<Rightarrow> 1) acc (pa_ballot req) = Inr True"
        using fresh held_record[OF b(2)] by (auto simp: acc_def ballot_allowed_ok split: option.splits)
      let ?rec = "accepted_record (ar_id a) req"
      have nm: "new = record_clip ?rec" "msg = PAXOS_ACCEPTED ?rec"
        using res fresh by (auto simp: accept_result_def Let_def split: option.splits if_splits)
      note props = accepted_record_props[OF v, of "ar_id a"]
      obtain s2 rc2 where p: "storage_put_record s1 ?rec = Inr (s2, rc2)"
        "rc2 = 0 \<longrightarrow> storage_holds api ok recs s2 (R(pa_iid req \<mapsto> new))"
        "rc2 \<noteq> 0 \<longrightarrow> storage_holds api ok recs (storage_tx_abort s2) R" "never_fails api \<longrightarrow> rc2 = 0"
        using put_holds[OF b(2) props(1)] props(4) nm(1) by metis
      show ?thesis
      proof (cases "rc2 = 0")
        case True
        obtain s3 rc3 where c: "storage_tx_commit s2 = (s3, rc3)"
          "storage_holds api ok recs s3 (R(pa_iid req \<mapsto> new))" "never_fails api \<longrightarrow> rc3 = 0"
          using commit_holds[of s2 "R(pa_iid req \<mapsto> new)"] p(2) True by blast
        show ?thesis
          using False b(1) ok0 g al accept_to_accepted_ok[OF v] p(1) c d nm True
          by (intro exI[of _ s3] exI[of _ "R(pa_iid req \<mapsto> new)"] exI[of _ "if rc3 = 0 then Some msg else None"])
            (auto simp: acceptor_receive_accept_def)
      next
        case False
        with \<open>\<not> pa_iid req \<le> ar_trim_iid a\<close> b(1) ok0 g al accept_to_accepted_ok[OF v] p show ?thesis
          by (intro exI[of _ "storage_tx_abort s2"] exI[of _ R] exI[of _ None])
            (auto simp: acceptor_receive_accept_def)
      qed
    qed
  qed
qed

lemma repeat_spec:
  assumes st: "storage_holds api ok recs (ar_store a) R"
  shows "\<exists>st' out. acceptor_receive_repeat a iid = Inr (a\<lparr>ar_store := st'\<rparr>, out) \<and>
    storage_holds api ok recs st' R \<and> (out = None \<or> out = repeat_result (R iid)) \<and>
    (never_fails api \<longrightarrow> out = repeat_result (R iid))"
proof -
  obtain s1 rc where b: "storage_tx_begin (ar_store a) = (s1, rc)" "storage_holds api ok recs s1 R"
    "never_fails api \<longrightarrow> rc = 0" using begin_holds[OF st] .
  note g = get_holds[OF b(2), of iid accepted_zero]
  obtain s2 rc2 where c: "storage_tx_commit s1 = (s2, rc2)" "storage_holds api ok recs s2 R"
    "never_fails api \<longrightarrow> rc2 = 0" using commit_holds[OF b(2)] .
  have val: "aread (ac_values r) 0 = Inr (hd vs)" if "R iid = Some r" "ac_values r = Some vs" for r vs
    using first_value_copy(1) held_record(2)[OF b(2) that(1)] that(2) by blast
  show ?thesis
  proof (cases "rc = 0")
    case False
    then show ?thesis using b
      by (intro exI[of _ s1] exI[of _ None]) (auto simp: acceptor_receive_repeat_def)
  next
    case True
    then show ?thesis using b(1) g c val
      by (intro exI[of _ s2] exI[of _ "if rc2 = 0 then repeat_result (R iid) else None"])
        (auto simp: acceptor_receive_repeat_def repeat_result_def accepted_zero_def split: option.splits)
  qed
qed

lemma trim_spec:
  assumes st: "storage_holds api ok recs (ar_store a) R"
  shows "\<exists>st' R' rv. acceptor_receive_trim a t = Inr (a\<lparr>ar_trim_iid := max (ar_trim_iid a) (tr_iid t), ar_store := st'\<rparr>, rv) \<and>
    storage_holds api ok recs st' R' \<and>
    (R' = R \<or> R' = (\<lambda>i. if i \<le> tr_iid t then None else R i) \<and> ar_trim_iid a < tr_iid t) \<and>
    (rv \<longrightarrow> ar_trim_iid a < tr_iid t \<and> R' = (\<lambda>i. if i \<le> tr_iid t then None else R i)) \<and>
    (never_fails api \<longrightarrow> rv = (ar_trim_iid a < tr_iid t))"
proof (cases "tr_iid t \<le> ar_trim_iid a")
  case True
  then show ?thesis using st
    by (intro exI[of _ "ar_store a"] exI[of _ R] exI[of _ False]) (auto simp: acceptor_receive_trim_def max_absorb1)
next
  case False
  obtain s1 rc where b: "storage_tx_begin (ar_store a) = (s1, rc)" "storage_holds api ok recs s1 R"
    "never_fails api \<longrightarrow> rc = 0" using begin_holds[OF st] .
  let ?R = "\<lambda>i. if i \<le> tr_iid t then None else R i"
  have s1: "st_api s1 = api" "ok (st_handle s1)" "recs (st_handle s1) = R"
    using b(2) by (simp_all add: storage_holds_def)
  obtain h rc2 where h: "sa_trim api (st_handle s1) (tr_iid t) = Inr (h, rc2)" "ok h" "recs h = ?R"
    using trim[OF s1(2), of "tr_iid t"] s1(3) by auto
  have s2: "storage_holds api ok recs (s1\<lparr>st_handle := h\<rparr>) ?R" using s1 h by (simp add: storage_holds_def)
  obtain s3 rc3 where c: "storage_tx_commit (s1\<lparr>st_handle := h\<rparr>) = (s3, rc3)"
    "storage_holds api ok recs s3 ?R" "never_fails api \<longrightarrow> rc3 = 0" using commit_holds[OF s2] .
  show ?thesis
  proof (cases "rc = 0")
    case True
    then show ?thesis using False b(1) s1 h c
      by (intro exI[of _ s3] exI[of _ ?R] exI[of _ "rc3 = 0"])
        (auto simp: acceptor_receive_trim_def storage_trim_def max_absorb2)
  next
    case failed: False
    then show ?thesis using False b
      by (intro exI[of _ s1] exI[of _ R] exI[of _ False])
        (auto simp: acceptor_receive_trim_def max_absorb2)
  qed
qed

end

section \<open>Merging the answers of subordinates\<close>

definition merge_entry :: "u32 \<times> u32 \<times> u32 \<Rightarrow> paxos_accepted \<Rightarrow> paxos_accepted" where
  "merge_entry e acc = (case e of (x, b, vb) \<Rightarrow>
     if x \<in> set (the (ac_aids acc)) then acc
     else acc\<lparr>ac_n_aids := ac_n_aids acc + 1, ac_aids := Some (the (ac_aids acc) @ [x]),
              ac_ballots := Some (the (ac_ballots acc) @ [b]),
              ac_value_ballots := Some (the (ac_value_ballots acc) @ [vb])\<rparr>)"

lemma aids_search_list:
  "\<forall>i \<in> set is. i < length xs \<Longrightarrow> aids_search (Some xs) is x = Inr (\<exists>i \<in> set is. xs ! i = x)"
  by (induction "is") auto

lemma aids_search_ok:
  assumes "arr_len aids n"
  shows "aids_search aids [0..<unat n] x = Inr (x \<in> set (the aids))"
proof -
  obtain xs where xs: "aids = Some xs" "length xs = unat n" using assms by (auto simp: arr_len_iff)
  have "(\<exists>i \<in> set [0..<unat n]. xs ! i = x) \<longleftrightarrow> x \<in> set xs" using xs(2) by (auto simp: in_set_conv_nth)
  with aids_search_list[of "[0..<unat n]" xs x] xs show ?thesis by simp
qed

lemma append_ok:
  assumes ok: "accepted_ok acc" and room: "unat (ac_n_aids acc) + 1 < 2 ^ 32"
    and new: "x \<notin> set (the (ac_aids acc))"
  shows "accepted_append acc x b vb = Inr (merge_entry (x, b, vb) acc)"
    and "ac_values acc = None \<Longrightarrow> accepted_ok (merge_entry (x, b, vb) acc)"
proof -
  obtain as bs vs where a: "ac_aids acc = Some as" "ac_ballots acc = Some bs" "ac_value_ballots acc = Some vs"
    "length as = unat (ac_n_aids acc)" "length bs = unat (ac_n_aids acc)" "length vs = unat (ac_n_aids acc)"
    using ok by (auto simp: accepted_ok_def arr_len_iff)
  have n: "ac_n_aids acc + 1 \<noteq> 0" using u32_Suc[OF room] by (metis add_eq_0_iff_both_eq_0 unsigned_0 zero_neq_one)
  have "acopy (Some as) (unat (ac_n_aids acc)) = Inr as" "acopy (Some bs) (unat (ac_n_aids acc)) = Inr bs"
    "acopy (Some vs) (unat (ac_n_aids acc)) = Inr vs"
    using acopy_exact[of as] acopy_exact[of bs] acopy_exact[of vs] unfolding a(4-6) by blast+
  then show "accepted_append acc x b vb = Inr (merge_entry (x, b, vb) acc)"
    using a n new by (simp add: accepted_append_def Let_def merge_entry_def)
  show "accepted_ok (merge_entry (x, b, vb) acc)" if "ac_values acc = None"
    using a n new u32_Suc[OF room] that
    by (simp add: merge_entry_def accepted_ok_def arr_len_def word_gt_0)
qed

lemma merge_entry_keeps:
  "ac_iid (merge_entry e acc) = ac_iid acc" "ac_values (merge_entry e acc) = ac_values acc"
  "ac_value_0 (merge_entry e acc) = ac_value_0 acc" "ac_src (merge_entry e acc) = ac_src acc"
  by (auto simp: merge_entry_def split: prod.splits)

lemma fold_merge_keeps:
  "ac_iid (fold merge_entry es acc) = ac_iid acc" "ac_values (fold merge_entry es acc) = ac_values acc"
  "ac_value_0 (fold merge_entry es acc) = ac_value_0 acc" "ac_src (fold merge_entry es acc) = ac_src acc"
  by (induction es arbitrary: acc) (auto simp: merge_entry_keeps)

lemma merge_entry_heads:
  assumes "accepted_ok acc"
  shows "promised (merge_entry e acc) = promised acc" "own_record aid (merge_entry e acc) \<longleftrightarrow> own_record aid acc"
  using assms by (auto elim!: accepted_ok_shape simp: merge_entry_def promised_def own_record_def split: prod.splits)

lemma merge_entry_aids: "set (the (ac_aids (merge_entry (x, b, vb) acc))) = insert x (set (the (ac_aids acc)))"
  by (auto simp: merge_entry_def)

text \<open>The entries of a message, as the loop reads them.\<close>

definition msg_entries :: "u32 list \<Rightarrow> u32 list \<Rightarrow> u32 list \<Rightarrow> nat list \<Rightarrow> (u32 \<times> u32 \<times> u32) list" where
  "msg_entries as bs vs js = map (\<lambda>j. (as ! j, bs ! j, vs ! j)) js"

lemma msg_entries_simps [simp]:
  "msg_entries as bs vs [] = []"
  "msg_entries as bs vs (j # js) = (as ! j, bs ! j, vs ! j) # msg_entries as bs vs js"
  by (simp_all add: msg_entries_def)

lemma length_aids_merge:
  "length (the (ac_aids acc)) \<le> length (the (ac_aids (fold merge_entry es acc)))"
proof (induction es arbitrary: acc)
  case Nil
  then show ?case by simp
next
  case (Cons e es)
  have "length (the (ac_aids acc)) \<le> length (the (ac_aids (merge_entry e acc)))"
    by (auto simp: merge_entry_def split: prod.splits)
  with Cons[of "merge_entry e acc"] show ?case by simp
qed

context record_store
begin

lemma srcid_loop_ok:
  assumes "storage_holds api ok recs st R" "R (ac_iid acc) = Some acc" "ac_values acc = None"
    "unat (ac_n_aids acc) + length js < 2 ^ 32" "never_fails api"
    "\<forall>j \<in> set js. j < length as \<and> j < length bs \<and> j < length vs"
  defines "es \<equiv> msg_entries as bs vs js"
  shows "\<exists>st'. srcid_loop (Some as) (Some bs) (Some vs) js st acc cnt =
      Inr (st', fold merge_entry es acc,
           if fold merge_entry es acc = acc then cnt else int_of_u32 (ac_n_aids (fold merge_entry es acc))) \<and>
    storage_holds api ok recs st' (R(ac_iid acc \<mapsto> fold merge_entry es acc))"
  using assms(1-4,6) unfolding es_def
proof (induction js arbitrary: st R acc cnt)
  case Nil
  then have "R(ac_iid acc \<mapsto> acc) = R" by auto
  with Nil show ?case by simp
next
  case (Cons j js)
  note rok = held_record[OF Cons.prems(1,2)]
  let ?e = "(as ! j, bs ! j, vs ! j)" and ?acc = "merge_entry (as ! j, bs ! j, vs ! j) acc"
  have se: "aids_search (ac_aids acc) [0..<unat (ac_n_aids acc)] (as ! j) = Inr (as ! j \<in> set (the (ac_aids acc)))"
    using rok(2) by (intro aids_search_ok) (simp add: accepted_ok_def)
  show ?case
  proof (cases "as ! j \<in> set (the (ac_aids acc))")
    case True
    then have "?acc = acc" by (simp add: merge_entry_def)
    with True se Cons.IH[OF Cons.prems(1-3), of cnt] Cons.prems(4,5) show ?thesis by auto
  next
    case False
    have room: "unat (ac_n_aids acc) + 1 < 2 ^ 32" using Cons.prems(4) by simp
    note ap = append_ok[OF rok(2) room False, of "bs ! j" "vs ! j"]
    have aok: "accepted_ok ?acc" using ap(2) Cons.prems(3) by simp
    have clip: "record_clip ?acc = ?acc"
      using aok Cons.prems(3) rok(4) by (intro record_norm_clip) (simp add: record_norm_def merge_entry_keeps)
    obtain s1 where p: "storage_put_record st ?acc = Inr (s1, 0)"
      "storage_holds api ok recs s1 (R(ac_iid acc \<mapsto> ?acc))"
      using put_holds[OF Cons.prems(1) aok] assms(5) clip merge_entry_keeps(1) by metis
    have n: "unat (ac_n_aids ?acc) = unat (ac_n_aids acc) + 1"
      using False u32_Suc[OF room] by (simp add: merge_entry_def)
    let ?f = "fold merge_entry (msg_entries as bs vs js) ?acc"
    have h1: "storage_holds api ok recs s1 (R(ac_iid ?acc \<mapsto> ?acc))"
      using p(2) by (simp only: merge_entry_keeps(1))
    have h2: "(R(ac_iid ?acc \<mapsto> ?acc)) (ac_iid ?acc) = Some ?acc" by simp
    have h3: "ac_values ?acc = None" using Cons.prems(3) by (simp only: merge_entry_keeps(2))
    have h4: "unat (ac_n_aids ?acc) + length js < 2 ^ 32" using n Cons.prems(4) by simp
    have h5: "\<forall>j \<in> set js. j < length as \<and> j < length bs \<and> j < length vs" using Cons.prems(5) by simp
    obtain s2 where IH: "srcid_loop (Some as) (Some bs) (Some vs) js s1 ?acc (int_of_u32 (ac_n_aids ?acc)) =
        Inr (s2, ?f, if ?f = ?acc then int_of_u32 (ac_n_aids ?acc) else int_of_u32 (ac_n_aids ?f))"
      "storage_holds api ok recs s2 (R(ac_iid acc \<mapsto> ?f))"
      using Cons.IH[OF h1 h2 h3 h4 h5, of "int_of_u32 (ac_n_aids ?acc)"]
      unfolding fun_upd_upd merge_entry_keeps(1) by blast
    have "length (the (ac_aids acc)) < length (the (ac_aids ?acc))" using False by (simp add: merge_entry_def)
    then have "?f \<noteq> acc" using length_aids_merge[of ?acc "msg_entries as bs vs js"] by auto
    moreover have "?f = ?acc \<Longrightarrow> int_of_u32 (ac_n_aids ?acc) = int_of_u32 (ac_n_aids ?f)" by simp
    ultimately have "srcid_loop (Some as) (Some bs) (Some vs) (j # js) st acc cnt =
        Inr (s2, ?f, if ?f = acc then cnt else int_of_u32 (ac_n_aids ?f))"
      using False se ap(1) p(1) IH(1) Cons.prems(5) by simp
    then show ?thesis using IH(2) unfolding msg_entries_simps fold_simps by blast
  qed
qed

lemma srcid_merge_spec:
  assumes st: "storage_holds api ok recs (ar_store a) R" and nf: "never_fails api"
    and len: "unat n \<le> length as" "unat n \<le> length bs" "unat n \<le> length vs"
    and r: "R iid = Some r" "ac_values r = None" "unat (ac_n_aids r) + unat n < 2 ^ 32"
  defines "f \<equiv> fold merge_entry (msg_entries as bs vs [0..<unat n]) r"
  shows "\<exists>st'. srcid_merge iid n (Some as) (Some bs) (Some vs) a =
      Inr (a\<lparr>ar_store := st'\<rparr>,
        if (if f = r then 0 else int_of_u32 (ac_n_aids f)) \<ge> ar_subordinates a sdiv 2
        then int_of_u32 (ac_src r) else -1) \<and>
    storage_holds api ok recs st' (R(iid \<mapsto> f))"
proof -
  obtain s1 where b: "storage_tx_begin (ar_store a) = (s1, 0)" "storage_holds api ok recs s1 R"
    using begin_holds[OF st] nf by metis
  have iid: "ac_iid r = iid" using held_record[OF b(2) r(1)] by simp
  have g: "storage_get_record s1 iid accepted_zero = Inr (1, r)"
    using get_holds[OF b(2)] r(1) by simp
  obtain s2 where l: "srcid_loop (Some as) (Some bs) (Some vs) [0..<unat n] s1 r 0 =
      Inr (s2, f, if f = r then 0 else int_of_u32 (ac_n_aids f))" "storage_holds api ok recs s2 (R(iid \<mapsto> f))"
    using srcid_loop_ok[OF b(2), of r "[0..<unat n]" as bs vs 0] r len nf iid unfolding f_def by auto
  obtain s3 where c: "storage_tx_commit s2 = (s3, 0)" "storage_holds api ok recs s3 (R(iid \<mapsto> f))"
    using commit_holds[OF l(2)] nf by metis
  have "srcid_merge iid n (Some as) (Some bs) (Some vs) a =
      Inr (a\<lparr>ar_store := s3\<rparr>,
        if (if f = r then 0 else int_of_u32 (ac_n_aids f)) \<ge> ar_subordinates a sdiv 2
        then int_of_u32 (ac_src r) else -1)"
    using b(1) g l(1) c(1) by (simp add: srcid_merge_def)
  with c(2) show ?thesis by blast
qed

lemma srcid_merge_absent:
  assumes st: "storage_holds api ok recs (ar_store a) R" and r: "R iid = None"
  shows "\<exists>st'. srcid_merge iid n aids bals vbals a = Inr (a\<lparr>ar_store := st'\<rparr>, -1) \<and>
    storage_holds api ok recs st' R"
proof -
  obtain s1 rc where b: "storage_tx_begin (ar_store a) = (s1, rc)" "storage_holds api ok recs s1 R"
    using begin_holds[OF st] by metis
  have g: "storage_get_record s1 iid accepted_zero = Inr (0, accepted_zero)"
    using get_holds[OF b(2)] r by simp
  obtain s2 rc2 where c: "storage_tx_commit s1 = (s2, rc2)" "storage_holds api ok recs s2 R"
    using commit_holds[OF b(2)] by metis
  show ?thesis using b g c by (cases "rc = 0") (auto simp: srcid_merge_def)
qed

lemma srcid_preempted_spec:
  assumes st: "storage_holds api ok recs (ar_store a) R" and nf: "never_fails api"
  shows "\<exists>st'. get_srcid_preempted p a = Inr (a\<lparr>ar_store := st'\<rparr>,
      case R (pe_iid p) of None \<Rightarrow> -1 | Some r \<Rightarrow> int_of_u32 (ac_src r)) \<and>
    storage_holds api ok recs st' R"
proof -
  obtain s1 where b: "storage_tx_begin (ar_store a) = (s1, 0)" "storage_holds api ok recs s1 R"
    using begin_holds[OF st] nf by metis
  obtain s2 where c: "storage_tx_commit s1 = (s2, 0)" "storage_holds api ok recs s2 R"
    using commit_holds[OF b(2)] nf by metis
  show ?thesis using b c get_holds[OF b(2), of "pe_iid p" accepted_zero]
    by (auto simp: get_srcid_preempted_def split: option.splits)
qed

end

section \<open>The abstract acceptor\<close>

text \<open>
  The acceptor as a map from instances to records and a trim bound, with no storage, no arrays and
  no transactions.
\<close>

datatype acceptor_event = RecvPrepare int paxos_prepare | RecvAccept paxos_accept | RecvRepeat iid_t | RecvTrim paxos_trim

type_synonym abs_acceptor = "iid_t \<times> (iid_t \<Rightarrow> paxos_accepted option)"

fun abs_step :: "int \<Rightarrow> acceptor_event \<Rightarrow> abs_acceptor \<Rightarrow> abs_acceptor \<times> paxos_message option" where
  "abs_step aid (RecvPrepare isrc req) (t, R) =
     (if pp_iid req \<le> t then ((t, R), None)
      else let r = prepare_result isrc aid req (R (pp_iid req)) in
           ((t, R(pp_iid req \<mapsto> r)), Some (PAXOS_PROMISE (promise_of r))))"
| "abs_step aid (RecvAccept req) (t, R) =
     (if pa_iid req \<le> t then ((t, R), None)
      else case accept_result aid req (R (pa_iid req)) of (r, m) \<Rightarrow> ((t, R(pa_iid req \<mapsto> r)), Some m))"
| "abs_step aid (RecvRepeat iid) (t, R) = ((t, R), map_option PAXOS_ACCEPTED (repeat_result (R iid)))"
| "abs_step aid (RecvTrim tr) (t, R) =
     ((max t (tr_iid tr), if t < tr_iid tr then (\<lambda>i. if i \<le> tr_iid tr then None else R i) else R), None)"

fun acceptor_step :: "acceptor_event \<Rightarrow> 'h acceptor \<Rightarrow> ('h acceptor \<times> paxos_message option) res" where
  "acceptor_step (RecvPrepare isrc req) a = acceptor_receive_prepare isrc a req"
| "acceptor_step (RecvAccept req) a = acceptor_receive_accept a req"
| "acceptor_step (RecvRepeat iid) a =
     bind_res (acceptor_receive_repeat a iid) (\<lambda>(a, out). Inr (a, map_option PAXOS_ACCEPTED out))"
| "acceptor_step (RecvTrim tr) a = bind_res (acceptor_receive_trim a tr) (\<lambda>(a, _). Inr (a, None))"

fun event_ok :: "acceptor_event \<Rightarrow> bool" where
  "event_ok (RecvAccept req) = value_ok (pa_value req)"
| "event_ok e = True"

definition acceptor_rel ::
  "'h storage_api \<Rightarrow> ('h \<Rightarrow> bool) \<Rightarrow> ('h \<Rightarrow> iid_t \<Rightarrow> paxos_accepted option) \<Rightarrow> int \<Rightarrow> abs_acceptor \<Rightarrow>
     'h acceptor \<Rightarrow> bool" where
  "acceptor_rel api ok recs aid s a \<longleftrightarrow> ar_id a = aid \<and> ar_trim_iid a = fst s \<and>
     storage_holds api ok recs (ar_store a) (snd s) \<and> (\<forall>i r. snd s i = Some r \<longrightarrow> own_record aid r)"

lemma prepare_result_own:
  "(\<And>r. old = Some r \<Longrightarrow> own_record aid r) \<Longrightarrow> own_record aid (prepare_result isrc aid req old)"
  by (auto simp: prepare_result_def prepared_record_props split: option.splits)

lemma accept_result_own:
  assumes "\<And>r. old = Some r \<Longrightarrow> own_record aid r" "accept_result aid req old = (new, m)" "value_ok (pa_value req)"
  shows "own_record aid new"
  using assms by (auto simp: accept_result_def Let_def accepted_record_props split: option.splits if_splits)

context record_store
begin

lemma step_refines:
  assumes rel: "acceptor_rel api ok recs aid s a" and ev: "event_ok e" and nf: "never_fails api"
  shows "\<exists>a'. acceptor_step e a = Inr (a', snd (abs_step aid e s)) \<and>
    acceptor_rel api ok recs aid (fst (abs_step aid e s)) a'"
proof -
  obtain t R where s: "s = (t, R)" by (cases s)
  have st: "storage_holds api ok recs (ar_store a) R" and own: "\<forall>i r. R i = Some r \<longrightarrow> own_record (ar_id a) r"
    and a: "ar_id a = aid" "ar_trim_iid a = t"
    using rel by (auto simp: acceptor_rel_def s)
  show ?thesis
  proof (cases e)
    case (RecvPrepare isrc req)
    let ?new = "prepare_result isrc (ar_id a) req (R (pp_iid req))"
    have "own_record aid ?new" using own a by (auto intro!: prepare_result_own)
    moreover obtain st' R' out where p: "acceptor_receive_prepare isrc a req = Inr (a\<lparr>ar_store := st'\<rparr>, out)"
      "storage_holds api ok recs st' R'" "pp_iid req \<le> t \<longrightarrow> out = None \<and> R' = R"
      "t < pp_iid req \<longrightarrow> out = Some (PAXOS_PROMISE (promise_of ?new)) \<and> R' = R(pp_iid req \<mapsto> ?new)"
      using prepare_spec[where isrc = isrc and req = req, OF st own refl] nf a by auto
    ultimately show ?thesis using a RecvPrepare rel
      by (cases "pp_iid req \<le> t") (auto simp: acceptor_rel_def s Let_def not_le)
  next
    case (RecvAccept req)
    obtain new m where res: "accept_result (ar_id a) req (R (pa_iid req)) = (new, m)" by fastforce
    have v: "value_ok (pa_value req)" using ev RecvAccept by simp
    have "own_record aid new" using accept_result_own[OF _ res v] own a by auto
    moreover obtain st' R' out where p: "acceptor_receive_accept a req = Inr (a\<lparr>ar_store := st'\<rparr>, out)"
      "storage_holds api ok recs st' R'" "pa_iid req \<le> t \<longrightarrow> out = None \<and> R' = R"
      "t < pa_iid req \<longrightarrow> out = Some m \<and> R' = R(pa_iid req \<mapsto> new)"
      using accept_spec[OF st v res] nf a by auto
    ultimately show ?thesis using a RecvAccept rel res
      by (cases "pa_iid req \<le> t") (auto simp: acceptor_rel_def s not_le)
  next
    case (RecvRepeat iid)
    then show ?thesis using repeat_spec[OF st, of iid] nf a rel
      by (auto simp: acceptor_rel_def s)
  next
    case (RecvTrim tr)
    obtain st' R' rv where p: "acceptor_receive_trim a tr =
        Inr (a\<lparr>ar_trim_iid := max t (tr_iid tr), ar_store := st'\<rparr>, rv)" "storage_holds api ok recs st' R'"
      "R' = (if t < tr_iid tr then (\<lambda>i. if i \<le> tr_iid tr then None else R i) else R)"
      using trim_spec[OF st, of tr] nf a by auto
    then show ?thesis using RecvTrim a rel by (auto simp: acceptor_rel_def s split: if_splits)
  qed
qed

end

section \<open>The acceptor on the memory backend\<close>

fun acceptor_run :: "acceptor_event list \<Rightarrow> 'h acceptor \<Rightarrow> ('h acceptor \<times> paxos_message option list) res" where
  "acceptor_run [] a = Inr (a, [])"
| "acceptor_run (e # es) a = bind_res (acceptor_step e a) (\<lambda>(a, m).
     bind_res (acceptor_run es a) (\<lambda>(a, ms). Inr (a, m # ms)))"

fun abs_run :: "int \<Rightarrow> acceptor_event list \<Rightarrow> abs_acceptor \<Rightarrow> abs_acceptor \<times> paxos_message option list" where
  "abs_run aid [] s = (s, [])"
| "abs_run aid (e # es) s = (case abs_step aid e s of (s, m) \<Rightarrow> case abs_run aid es s of (s, ms) \<Rightarrow> (s, m # ms))"

definition acceptor_recs :: "mem_storage acceptor \<Rightarrow> iid_t \<Rightarrow> paxos_accepted option" where
  "acceptor_recs a = mem_recs (st_handle (ar_store a))"

definition mem_rel :: "int \<Rightarrow> abs_acceptor \<Rightarrow> mem_storage acceptor \<Rightarrow> bool" where
  "mem_rel = acceptor_rel mem_api mem_ok mem_recs"

lemma kh_put_ret: "kh_put h k v = Inr (h', rv) \<Longrightarrow> rv \<noteq> -1"
  unfolding kh_put_def bind_res_Inr_iff by (elim exE conjE) (case_tac "buckets x ! xa"; force)

lemma mem_put_ret: "mem_storage_put s a = Inr (s', rc) \<Longrightarrow> rc = 0"
  by (auto simp: mem_storage_put_def res_iffs dest: kh_put_ret split: if_splits)

lemma mem_never_fails: "never_fails mem_api"
  unfolding never_fails_def
  by (auto simp: mem_api_def mem_storage_tx_begin_def mem_storage_tx_commit_def mem_put_ret)

lemma mem_relD:
  assumes "mem_rel aid s a"
  shows "ar_id a = aid" "ar_trim_iid a = fst s" "acceptor_recs a = snd s"
    "storage_holds mem_api mem_ok mem_recs (ar_store a) (snd s)"
  using assms by (auto simp: mem_rel_def acceptor_rel_def storage_holds_def acceptor_recs_def)

lemma acceptor_new_mem:
  assumes "storage_backend cfg = PAXOS_MEM_STORAGE"
  shows "\<exists>a. acceptor_new cfg junk aid = Some a \<and> mem_rel aid (0, Map.empty) a"
  using assms mem_storage_new_ok
  by (auto simp: acceptor_new_def storage_init_def storage_init_mem_def acceptor_open_def storage_open_def
      storage_tx_begin_def storage_tx_commit_def storage_get_trim_instance_def mem_api_sel
      mem_storage_open_def mem_rel_def acceptor_rel_def storage_holds_def mem_storage_new_def)

lemma mem_step:
  "mem_rel aid s a \<Longrightarrow> event_ok e \<Longrightarrow>
   \<exists>a'. acceptor_step e a = Inr (a', snd (abs_step aid e s)) \<and> mem_rel aid (fst (abs_step aid e s)) a'"
  unfolding mem_rel_def using ms.step_refines mem_never_fails by blast

lemma mem_run:
  assumes "mem_rel aid s a" "\<forall>e \<in> set es. event_ok e"
  shows "\<exists>a'. acceptor_run es a = Inr (a', snd (abs_run aid es s)) \<and> mem_rel aid (fst (abs_run aid es s)) a'"
  using assms
proof (induction es arbitrary: s a)
  case Nil
  then show ?case by simp
next
  case (Cons e es)
  obtain b where b: "acceptor_step e a = Inr (b, snd (abs_step aid e s))" "mem_rel aid (fst (abs_step aid e s)) b"
    using mem_step[OF Cons.prems(1), of e] Cons.prems(2) by auto
  with Cons.IH[OF b(2)] Cons.prems(2) show ?case by (auto split: prod.splits)
qed

lemma abs_step_mono:
  assumes "abs_step aid e (t, R) = ((t', R'), m)" "R i = Some r" "t' < i"
  shows "\<exists>r'. R' i = Some r' \<and> promised r \<le> promised r'"
proof (cases e)
  case (RecvPrepare isrc req)
  then show ?thesis using assms
    by (auto simp: Let_def prepare_result_def prepared_record_props split: if_splits)
next
  case (RecvAccept req)
  have "promised (record_clip (accepted_record aid req)) = pa_ballot req"
    by (simp add: promised_def record_clip_def accepted_record_def)
  then show ?thesis using assms RecvAccept
    by (auto simp: accept_result_def Let_def split: if_splits option.splits)
qed (use assms in \<open>auto split: if_splits\<close>)

lemma abs_step_trim_mono: "abs_step aid e (t, R) = ((t', R'), m) \<Longrightarrow> t \<le> t'"
  by (cases e) (auto simp: Let_def split: if_splits prod.splits)

section \<open>Everything that moves an acceptor\<close>

text \<open>
  The moves of an acceptor in the replica: a message of the protocol, the answer of a subordinate
  that is merged into a record, and a change of the number of subordinates.
\<close>

inductive acceptor_move :: "mem_storage acceptor \<Rightarrow> mem_storage acceptor \<Rightarrow> bool" where
  move_msg: "event_ok e \<Longrightarrow> acceptor_step e a = Inr (a', m) \<Longrightarrow> acceptor_move a a'"
| move_promise: "get_srcid_promise_and_adjust pr a = Inr (a', rv) \<Longrightarrow> acceptor_move a a'"
| move_accepted: "get_srcid_accepted ac a = Inr (a', rv) \<Longrightarrow> acceptor_move a a'"
| move_preempted: "get_srcid_preempted pe a = Inr (a', rv) \<Longrightarrow> acceptor_move a a'"
| move_subs: "acceptor_move a (setsubordinates a n)"

inductive_cases acceptor_moveE: "acceptor_move a a'"

definition mem_inv :: "mem_storage acceptor \<Rightarrow> bool" where
  "mem_inv a \<longleftrightarrow> mem_rel (ar_id a) (ar_trim_iid a, acceptor_recs a) a"

lemma mem_rel_inv: "mem_rel aid s a \<Longrightarrow> mem_inv a"
  using mem_relD[of aid s a] by (simp add: mem_inv_def)

lemma mem_invD:
  assumes "mem_inv a"
  shows "storage_holds mem_api mem_ok mem_recs (ar_store a) (acceptor_recs a)"
    and "acceptor_recs a i = Some r \<Longrightarrow> own_record (ar_id a) r"
    and "acceptor_recs a i = Some r \<Longrightarrow> accepted_ok r"
  using assms ms.held_record(2)[of "ar_store a" "acceptor_recs a" i r]
  by (auto simp: mem_inv_def mem_rel_def acceptor_rel_def)

lemma mem_invI:
  assumes "storage_holds mem_api mem_ok mem_recs (ar_store a) R" "\<And>i r. R i = Some r \<Longrightarrow> own_record (ar_id a) r"
  shows "mem_inv a" "acceptor_recs a = R"
  using assms by (auto simp: mem_inv_def mem_rel_def acceptor_rel_def storage_holds_def acceptor_recs_def)

text \<open>Storing a record that names more acceptors than it has values reads past the values.\<close>

lemma mem_put_overread:
  assumes "storage_holds mem_api mem_ok mem_recs st R" "arr_len (ac_aids r) (ac_n_aids r)"
    "ac_values r = Some vs" "length vs < unat (ac_n_aids r)"
  shows "storage_put_record st r = Inl OutOfBounds"
proof -
  have "arr_copy (ac_values r) (unat (ac_n_aids r)) = Inl OutOfBounds"
    using assms(3,4) by (auto simp: arr_copy_def acopy_def)
  moreover have "0 < unat (ac_n_aids r)" using assms(4) by simp
  ultimately have "paxos_accepted_copy r = Inl OutOfBounds"
    using arr_copy_len[OF assms(2)] unfolding paxos_accepted_copy_def Let_def by simp
  then show ?thesis using assms(1)
    by (simp add: storage_put_record_def storage_holds_def mem_api_def mem_storage_put_def)
qed

lemma append_values_overread:
  assumes st: "storage_holds mem_api mem_ok mem_recs st R" and r: "accepted_ok r" "ac_values r = Some vs"
    and x: "x \<notin> set (the (ac_aids r))" and room: "unat (ac_n_aids r) + 1 < 2 ^ 32"
  shows "bind_res (accepted_append r x b vb) (storage_put_record st) = Inl OutOfBounds"
proof -
  let ?m = "merge_entry (x, b, vb) r"
  have "ac_n_aids ?m = ac_n_aids r + 1" "ac_aids ?m = Some (the (ac_aids r) @ [x])" using x by (simp_all add: merge_entry_def)
  moreover have "length (the (ac_aids r)) = unat (ac_n_aids r)" "length vs = unat (ac_n_aids r)"
    using r by (auto simp: accepted_ok_def arr_len_iff)
  ultimately have "storage_put_record st ?m = Inl OutOfBounds"
    using u32_Suc[OF room] r(2) by (intro mem_put_overread[OF st, where vs = vs]) (simp_all add: arr_len_def merge_entry_keeps)
  then show ?thesis using append_ok(1)[OF r(1) room x] by simp
qed

lemma append_room: "accepted_append r x b vb = Inr r' \<Longrightarrow> unat (ac_n_aids r) + 1 < 2 ^ 32"
  by (rule u32_inc_room) (auto simp: accepted_append_def Let_def split: if_splits)

lemma mem_srcid_loop_inv:
  assumes "storage_holds mem_api mem_ok mem_recs st R" "R (ac_iid acc) = Some acc"
    "srcid_loop aids bals vbals js st acc cnt = Inr (st', acc', cnt')"
  shows "storage_holds mem_api mem_ok mem_recs st' (R(ac_iid acc \<mapsto> acc')) \<and>
    promised acc' = promised acc \<and> (own_record aid acc' \<longleftrightarrow> own_record aid acc)"
  using assms
proof (induction js arbitrary: st R acc cnt)
  case Nil
  then have "R(ac_iid acc \<mapsto> acc) = R" by auto
  with Nil show ?case by simp
next
  case (Cons j js)
  note rok = ms.held_record[OF Cons.prems(1,2)]
  from Cons.prems(3) obtain x where x: "aread aids j = Inr x" by (auto simp: res_iffs)
  have se: "aids_search (ac_aids acc) [0..<unat (ac_n_aids acc)] x = Inr (x \<in> set (the (ac_aids acc)))"
    using rok(2) by (intro aids_search_ok) (simp add: accepted_ok_def)
  show ?case
  proof (cases "x \<in> set (the (ac_aids acc))")
    case True
    with Cons.prems(3) x se have "srcid_loop aids bals vbals js st acc cnt = Inr (st', acc', cnt')" by simp
    from Cons.IH[OF Cons.prems(1,2) this] show ?thesis .
  next
    case False
    with Cons.prems(3) x se obtain b vb acc1 s1 rc where
      ap: "accepted_append acc x b vb = Inr acc1" and put: "storage_put_record st acc1 = Inr (s1, rc)"
      and rest: "srcid_loop aids bals vbals js s1 acc1 (int_of_u32 (ac_n_aids acc1)) = Inr (st', acc', cnt')"
      by (auto simp: bind_res_Inr_iff)
    note room = append_room[OF ap]
    have acc1: "acc1 = merge_entry (x, b, vb) acc" using append_ok(1)[OF rok(2) room False] ap by simp
    have none: "ac_values acc = None"
      using append_values_overread[OF Cons.prems(1) rok(2) _ False room, of _ b vb] ap put by (cases "ac_values acc") auto
    have aok: "accepted_ok acc1" using append_ok(2)[OF rok(2) room False none] acc1 by simp
    have iid: "ac_iid acc1 = ac_iid acc" by (simp add: acc1 merge_entry_keeps)
    have "record_clip acc1 = acc1"
      using aok none rok(4) by (intro record_norm_clip) (simp add: record_norm_def merge_entry_keeps acc1)
    then have h: "storage_holds mem_api mem_ok mem_recs s1 (R(ac_iid acc1 \<mapsto> acc1))"
      using ms.put_holds[OF Cons.prems(1) aok] put mem_never_fails by (metis Inr_inject prod.inject)
    have "(R(ac_iid acc1 \<mapsto> acc1)) (ac_iid acc1) = Some acc1" by simp
    from Cons.IH[OF h this rest] show ?thesis
      unfolding fun_upd_upd iid using merge_entry_heads[OF rok(2)] acc1 by simp
  qed
qed

lemma mem_srcid_merge_inv:
  assumes inv: "mem_inv a" and run: "srcid_merge iid n aids bals vbals a = Inr (a', rv)"
  shows "mem_inv a' \<and> ar_id a' = ar_id a \<and> ar_trim_iid a' = ar_trim_iid a \<and>
    (\<forall>i r. acceptor_recs a i = Some r \<longrightarrow> (\<exists>r'. acceptor_recs a' i = Some r' \<and> promised r' = promised r))"
proof -
  let ?R = "acceptor_recs a"
  obtain s1 where b: "storage_tx_begin (ar_store a) = (s1, 0)" "storage_holds mem_api mem_ok mem_recs s1 ?R"
    using ms.begin_holds[OF mem_invD(1)[OF inv]] mem_never_fails by metis
  have fin: "mem_inv a' \<and> ar_id a' = ar_id a \<and> ar_trim_iid a' = ar_trim_iid a \<and> acceptor_recs a' = R"
    if "a' = a\<lparr>ar_store := s\<rparr>" "storage_holds mem_api mem_ok mem_recs s R" "\<And>i r. R i = Some r \<Longrightarrow> own_record (ar_id a) r"
    for s R
    using mem_invI[of a' R] that by auto
  show ?thesis
  proof (cases "?R iid")
    case None
    obtain s2 where "a' = a\<lparr>ar_store := s2\<rparr>" "storage_holds mem_api mem_ok mem_recs s2 ?R"
      using ms.srcid_merge_absent[OF mem_invD(1)[OF inv] None, of n aids bals vbals] run by auto
    from fin[OF this] mem_invD(2)[OF inv] show ?thesis by auto
  next
    case (Some r)
    have iid: "ac_iid r = iid" using ms.held_record(3)[OF b(2) Some] .
    have "storage_get_record s1 iid accepted_zero = Inr (1, r)" using ms.get_holds[OF b(2)] Some by simp
    note g = this
    obtain s2 acc' cnt where l: "srcid_loop aids bals vbals [0..<unat n] s1 r 0 = Inr (s2, acc', cnt)"
      using run b(1) g by (cases "srcid_loop aids bals vbals [0..<unat n] s1 r 0") (auto simp: srcid_merge_def)
    obtain s3 rc3 where c: "storage_tx_commit s2 = (s3, rc3)" by fastforce
    have a': "a' = a\<lparr>ar_store := fst (storage_tx_commit s2)\<rparr>"
      using run b(1) g l c by (auto simp: srcid_merge_def split: if_splits)
    have h: "storage_holds mem_api mem_ok mem_recs s2 (?R(iid \<mapsto> acc'))" "promised acc' = promised r"
      "own_record (ar_id a) acc'"
      using mem_srcid_loop_inv[OF b(2) _ l, of "ar_id a"] Some iid mem_invD(2)[OF inv Some] by auto
    have "storage_holds mem_api mem_ok mem_recs (fst (storage_tx_commit s2)) (?R(iid \<mapsto> acc'))"
      using ms.commit_holds[OF h(1)] by (metis fst_conv)
    moreover have "own_record (ar_id a) r'" if "(?R(iid \<mapsto> acc')) i = Some r'" for i r'
      using that h(3) mem_invD(2)[OF inv] by (auto split: if_splits)
    ultimately have "mem_inv a' \<and> ar_id a' = ar_id a \<and> ar_trim_iid a' = ar_trim_iid a \<and>
        acceptor_recs a' = ?R(iid \<mapsto> acc')"
      by (rule fin[OF a'])
    with h(2) Some show ?thesis by auto
  qed
qed

lemma acceptor_move_inv:
  assumes inv: "mem_inv a" and move: "acceptor_move a a'"
  shows "mem_inv a' \<and> ar_id a' = ar_id a \<and> ar_trim_iid a \<le> ar_trim_iid a' \<and>
    (\<forall>i r. acceptor_recs a i = Some r \<longrightarrow> ar_trim_iid a' < i \<longrightarrow>
       (\<exists>r'. acceptor_recs a' i = Some r' \<and> promised r \<le> promised r'))"
  using move
proof cases
  case (move_msg e m)
  obtain t' R' m' where ab: "abs_step (ar_id a) e (ar_trim_iid a, acceptor_recs a) = ((t', R'), m')" by (metis surj_pair)
  obtain b where "acceptor_step e a = Inr (b, m')" "mem_rel (ar_id a) (t', R') b"
    using mem_step[OF inv[unfolded mem_inv_def] move_msg(1)] ab by auto
  then have rel: "mem_rel (ar_id a) (t', R') a'" using move_msg(2) by simp
  show ?thesis
    using mem_rel_inv[OF rel] mem_relD[OF rel] abs_step_trim_mono[OF ab] abs_step_mono[OF ab] by auto
next
  case (move_preempted pe rv)
  obtain s where "a' = a\<lparr>ar_store := s\<rparr>" "storage_holds mem_api mem_ok mem_recs s (acceptor_recs a)"
    using ms.srcid_preempted_spec[OF mem_invD(1)[OF inv] mem_never_fails, of pe] move_preempted by auto
  then show ?thesis using mem_invI[of a' "acceptor_recs a"] mem_invD(2)[OF inv] by auto
next
  case (move_subs n)
  then show ?thesis using mem_invI[of a' "acceptor_recs a"] mem_invD(1,2)[OF inv]
    by (auto simp: setsubordinates_def)
qed (use mem_srcid_merge_inv[OF inv] in \<open>fastforce simp: get_srcid_promise_and_adjust_def get_srcid_accepted_def\<close>)+

lemma acceptor_moves_inv:
  assumes "rtranclp acceptor_move a a'" "mem_inv a"
  shows "mem_inv a' \<and> ar_id a' = ar_id a \<and> ar_trim_iid a \<le> ar_trim_iid a' \<and>
    (\<forall>i r. acceptor_recs a i = Some r \<longrightarrow> ar_trim_iid a' < i \<longrightarrow>
       (\<exists>r'. acceptor_recs a' i = Some r' \<and> promised r \<le> promised r'))"
  using assms(1)
proof (induction rule: rtranclp_induct)
  case base
  then show ?case using assms(2) by auto
next
  case (step b c)
  have m: "mem_inv c \<and> ar_id c = ar_id b \<and> ar_trim_iid b \<le> ar_trim_iid c \<and>
      (\<forall>i r. acceptor_recs b i = Some r \<longrightarrow> ar_trim_iid c < i \<longrightarrow>
         (\<exists>r'. acceptor_recs c i = Some r' \<and> promised r \<le> promised r'))"
    using acceptor_move_inv[OF _ step(2)] step.IH by blast
  have "\<exists>r'. acceptor_recs c i = Some r' \<and> promised r \<le> promised r'"
    if i: "acceptor_recs a i = Some r" "ar_trim_iid c < i" for i r
  proof -
    have "ar_trim_iid b < i" using m i(2) by (meson le_less_trans)
    with step.IH i(1) obtain r1 where "acceptor_recs b i = Some r1" "promised r \<le> promised r1" by blast
    with m i(2) show ?thesis by (meson order.trans)
  qed
  with step.IH m show ?case by auto
qed

definition acceptor_reachable :: "int \<Rightarrow> mem_storage acceptor \<Rightarrow> bool" where
  "acceptor_reachable aid a \<longleftrightarrow> (\<exists>cfg junk a0. storage_backend cfg = PAXOS_MEM_STORAGE \<and>
     acceptor_new cfg junk aid = Some a0 \<and> rtranclp acceptor_move a0 a)"

lemma acceptor_reachable_inv:
  assumes "acceptor_reachable aid a"
  shows "mem_inv a" "ar_id a = aid"
proof -
  obtain cfg junk a0 where a0: "storage_backend cfg = PAXOS_MEM_STORAGE" "acceptor_new cfg junk aid = Some a0"
    "rtranclp acceptor_move a0 a" using assms by (auto simp: acceptor_reachable_def)
  have "mem_rel aid (0, Map.empty) a0" using acceptor_new_mem[OF a0(1), of junk aid] a0(2) by auto
  then show "mem_inv a" "ar_id a = aid"
    using acceptor_moves_inv[OF a0(3)] mem_rel_inv mem_relD(1) by metis+
qed

section \<open>Properties of the acceptor\<close>


definition demo_value :: paxos_value where
  "demo_value = \<lparr>pv_len = 2, pv_val = Some [7, 8]\<rparr>"

definition demo_accept :: paxos_accept where
  "demo_accept = \<lparr>pa_src = 0, pa_iid = 5, pa_ballot = 101, pa_value = demo_value\<rparr>"

definition demo_prepare :: paxos_prepare where
  "demo_prepare = \<lparr>pp_src = 0, pp_iid = 5, pp_ballot = 101\<rparr>"

definition demo_events :: "acceptor_event list" where
  "demo_events = [RecvPrepare 0 demo_prepare, RecvAccept demo_accept, RecvAccept (demo_accept\<lparr>pa_ballot := 100\<rparr>),
     RecvRepeat 5, RecvTrim \<lparr>tr_iid = 5\<rparr>, RecvPrepare 0 demo_prepare]"


lemma acceptor_run_moves:
  "acceptor_run es a = Inr (a', ms) \<Longrightarrow> \<forall>e \<in> set es. event_ok e \<Longrightarrow> rtranclp acceptor_move a a'"
proof (induction es arbitrary: a ms)
  case Nil
  then show ?case by simp
next
  case (Cons e es)
  then obtain b m ms' where "acceptor_step e a = Inr (b, m)" "acceptor_run es b = Inr (a', ms')"
    by (auto simp: bind_res_Inr_iff)
  with Cons move_msg[of e a b m] show ?case by (auto intro: converse_rtranclp_into_rtranclp)
qed

lemma acceptor_new_demo: "acceptor_reachable 1 (the (acceptor_new paxos_config_default 0 1))"
  and acceptor_new_demo_rel: "mem_rel 1 (0, Map.empty) (the (acceptor_new paxos_config_default 0 1))"
proof -
  have "storage_backend paxos_config_default = PAXOS_MEM_STORAGE" by (simp add: paxos_config_default_def)
  with acceptor_new_mem[OF this, of 0 1] show "acceptor_reachable 1 (the (acceptor_new paxos_config_default 0 1))"
    "mem_rel 1 (0, Map.empty) (the (acceptor_new paxos_config_default 0 1))"
    unfolding acceptor_reachable_def by fastforce+
qed

text \<open>
  C17: promised ballots never go down. Take any acceptor that is reachable, by protocol messages, by
  merged answers of subordinates and by changes of the number of subordinates, and any further moves:
  an instance that is not trimmed keeps a record, and the ballot promised there is at least the one
  promised before. The trim bound never goes down either.
\<close>

theorem acceptor_ballot_monotone:
  assumes "acceptor_reachable aid a" "rtranclp acceptor_move a a'"
    "acceptor_recs a i = Some r" "ar_trim_iid a' < i"
  shows "ar_trim_iid a \<le> ar_trim_iid a' \<and> (\<exists>r'. acceptor_recs a' i = Some r' \<and> promised r \<le> promised r')"
  using acceptor_moves_inv[OF assms(2) acceptor_reachable_inv(1)[OF assms(1)]] assms(3,4) by blast

text \<open>
  An accepted value can be asked for again. When a reachable acceptor answers an accept request
  with \<^verbatim>\<open>PAXOS_ACCEPTED\<close>, the request's ballot is not below the ballot promised for the instance,
  the answer names this acceptor, the request's ballot and the request's value, and a repeat for the
  instance right after returns that record.
\<close>

lemma acceptor_accept_then_repeat:
  assumes reach: "acceptor_reachable aid a"
    and v: "value_ok (pa_value req)" "0 < pv_len (pa_value req)"
    and acc: "acceptor_receive_accept a req = Inr (a', Some (PAXOS_ACCEPTED m))"
  shows "(\<forall>r. acceptor_recs a (pa_iid req) = Some r \<longrightarrow> promised r \<le> pa_ballot req) \<and>
    m = accepted_record aid req \<and>
    (\<exists>a''. acceptor_receive_repeat a' (pa_iid req) = Inr (a'', Some (record_clip (accepted_record aid req))))"
proof -
  let ?R = "acceptor_recs a" and ?t = "ar_trim_iid a"
  have rel: "mem_rel aid (?t, ?R) a" using acceptor_reachable_inv[OF reach] by (simp add: mem_inv_def)
  obtain new msg where res: "accept_result aid req (?R (pa_iid req)) = (new, msg)" by fastforce
  have s': "mem_rel aid (?t, ?R(pa_iid req \<mapsto> new)) a'" and "msg = PAXOS_ACCEPTED m"
    using mem_step[OF rel, of "RecvAccept req"] v(1) acc res by (auto split: if_splits)
  then have m: "m = accepted_record aid req" "new = record_clip (accepted_record aid req)"
    "\<forall>r. ?R (pa_iid req) = Some r \<longrightarrow> promised r \<le> pa_ballot req"
    using res by (auto simp: accept_result_def Let_def split: option.splits if_splits)
  have "repeat_result (Some new) = Some new"
    using v(2) m(2) by (simp add: repeat_result_def record_clip_def accepted_record_def value_clip_def)
  then have "\<exists>a''. acceptor_receive_repeat a' (pa_iid req) = Inr (a'', Some new)"
    using ms.repeat_spec[OF mem_relD(4)[OF s'], of "pa_iid req"] mem_never_fails by auto
  with m show ?thesis by simp
qed

text \<open>
  Trimmed instances are closed. After a trim request that is above the acceptor's bound, prepare
  and accept requests for any instance up to the bound get no answer and leave the acceptor
  unchanged, a repeat finds nothing, and the records above the bound are untouched.
\<close>

lemma acceptor_trim_closes:
  assumes reach: "acceptor_reachable aid a" and t: "ar_trim_iid a < tr_iid t"
  shows "\<exists>a'. acceptor_receive_trim a t = Inr (a', True) \<and> ar_trim_iid a' = tr_iid t \<and>
    (\<forall>i. tr_iid t < i \<longrightarrow> acceptor_recs a' i = acceptor_recs a i) \<and>
    (\<forall>p isrc. pp_iid p \<le> tr_iid t \<longrightarrow> acceptor_receive_prepare isrc a' p = Inr (a', None)) \<and>
    (\<forall>q. pa_iid q \<le> tr_iid t \<longrightarrow> acceptor_receive_accept a' q = Inr (a', None)) \<and>
    (\<forall>i. i \<le> tr_iid t \<longrightarrow> (\<exists>a''. acceptor_receive_repeat a' i = Inr (a'', None)))"
proof -
  note st = mem_invD(1)[OF acceptor_reachable_inv(1)[OF reach]]
  let ?R = "\<lambda>i. if i \<le> tr_iid t then None else acceptor_recs a i"
  obtain s' where s': "acceptor_receive_trim a t = Inr (a\<lparr>ar_trim_iid := tr_iid t, ar_store := s'\<rparr>, True)"
    "storage_holds mem_api mem_ok mem_recs s' ?R"
    using ms.trim_spec[OF st, of t] mem_never_fails t by (auto simp: max_absorb2 less_imp_le)
  let ?a = "a\<lparr>ar_trim_iid := tr_iid t, ar_store := s'\<rparr>"
  have recs: "acceptor_recs ?a = ?R" using s'(2) by (simp add: acceptor_recs_def storage_holds_def)
  have "\<exists>a''. acceptor_receive_repeat ?a i = Inr (a'', None)" if "i \<le> tr_iid t" for i
    using ms.repeat_spec[of ?a ?R i] s'(2) that by (auto simp: repeat_result_def)
  then show ?thesis using s'(1) recs
    by (intro exI[of _ ?a]) (auto simp: acceptor_receive_prepare_def acceptor_receive_accept_def)
qed

text \<open>Concrete acceptors: acceptor 1 after the messages \<open>es\<close>.\<close>

definition demo_acceptor :: "acceptor_event list \<Rightarrow> mem_storage acceptor" where
  "demo_acceptor es = (case acceptor_run es (the (acceptor_new paxos_config_default 0 1)) of
     Inl _ \<Rightarrow> the (acceptor_new paxos_config_default 0 1) | Inr (a, _) \<Rightarrow> a)"

lemma demo_acceptor_props:
  assumes "\<forall>e \<in> set es. event_ok e"
  shows "mem_rel 1 (fst (abs_run 1 es (0, Map.empty))) (demo_acceptor es)" (is ?rel)
    and "acceptor_reachable 1 (demo_acceptor es)" (is ?reach)
    and "acceptor_recs (demo_acceptor es) = snd (fst (abs_run 1 es (0, Map.empty)))" (is ?recs)
    and "ar_trim_iid (demo_acceptor es) = fst (fst (abs_run 1 es (0, Map.empty)))" (is ?trim)
proof -
  let ?a0 = "the (acceptor_new paxos_config_default 0 1)"
  obtain a where a: "acceptor_run es ?a0 = Inr (a, snd (abs_run 1 es (0, Map.empty)))"
    "mem_rel 1 (fst (abs_run 1 es (0, Map.empty))) a" using mem_run[OF acceptor_new_demo_rel assms] by blast
  then have eq: "demo_acceptor es = a" by (simp add: demo_acceptor_def)
  have "acceptor_reachable 1 a"
    using acceptor_new_demo acceptor_run_moves[OF a(1) assms]
    unfolding acceptor_reachable_def by (meson rtranclp_trans)
  with a(2) eq mem_relD[OF a(2)] show ?rel ?reach ?recs ?trim by simp_all
qed

lemma acceptor_run_snoc:
  "acceptor_run (es @ [e]) a = bind_res (acceptor_run es a) (\<lambda>(b, ms).
     bind_res (acceptor_step e b) (\<lambda>(c, m). Inr (c, ms @ [m])))"
proof (induction es arbitrary: a)
  case Nil
  then show ?case by simp
next
  case (Cons f es)
  show ?case
  proof (cases "acceptor_step f a")
    case (Inr p)
    obtain b m where p: "p = (b, m)" by (cases p)
    show ?thesis
    proof (cases "acceptor_run es b")
      case run: (Inr q)
      obtain c ms where q: "q = (c, ms)" by (cases q)
      show ?thesis by (cases "acceptor_step e c") (auto simp: Cons Inr p run q split: prod.splits)
    qed (simp add: Cons Inr p)
  qed simp
qed

lemma demo_acceptor_moves:
  assumes "\<forall>e \<in> set es. event_ok e" "event_ok e"
  shows "rtranclp acceptor_move (demo_acceptor es) (demo_acceptor (es @ [e]))"
proof -
  let ?a0 = "the (acceptor_new paxos_config_default 0 1)"
  obtain b ms where b: "acceptor_run es ?a0 = Inr (b, ms)" "demo_acceptor es = b"
    using mem_run[OF acceptor_new_demo_rel assms(1)] by (auto simp: demo_acceptor_def)
  have "mem_rel 1 (fst (abs_run 1 es (0, Map.empty))) b" using demo_acceptor_props(1)[OF assms(1)] b(2) by simp
  then obtain c m where c: "acceptor_step e b = Inr (c, m)" using mem_step[OF _ assms(2)] by blast
  then have "demo_acceptor (es @ [e]) = c" using b(1) by (simp add: demo_acceptor_def acceptor_run_snoc)
  with b(2) c assms(2) show ?thesis by (auto intro: move_msg)
qed

theorem acceptor_ballot_monotone_witness:
  "\<exists>r r'. acceptor_recs (demo_acceptor [RecvAccept demo_accept]) 5 = Some r \<and>
     acceptor_recs (demo_acceptor [RecvAccept demo_accept, RecvPrepare 0 (demo_prepare\<lparr>pp_ballot := 202\<rparr>)]) 5 = Some r' \<and>
     promised r \<le> promised r'"
proof -
  let ?e = "RecvPrepare 0 (demo_prepare\<lparr>pp_ballot := 202\<rparr>)"
  have ok: "\<forall>e \<in> set [RecvAccept demo_accept]. event_ok e" "event_ok ?e"
    "\<forall>e \<in> set [RecvAccept demo_accept, ?e]. event_ok e"
    by (simp_all add: demo_accept_def demo_value_def value_ok_def)
  have "acceptor_recs (demo_acceptor [RecvAccept demo_accept]) 5 = Some (record_clip (accepted_record 1 demo_accept))"
    using demo_acceptor_props(3)[OF ok(1)] by (simp add: demo_accept_def accept_result_def Let_def)
  moreover have "ar_trim_iid (demo_acceptor [RecvAccept demo_accept, ?e]) < 5"
    using demo_acceptor_props(4)[OF ok(3)] by (simp add: demo_accept_def demo_prepare_def accept_result_def Let_def)
  ultimately show ?thesis
    using acceptor_ballot_monotone[OF demo_acceptor_props(2)[OF ok(1)] demo_acceptor_moves[OF ok(1,2), simplified]] by blast
qed

end
