(* ===== verification/Proposer_Inv.thy ===== *)
theory Proposer_Inv
  imports Proposer "HOL-Library.Multiset"
begin

text \<open>
  The state invariant of the proposer and, operation by operation, that it is kept, that no
  assertion fails and no fault occurs, and what happens to the client values.
\<close>

section \<open>The invariant\<close>

definition opt_value_ok :: "paxos_value option \<Rightarrow> bool" where
  "opt_value_ok v \<longleftrightarrow> (case v of None \<Rightarrow> True | Some w \<Rightarrow> value_ok w)"

text \<open>The ballots of the proposer with id \<open>pid\<close>, in 32-bit arithmetic.\<close>

definition own_ballot :: "int \<Rightarrow> ballot_t \<Rightarrow> bool" where
  "own_ballot pid b \<longleftrightarrow> (\<exists>k. b = u32_of_int (int MAX_N_OF_PROPOSERS * (int k + 1) + pid))"

definition inst_ok :: "int \<Rightarrow> int \<Rightarrow> iid_t \<Rightarrow> pinstance \<Rightarrow> bool" where
  "inst_ok n pid i inst \<longleftrightarrow> pi_iid inst = i \<and> 0 < i \<and> quorum_ok n (pi_quorum inst) \<and> own_ballot pid (pi_ballot inst) \<and>
     opt_value_ok (pi_value inst) \<and> opt_value_ok (pi_promised_value inst)"

definition table_ok :: "int \<Rightarrow> int \<Rightarrow> iid_t \<Rightarrow> pinstance khash \<Rightarrow> bool" where
  "table_ok n pid mx h \<longleftrightarrow> kh_ok h \<and> (\<forall>i inst. kh_lookup h i = Some inst \<longrightarrow> inst_ok n pid i inst \<and> i \<le> mx)"

definition inst_valued :: "pinstance \<Rightarrow> bool" where
  "inst_valued inst \<longleftrightarrow> instance_has_value inst \<or> instance_has_promised_value inst"

definition proposer_ok :: "proposer \<Rightarrow> bool" where
  "proposer_ok p \<longleftrightarrow> 0 \<le> po_acceptors p \<and> carray_ok (po_values p) \<and>
     (\<forall>v \<in> set (carray_contents (po_values p)). value_ok v) \<and>
     table_ok (po_acceptors p) (po_id p) (po_next_prepare_iid p) (po_prepare_instances p) \<and>
     table_ok (po_acceptors p) (po_id p) (po_next_prepare_iid p) (po_accept_instances p) \<and>
     (\<forall>i inst. kh_lookup (po_accept_instances p) i = Some inst \<longrightarrow> inst_valued inst) \<and>
     dom (kh_lookup (po_prepare_instances p)) \<inter> dom (kh_lookup (po_accept_instances p)) = {}"

lemma opt_value_ok_simps [simp]: "opt_value_ok None" "opt_value_ok (Some v) = value_ok v"
  by (simp_all add: opt_value_ok_def)

lemma next_ballot_own: "own_ballot pid (proposer_next_ballot pid 0)"
  "own_ballot pid b \<Longrightarrow> own_ballot pid (proposer_next_ballot pid b)"
proof -
  show first: "own_ballot pid (proposer_next_ballot pid 0)"
    unfolding own_ballot_def proposer_next_ballot_def by (intro exI[of _ 0]) simp
  assume "own_ballot pid b"
  then obtain k where k: "b = u32_of_int (int MAX_N_OF_PROPOSERS * (int k + 1) + pid)" by (auto simp: own_ballot_def)
  then have "of_nat MAX_N_OF_PROPOSERS + b = u32_of_int (int MAX_N_OF_PROPOSERS * (int (Suc k) + 1) + pid)"
    by (simp add: u32_of_int_def MAX_N_OF_PROPOSERS_def algebra_simps)
  then have "own_ballot pid (of_nat MAX_N_OF_PROPOSERS + b)" unfolding own_ballot_def by blast
  then show "own_ballot pid (proposer_next_ballot pid b)"
    using first by (auto simp: proposer_next_ballot_def word_gt_0)
qed

lemma table_okD:
  assumes "table_ok n pid mx h"
  shows "kh_ok h" "kh_lookup h i = Some inst \<Longrightarrow> inst_ok n pid i inst" "kh_lookup h i = Some inst \<Longrightarrow> i \<le> mx"
  using assms by (auto simp: table_ok_def)

lemma table_ok_write:
  assumes "table_ok n pid mx h" "kh_lookup h i = Some old" "inst_ok n pid i inst"
  shows "table_ok n pid mx (kh_write h i inst)" "kh_lookup (kh_write h i inst) = (kh_lookup h)(i \<mapsto> inst)"
  using assms kh.update_ok[of h i old inst] kh.update_lookup[of h i old inst] by (auto simp: table_ok_def)

lemma table_ok_delete:
  assumes "table_ok n pid mx h"
  shows "table_ok n pid mx (kh_delete h i)" "kh_lookup (kh_delete h i) = (kh_lookup h)(i := None)"
  using assms kh.delete_ok[of h i] kh.delete_lookup[of h i] by (auto simp: table_ok_def split: if_splits)

lemma table_ok_put_fresh:
  assumes "table_ok n pid mx h" "kh_lookup h i = None" "inst_ok n pid i inst" "i \<le> mx'" "mx \<le> mx'"
  obtains h' rv where "kh_put h i inst = Inr (h', rv)" "0 < rv" "table_ok n pid mx' h'"
    "kh_lookup h' = (kh_lookup h)(i \<mapsto> inst)"
proof -
  obtain h' rv where p: "kh_put h i inst = Inr (h', rv)" "kh_ok h'" "kh_lookup h' = (kh_lookup h)(i \<mapsto> inst)" "0 < rv"
    using kh.put_fresh[OF table_okD(1)[OF assms(1)] assms(2)] .
  moreover have "table_ok n pid mx' h'"
    using assms p(2,3) unfolding table_ok_def by (auto split: if_splits intro: order_trans)
  ultimately show ?thesis using that by blast
qed

lemma table_ok_mono: "table_ok n pid mx h \<Longrightarrow> mx \<le> mx' \<Longrightarrow> table_ok n pid mx' h"
  by (auto simp: table_ok_def intro: order_trans)

lemma proposer_new_ok: "0 \<le> n \<Longrightarrow> proposer_ok (proposer_new pid n)"
  using carray_new_ok[of 128, where 'a = paxos_value]
  by (simp add: proposer_ok_def proposer_new_def table_ok_def kh.init_ok kh.init_lookup)

section \<open>Client values held by the proposer\<close>

definition val_mset :: "pinstance \<Rightarrow> paxos_value multiset" where
  "val_mset inst = (case pi_value inst of None \<Rightarrow> {#} | Some v \<Rightarrow> {#v#})"

definition map_values :: "(iid_t \<rightharpoonup> pinstance) \<Rightarrow> paxos_value multiset" where
  "map_values m = (\<Sum>i \<in> dom m. val_mset (the (m i)))"

definition pending :: "proposer \<Rightarrow> paxos_value multiset" where
  "pending p = mset (carray_contents (po_values p)) + map_values (kh_lookup (po_prepare_instances p)) +
     map_values (kh_lookup (po_accept_instances p))"

lemma map_values_remove:
  assumes "finite (dom m)" "m i = Some inst"
  shows "map_values m = val_mset inst + map_values (m(i := None))"
proof -
  have "map_values m = val_mset (the (m i)) + (\<Sum>j \<in> dom m - {i}. val_mset (the (m j)))"
    unfolding map_values_def using assms by (intro sum.remove) auto
  also have "(\<Sum>j \<in> dom m - {i}. val_mset (the (m j))) = map_values (m(i := None))"
    unfolding map_values_def by (intro sum.cong) auto
  finally show ?thesis using assms(2) by simp
qed

lemma map_values_upd:
  assumes "finite (dom m)"
  shows "map_values (m(i \<mapsto> inst)) = val_mset inst + map_values (m(i := None))"
  using map_values_remove[of "m(i \<mapsto> inst)" i inst] assms by simp

lemma map_values_same:
  assumes "finite (dom m)" "m i = Some old" "val_mset inst = val_mset old"
  shows "map_values (m(i \<mapsto> inst)) = map_values m"
  using map_values_upd[OF assms(1), of i inst] map_values_remove[OF assms(1,2)] assms(3) by simp

lemma map_values_fresh:
  assumes "finite (dom m)" "m i = None"
  shows "map_values (m(i \<mapsto> inst)) = val_mset inst + map_values m"
proof -
  have "m(i := None) = m" using assms(2) by auto
  then show ?thesis using map_values_upd[OF assms(1), of i inst] by simp
qed

lemma map_values_list:
  "distinct (map fst es) \<Longrightarrow> map_values (map_of es) = mset (List.map_filter pi_value (map snd es))"
proof (induction es)
  case Nil
  then show ?case by (simp add: map_values_def List.map_filter_def)
next
  case (Cons e es)
  obtain i inst where e: "e = (i, inst)" by (cases e)
  have "map_of es i = None" using Cons.prems e by (auto simp: map_of_eq_None_iff)
  then have "map_values (map_of (e # es)) = val_mset inst + map_values (map_of es)"
    using map_values_fresh[of "map_of es" i inst] by (simp add: e finite_dom_map_of)
  then show ?case using Cons by (simp add: e map_filter_Cons val_mset_def fun_upd_def split: option.splits)
qed

section \<open>Queueing and trimming\<close>

lemma push_all_ok:
  "carray_ok q \<Longrightarrow> \<exists>q'. carray_push_all q xs = Inr q' \<and> carray_ok q' \<and> carray_contents q' = carray_contents q @ xs"
proof (induction xs arbitrary: q)
  case Nil
  then show ?case by simp
next
  case (Cons x xs)
  obtain q1 where q1: "carray_push_back q x = Inr q1" "carray_ok q1" "carray_contents q1 = carray_contents q @ [x]"
    by (rule cq.push_succeeds[OF Cons.prems])
  with Cons.IH[OF q1(2)] show ?case by simp
qed

lemma map_filter_split:
  "mset (List.map_filter f (filter P xs)) + mset (List.map_filter f (filter (\<lambda>x. \<not> P x) xs)) = mset (List.map_filter f xs)"
proof (induction xs)
  case Nil
  then show ?case by (simp add: List.map_filter_def)
next
  case (Cons x xs)
  then show ?case by (cases "P x"; cases "f x") (simp_all add: map_filter_Cons)
qed

lemma in_map_filter: "v \<in> set (List.map_filter f xs) \<longleftrightarrow> (\<exists>x \<in> set xs. f x = Some v)"
  by (induction xs) (auto simp: map_filter_Cons List.map_filter_def split: option.splits)

lemma trim_instances_ok:
  assumes q: "carray_ok q" "\<forall>v \<in> set (carray_contents q). value_ok v" and h: "table_ok n pid mx h"
  shows "\<exists>q' h'. proposer_trim_instances q h iid = Inr (q', h') \<and> carray_ok q' \<and>
    (\<forall>v \<in> set (carray_contents q'). value_ok v) \<and> table_ok n pid mx h' \<and>
    kh_lookup h' = (\<lambda>i. if i \<le> iid then None else kh_lookup h i) \<and>
    mset (carray_contents q') + map_values (kh_lookup h') = mset (carray_contents q) + map_values (kh_lookup h)"
proof -
  let ?P = "\<lambda>inst. pi_iid inst \<le> iid" and ?h = "kh_remove_if (\<lambda>inst. pi_iid inst \<le> iid) h"
  let ?es = "kh_entries h"
  have kok: "kh_ok h" by (rule table_okD(1)[OF h])
  obtain q' where q': "carray_push_all q (trim_values iid h) = Inr q'" "carray_ok q'"
    "carray_contents q' = carray_contents q @ trim_values iid h" using push_all_ok[OF q(1)] by blast
  have lk: "kh_lookup ?h = (\<lambda>i. if i \<le> iid then None else kh_lookup h i)"
    using table_okD(2)[OF h] by (auto simp: kh.remove_if_lookup[OF kok] inst_ok_def split: option.splits)
  have th: "table_ok n pid mx ?h" using h kh.remove_if_ok[OF kok] lk by (auto simp: table_ok_def)
  have vals: "value_ok v" if tv: "v \<in> set (trim_values iid h)" for v
  proof -
    obtain i inst where "(i, inst) \<in> set ?es" "pi_value inst = Some v"
      using tv unfolding trim_values_def in_map_filter by auto
    then show ?thesis using kh.set_entries[OF kok] table_okD(2)[OF h] by (fastforce simp: inst_ok_def)
  qed
  have "filter (\<lambda>(k, v). \<not> ?P v) ?es = filter (\<lambda>e. \<not> ?P (snd e)) ?es" by (rule filter_cong) auto
  then have "map_values (kh_lookup ?h) = mset (List.map_filter pi_value (filter (\<lambda>x. \<not> ?P x) (map snd ?es)))"
    using map_values_list[OF kh.entries_distinct[OF kh.remove_if_ok[OF kok]], of ?P]
      kh.entries_map[OF kh.remove_if_ok[OF kok], of ?P] kh.remove_if_entries[OF kok, of ?P]
    by (simp add: filter_map comp_def)
  moreover have "map_values (kh_lookup h) = mset (List.map_filter pi_value (map snd ?es))"
    using map_values_list[OF kh.entries_distinct[OF kok]] kh.entries_map[OF kok] by simp
  ultimately have "mset (trim_values iid h) + map_values (kh_lookup ?h) = map_values (kh_lookup h)"
    unfolding trim_values_def using map_filter_split[of pi_value ?P "map snd ?es"] by simp
  then have "mset (carray_contents q') + map_values (kh_lookup ?h) = mset (carray_contents q) + map_values (kh_lookup h)"
    using q'(3) by (simp add: add.assoc)
  moreover have "proposer_trim_instances q h iid = Inr (q', ?h)"
    using q'(1) by (simp add: proposer_trim_instances_def)
  moreover have "\<forall>v \<in> set (carray_contents q'). value_ok v" using q'(3) vals q(2) by auto
  ultimately show ?thesis using q'(2) th lk by blast
qed

section \<open>Operations\<close>

text \<open>
  What every operation keeps: the invariant, the identity of the proposer, and the number of
  acceptors.
\<close>

definition keeps :: "proposer \<Rightarrow> proposer \<Rightarrow> bool" where
  "keeps p p' \<longleftrightarrow> proposer_ok p' \<and> po_id p' = po_id p \<and> po_acceptors p' = po_acceptors p"

lemma proposer_okD:
  assumes "proposer_ok p"
  shows "0 \<le> po_acceptors p" "carray_ok (po_values p)" "\<forall>v \<in> set (carray_contents (po_values p)). value_ok v"
    "table_ok (po_acceptors p) (po_id p) (po_next_prepare_iid p) (po_prepare_instances p)"
    "table_ok (po_acceptors p) (po_id p) (po_next_prepare_iid p) (po_accept_instances p)"
    "kh_lookup (po_accept_instances p) i = Some inst \<Longrightarrow> inst_valued inst"
    "kh_lookup (po_prepare_instances p) i = Some inst \<Longrightarrow> kh_lookup (po_accept_instances p) i = None"
    "kh_lookup (po_accept_instances p) i = Some inst \<Longrightarrow> kh_lookup (po_prepare_instances p) i = None"
    "finite (dom (kh_lookup (po_prepare_instances p)))" "finite (dom (kh_lookup (po_accept_instances p)))"
proof -
  have kok: "kh_ok (po_prepare_instances p)" "kh_ok (po_accept_instances p)"
    using assms by (simp_all add: proposer_ok_def table_ok_def)
  show "finite (dom (kh_lookup (po_prepare_instances p)))" "finite (dom (kh_lookup (po_accept_instances p)))"
    by (rule kh.finite_dom[OF kok(1)], rule kh.finite_dom[OF kok(2)])
qed (use assms in \<open>auto simp: proposer_ok_def disjoint_iff domIff\<close>)

lemma propose_ok:
  assumes p: "proposer_ok p" and v: "0 \<le> sz" "sz \<le> int (length bs)"
  shows "\<exists>p'. proposer_propose p (Some bs) sz = Inr p' \<and> keeps p p' \<and>
    pending p' = pending p + {#\<lparr>pv_len = sz, pv_val = Some (take (nat sz) bs)\<rparr>#} \<and>
    po_next_prepare_iid p' = po_next_prepare_iid p"
proof -
  let ?v = "\<lparr>pv_len = sz, pv_val = Some (take (nat sz) bs)\<rparr>"
  have new: "paxos_value_new (Some bs) sz = Inr ?v"
    using v by (auto simp: paxos_value_new_def copy_bytes_def acopy_def nat_le_iff)
  obtain q where q: "carray_push_back (po_values p) ?v = Inr q" "carray_ok q"
    "carray_contents q = carray_contents (po_values p) @ [?v]"
    by (rule cq.push_succeeds[OF proposer_okD(2)[OF p]])
  have "value_ok ?v" using v by (simp add: value_ok_def)
  then have "proposer_ok (p\<lparr>po_values := q\<rparr>)" using p q by (auto simp: proposer_ok_def)
  then show ?thesis using new q by (simp add: proposer_propose_def keeps_def pending_def)
qed

lemma set_instance_id_ok:
  assumes p: "proposer_ok p"
  shows "\<exists>p'. proposer_set_instance_id p iid = Inr p' \<and> keeps p p' \<and> pending p' = pending p \<and>
    po_next_prepare_iid p' = max (po_next_prepare_iid p) iid"
proof (cases "iid > po_next_prepare_iid p")
  case False
  then have "proposer_set_instance_id p iid = Inr p" "max (po_next_prepare_iid p) iid = po_next_prepare_iid p"
    by (simp add: proposer_set_instance_id_def, simp add: max_absorb1 leI)
  then show ?thesis using p by (simp add: keeps_def)
next
  case True
  let ?n = "po_acceptors p" and ?mx = "po_next_prepare_iid p"
  obtain q1 h1 where t1: "proposer_trim_instances (po_values p) (po_prepare_instances p) iid = Inr (q1, h1)"
    "carray_ok q1" "\<forall>v \<in> set (carray_contents q1). value_ok v" "table_ok ?n (po_id p) ?mx h1"
    "kh_lookup h1 = (\<lambda>i. if i \<le> iid then None else kh_lookup (po_prepare_instances p) i)"
    "mset (carray_contents q1) + map_values (kh_lookup h1) =
       mset (carray_contents (po_values p)) + map_values (kh_lookup (po_prepare_instances p))"
    using trim_instances_ok[OF proposer_okD(2,3,4)[OF p]] by blast
  obtain q2 h2 where t2: "proposer_trim_instances q1 (po_accept_instances p) iid = Inr (q2, h2)"
    "carray_ok q2" "\<forall>v \<in> set (carray_contents q2). value_ok v" "table_ok ?n (po_id p) ?mx h2"
    "kh_lookup h2 = (\<lambda>i. if i \<le> iid then None else kh_lookup (po_accept_instances p) i)"
    "mset (carray_contents q2) + map_values (kh_lookup h2) =
       mset (carray_contents q1) + map_values (kh_lookup (po_accept_instances p))"
    using trim_instances_ok[OF t1(2,3) proposer_okD(5)[OF p]] by blast
  let ?p = "p\<lparr>po_next_prepare_iid := iid, po_values := q2, po_prepare_instances := h1, po_accept_instances := h2\<rparr>"
  have run: "proposer_set_instance_id p iid = Inr ?p"
    using True t1(1) t2(1) by (simp add: proposer_set_instance_id_def)
  have valued: "\<forall>i inst. kh_lookup h2 i = Some inst \<longrightarrow> inst_valued inst"
    using proposer_okD(6)[OF p] by (simp add: t2(5))
  have disj: "dom (kh_lookup h1) \<inter> dom (kh_lookup h2) = {}"
    using p unfolding t1(5) t2(5) proposer_ok_def by (auto simp: dom_def split: if_splits)
  have "proposer_ok ?p"
    using proposer_okD(1)[OF p] t2(2,3) table_ok_mono[OF t1(4)] table_ok_mono[OF t2(4)] True valued disj
    by (simp add: proposer_ok_def)
  moreover have "pending ?p = pending p"
  proof -
    have "pending ?p = mset (carray_contents q2) + map_values (kh_lookup h2) + map_values (kh_lookup h1)"
      by (simp add: pending_def)
    also have "\<dots> = mset (carray_contents q1) + map_values (kh_lookup h1) + map_values (kh_lookup (po_accept_instances p))"
      by (simp add: t2(6))
    finally show ?thesis by (simp add: t1(6) pending_def)
  qed
  ultimately show ?thesis using run True by (simp add: keeps_def max_absorb2)
qed

lemma receive_state_ok:
  assumes p: "proposer_ok p"
  shows "\<exists>p'. proposer_receive_acceptor_state p st = Inr p' \<and> keeps p p' \<and> pending p' = pending p"
proof -
  have "proposer_ok (p\<lparr>po_max_trim_iid := as_trim_iid st\<rparr>)" using p by (simp add: proposer_ok_def)
  from set_instance_id_ok[OF this, of "as_trim_iid st"] p show ?thesis
    by (auto simp: proposer_receive_acceptor_state_def keeps_def pending_def)
qed

lemma prepare_ok:
  assumes p: "proposer_ok p" and room: "po_next_prepare_iid p + 1 \<noteq> 0"
  defines "i \<equiv> po_next_prepare_iid p + 1"
  shows "\<exists>p' inst. proposer_prepare now p = Inr (p', prepare_message (po_id p) inst) \<and> keeps p p' \<and>
    pending p' = pending p \<and> po_next_prepare_iid p' = i \<and> po_next_prepare_iid p < i \<and>
    pi_iid inst = i \<and> pi_ballot inst = proposer_next_ballot (po_id p) 0 \<and> pi_promised_value inst = None \<and>
    kh_lookup (po_prepare_instances p') = (kh_lookup (po_prepare_instances p))(i \<mapsto> inst) \<and>
    po_accept_instances p' = po_accept_instances p"
proof -
  let ?inst = "\<lparr>pi_iid = i, pi_ballot = proposer_next_ballot (po_id p) 0, pi_value = None,
     pi_promised_value = None, pi_value_ballot = 0, pi_quorum = quorum_init (po_acceptors p), pi_created_at = now\<rparr>"
  have lt: "po_next_prepare_iid p < i" using u32_inc_less[OF room] by (simp add: i_def)
  then have pos: "0 < i" using room by (simp add: i_def word_gt_0)
  have fresh: "kh_lookup (po_prepare_instances p) i = None" "kh_lookup (po_accept_instances p) i = None"
    using table_okD(3)[OF proposer_okD(4)[OF p]] table_okD(3)[OF proposer_okD(5)[OF p]] lt
    by (meson leD not_None_eq)+
  have iok: "inst_ok (po_acceptors p) (po_id p) i ?inst"
    using pos quorum_init_ok[OF proposer_okD(1)[OF p]] by (simp add: inst_ok_def next_ballot_own(1))
  obtain h rv where h: "kh_put (po_prepare_instances p) i ?inst = Inr (h, rv)" "0 < rv"
    "table_ok (po_acceptors p) (po_id p) i h" "kh_lookup h = (kh_lookup (po_prepare_instances p))(i \<mapsto> ?inst)"
    using table_ok_put_fresh[OF proposer_okD(4)[OF p] fresh(1) iok order_refl less_imp_le[OF lt]] .
  let ?p = "p\<lparr>po_next_prepare_iid := i, po_prepare_instances := h\<rparr>"
  have run: "proposer_prepare now p = Inr (?p, prepare_message (po_id p) ?inst)"
    using pos h(1,2) by (simp add: proposer_prepare_def instance_new_def Let_def i_def)
  have "proposer_ok ?p"
    using p h(3,4) fresh(2) table_ok_mono[OF proposer_okD(5)[OF p] less_imp_le[OF lt]]
    by (auto simp: proposer_ok_def disjoint_iff)
  moreover have "pending ?p = pending p"
    using map_values_fresh[OF proposer_okD(9)[OF p] fresh(1), of ?inst] h(4) by (simp add: pending_def val_mset_def)
  ultimately show ?thesis using run lt h(4) by (intro exI[of _ ?p] exI[of _ ?inst]) (simp add: keeps_def)
qed

section \<open>Promises\<close>

definition promise_for :: "int \<Rightarrow> paxos_promise \<Rightarrow> bool" where
  "promise_for n ack \<longleftrightarrow> promise_ok ack \<and> (\<forall>x \<in> set (the (pr_aids ack)). aid_ok n x)"

lemma preempt_inst_ok:
  "inst_ok n pid i inst \<Longrightarrow> inst_ok n pid i (proposer_preempt now pid inst) \<and> pi_value (proposer_preempt now pid inst) = pi_value inst"
  by (simp add: inst_ok_def proposer_preempt_def quorum_clear_ok next_ballot_own(2))

lemma promise_forD:
  assumes "promise_for n ack" "j < unat (pr_n_aids ack)"
  obtains b aid v vb where "aread (pr_ballots ack) j = Inr b" "aread (pr_aids ack) j = Inr aid" "aid_ok n aid"
    "aread (pr_values ack) j = Inr v" "value_ok v" "aread (pr_value_ballots ack) j = Inr vb"
proof -
  obtain as bs vs vbs where m: "pr_aids ack = Some as" "pr_ballots ack = Some bs" "pr_values ack = Some vs"
    "pr_value_ballots ack = Some vbs" "length as = unat (pr_n_aids ack)" "length bs = unat (pr_n_aids ack)"
    "length vs = unat (pr_n_aids ack)" "length vbs = unat (pr_n_aids ack)" "\<forall>v \<in> set vs. value_ok v"
    "\<forall>x \<in> set as. aid_ok n x"
    using assms(1) by (auto simp: promise_for_def promise_ok_def arr_len_iff)
  with assms(2) that[of "bs ! j" "as ! j" "vs ! j" "vbs ! j"] show ?thesis by simp
qed

lemma value_new_ok:
  assumes "value_ok v"
  shows "\<exists>w. paxos_value_new (pv_val v) (pv_len v) = Inr w \<and> value_ok w \<and> pv_len w = pv_len v"
  using copy_bytes_ok[OF assms] assms by (auto simp: paxos_value_new_def value_ok_def)

lemma promise_value_ok:
  assumes "promise_for n ack" "j < unat (pr_n_aids ack)" "inst_ok n pid i inst"
  shows "\<exists>inst'. promise_value ack j inst = Inr inst' \<and> inst_ok n pid i inst' \<and> pi_value inst' = pi_value inst \<and>
    pi_ballot inst' = pi_ballot inst \<and> pi_quorum inst' = pi_quorum inst"
proof -
  obtain b aid v vb where m: "aread (pr_values ack) j = Inr v" "value_ok v" "aread (pr_value_ballots ack) j = Inr vb"
    using promise_forD[OF assms(1,2)] by metis
  then show ?thesis using assms(3) value_new_ok[OF m(2)]
    by (auto simp: promise_value_def inst_ok_def)
qed

lemma promise_entry_ok:
  assumes ack: "promise_for n ack" and j: "j < unat (pr_n_aids ack)" and inst: "inst_ok n pid i inst"
  shows "\<exists>inst' out'. promise_entry now pid ack j (inst, out) = Inr (inst', out') \<and> inst_ok n pid i inst' \<and>
    pi_value inst' = pi_value inst"
proof -
  obtain b aid v vb where m: "aread (pr_ballots ack) j = Inr b" "aread (pr_aids ack) j = Inr aid" "aid_ok n aid"
    using promise_forD[OF ack j] by metis
  consider "b < pi_ballot inst" | "b > pi_ballot inst" | "b = pi_ballot inst" by (meson linorder_less_linear)
  then show ?thesis
  proof cases
    case 1
    then show ?thesis using m inst by (simp add: promise_entry_def)
  next
    case 2
    then have "\<not> b < pi_ballot inst" by (simp add: order_less_not_sym)
    then show ?thesis using m 2 preempt_inst_ok[OF inst] by (simp add: promise_entry_def Let_def)
  next
    case 3
    have "quorum_ok n (pi_quorum inst)" using inst by (simp add: inst_ok_def)
    then obtain q added where q: "quorum_add (pi_quorum inst) (int_of_u32 aid) = Inr (q, added)" "quorum_ok n q"
      using quorum_add_spec[of n "pi_quorum inst" "int_of_u32 aid"] m(3) unfolding aid_ok_def by blast
    have "inst_ok n pid i (inst\<lparr>pi_quorum := q\<rparr>)" using inst q(2) by (simp add: inst_ok_def)
    from promise_value_ok[OF ack j this] show ?thesis using m 3 q(1) by (auto simp: promise_entry_def)
  qed
qed

lemma promise_loop_ok:
  assumes ack: "promise_for n ack" and "\<forall>j \<in> set js. j < unat (pr_n_aids ack)" "inst_ok n pid i inst"
  shows "\<exists>inst' out'. promise_loop now pid ack js (inst, out) = Inr (inst', out') \<and> inst_ok n pid i inst' \<and>
    pi_value inst' = pi_value inst"
  using assms(2,3)
proof (induction js arbitrary: inst out)
  case Nil
  then show ?case by simp
next
  case (Cons j js)
  obtain inst1 out1 where e: "promise_entry now pid ack j (inst, out) = Inr (inst1, out1)" "inst_ok n pid i inst1"
    "pi_value inst1 = pi_value inst" using promise_entry_ok[OF ack _ Cons.prems(2), of j now out] Cons.prems(1) by auto
  with Cons.IH[OF _ e(2)] Cons.prems(1) show ?case by simp
qed

lemma receive_promise_ok:
  assumes p: "proposer_ok p" and ack: "promise_for (po_acceptors p) ack"
  shows "\<exists>p' out. proposer_receive_promise now p ack = Inr (p', out) \<and> keeps p p' \<and> pending p' = pending p \<and>
    po_next_prepare_iid p' = po_next_prepare_iid p"
proof (cases "kh_lookup (po_prepare_instances p) (pr_iid ack)")
  case None
  then show ?thesis using p by (simp add: proposer_receive_promise_def keeps_def)
next
  case (Some inst)
  note tab = proposer_okD(4)[OF p]
  have js: "\<forall>j \<in> set [0..<unat (pr_n_aids ack)]. j < unat (pr_n_aids ack)" by simp
  obtain inst' out where l: "promise_loop now (po_id p) ack [0..<unat (pr_n_aids ack)] (inst, None) = Inr (inst', out)"
    "inst_ok (po_acceptors p) (po_id p) (pr_iid ack) inst'" "pi_value inst' = pi_value inst"
    using promise_loop_ok[OF ack js table_okD(2)[OF tab Some]] by blast
  note w = table_ok_write[OF tab Some l(2)]
  let ?p = "p\<lparr>po_prepare_instances := kh_write (po_prepare_instances p) (pr_iid ack) inst'\<rparr>"
  have "proposer_ok ?p" using p w Some by (auto simp: proposer_ok_def)
  moreover have "pending ?p = pending p"
    using map_values_same[OF proposer_okD(9)[OF p] Some, of inst'] l(3) w(2) by (simp add: pending_def val_mset_def)
  ultimately show ?thesis using l(1) Some by (simp add: proposer_receive_promise_def keeps_def)
qed

section \<open>Accepting\<close>

lemma smallest_instance_from:
  "smallest_instance (Some y) xs = Some z \<Longrightarrow>
     z \<in> set (y # xs) \<and> pi_iid z \<le> pi_iid y \<and> (\<forall>x \<in> set xs. pi_iid z \<le> pi_iid x)"
proof (induction xs arbitrary: y)
  case Nil
  then show ?case by simp
next
  case (Cons x xs)
  show ?case
  proof (cases "pi_iid y > pi_iid x")
    case True
    with Cons.IH[of x] Cons.prems show ?thesis by (auto intro: order_trans less_imp_le)
  next
    case False
    with Cons.IH[of y] Cons.prems show ?thesis by (auto intro: order_trans simp: not_less)
  qed
qed

lemma smallest_instance_Some: "\<exists>z. smallest_instance (Some y) xs = Some z"
  by (induction xs arbitrary: y) auto

lemma smallest_instance_spec:
  shows "smallest_instance None xs = None \<longleftrightarrow> xs = []"
    and "smallest_instance None xs = Some z \<Longrightarrow> z \<in> set xs \<and> (\<forall>x \<in> set xs. pi_iid z \<le> pi_iid x)"
  using smallest_instance_from[of _ _ z] smallest_instance_Some by (cases xs; force)+

lemma smallest_pending:
  assumes "table_ok n pid mx h" "smallest_instance None (map snd (kh_entries h)) = Some inst"
  shows "kh_lookup h (pi_iid inst) = Some inst" "\<forall>i \<in> dom (kh_lookup h). pi_iid inst \<le> i" "inst_ok n pid (pi_iid inst) inst"
proof -
  note kok = table_okD(1)[OF assms(1)]
  note sm = smallest_instance_spec(2)[OF assms(2)]
  obtain i where i: "kh_lookup h i = Some inst" using sm kh.set_entries[OF kok] by force
  then have eq: "pi_iid inst = i" using table_okD(2)[OF assms(1)] by (simp add: inst_ok_def)
  with i show "kh_lookup h (pi_iid inst) = Some inst" by simp
  show "inst_ok n pid (pi_iid inst) inst" using table_okD(2)[OF assms(1) i] eq by simp
  show "\<forall>i \<in> dom (kh_lookup h). pi_iid inst \<le> i"
  proof
    fix j assume "j \<in> dom (kh_lookup h)"
    then obtain x where x: "kh_lookup h j = Some x" by auto
    then have "x \<in> set (map snd (kh_entries h))" using kh.set_entries[OF kok] by force
    then have "pi_iid inst \<le> pi_iid x" using sm by blast
    then show "pi_iid inst \<le> j" using table_okD(2)[OF assms(1) x] by (simp add: inst_ok_def)
  qed
qed

definition cleared :: "pinstance \<Rightarrow> pinstance" where
  "cleared inst = inst\<lparr>pi_quorum := quorum_clear (pi_quorum inst)\<rparr>"

lemma cleared_props:
  "inst_ok n pid i inst \<Longrightarrow> inst_ok n pid i (cleared inst)" "pi_value (cleared inst) = pi_value inst"
  "pi_promised_value (cleared inst) = pi_promised_value inst" "pi_iid (cleared inst) = pi_iid inst"
  "pi_ballot (cleared inst) = pi_ballot inst" "inst_valued (cleared inst) = inst_valued inst"
  "quorum_members (pi_quorum (cleared inst)) = {}"
  by (simp_all add: cleared_def inst_ok_def quorum_clear_ok inst_valued_def instance_has_value_def
      instance_has_promised_value_def)

lemma move_instance_ok:
  assumes f: "table_ok n pid mx f" "kh_lookup f i = Some old" and t: "table_ok n pid mx t" "kh_lookup t i = None"
    and inst: "inst_ok n pid i inst"
  shows "\<exists>t'. proposer_move_instance f t inst = Inr (kh_delete f i, t', cleared inst) \<and> table_ok n pid mx t' \<and>
    kh_lookup t' = (kh_lookup t)(i \<mapsto> cleared inst)"
proof -
  have i: "pi_iid inst = i" "i \<le> mx" using inst table_okD(3)[OF f] by (simp_all add: inst_ok_def)
  have k: "kh_get f i \<noteq> n_buckets f" using kh_get_end_iff[OF table_okD(1)[OF f(1)]] f(2) by simp
  obtain t' rv where p: "kh_put t i (cleared inst) = Inr (t', rv)" "0 < rv" "table_ok n pid mx t'"
    "kh_lookup t' = (kh_lookup t)(i \<mapsto> cleared inst)"
    using table_ok_put_fresh[OF t cleared_props(1)[OF inst] i(2) order_refl] .
  then show ?thesis
    using k i(1) by (simp add: proposer_move_instance_def Let_def cleared_def[symmetric] kh_delete_def)
qed

text \<open>The value an accept carries: the promised one if there is one, else the client's.\<close>

definition accept_value :: "pinstance \<Rightarrow> paxos_value option" where
  "accept_value inst = (if pi_promised_value inst \<noteq> None then pi_promised_value inst else pi_value inst)"

lemma instance_to_accept_ok:
  "accept_value inst = Some v \<Longrightarrow> instance_to_accept p inst =
     Inr \<lparr>pa_src = u32_of_int (po_id p), pa_iid = pi_iid inst, pa_ballot = pi_ballot inst, pa_value = v\<rparr>"
  by (auto simp: instance_to_accept_def accept_value_def instance_has_promised_value_def)

lemma accept_value_valued: "inst_valued inst \<longleftrightarrow> accept_value inst \<noteq> None"
  by (auto simp: inst_valued_def accept_value_def instance_has_value_def instance_has_promised_value_def)

lemma accept_value_cleared: "accept_value (cleared inst) = accept_value inst"
  by (simp add: accept_value_def cleared_def)

lemma accept_move:
  assumes p: "proposer_ok p" and lk: "kh_lookup (po_prepare_instances p) i = Some inst" and v: "accept_value inst = Some v"
  shows "\<exists>hp ha. proposer_move_instance (po_prepare_instances p) (po_accept_instances p) inst = Inr (hp, ha, cleared inst) \<and>
    instance_to_accept p (cleared inst) = Inr \<lparr>pa_src = u32_of_int (po_id p), pa_iid = i, pa_ballot = pi_ballot inst, pa_value = v\<rparr> \<and>
    keeps p (p\<lparr>po_prepare_instances := hp, po_accept_instances := ha\<rparr>) \<and>
    pending (p\<lparr>po_prepare_instances := hp, po_accept_instances := ha\<rparr>) = pending p \<and>
    kh_lookup hp = (kh_lookup (po_prepare_instances p))(i := None) \<and>
    kh_lookup ha = (kh_lookup (po_accept_instances p))(i \<mapsto> cleared inst)"
proof -
  let ?f = "po_prepare_instances p" and ?t = "po_accept_instances p"
  have iok: "inst_ok (po_acceptors p) (po_id p) i inst" by (rule table_okD(2)[OF proposer_okD(4)[OF p] lk])
  note nt = proposer_okD(7)[OF p lk]
  obtain ha where m: "proposer_move_instance ?f ?t inst = Inr (kh_delete ?f i, ha, cleared inst)"
    "table_ok (po_acceptors p) (po_id p) (po_next_prepare_iid p) ha" "kh_lookup ha = (kh_lookup ?t)(i \<mapsto> cleared inst)"
    using move_instance_ok[OF proposer_okD(4)[OF p] lk proposer_okD(5)[OF p] nt iok] by blast
  note d = table_ok_delete[OF proposer_okD(4)[OF p], of i]
  let ?p = "p\<lparr>po_prepare_instances := kh_delete ?f i, po_accept_instances := ha\<rparr>"
  have "inst_valued (cleared inst)" unfolding cleared_props(6) using v accept_value_valued[of inst] by simp
  then have "proposer_ok ?p"
    using p d m(2,3) unfolding proposer_ok_def by (auto split: if_splits)
  moreover have "pending ?p = pending p"
    using map_values_remove[OF proposer_okD(9)[OF p] lk] map_values_fresh[OF proposer_okD(10)[OF p] nt, of "cleared inst"] d(2) m(3)
    by (simp add: pending_def val_mset_def cleared_props(2))
  moreover have "instance_to_accept p (cleared inst) =
      Inr \<lparr>pa_src = u32_of_int (po_id p), pa_iid = i, pa_ballot = pi_ballot inst, pa_value = v\<rparr>"
    using instance_to_accept_ok[of "cleared inst" v p] v iok
    by (simp add: accept_value_cleared cleared_props(4,5) inst_ok_def)
  ultimately show ?thesis using m(1,3) d(2) by (intro exI[of _ "kh_delete ?f i"] exI[of _ ha]) (simp add: keeps_def)
qed

text \<open>The instance \<^verbatim>\<open>proposer_accept\<close> works on, with the value it takes from the queue.\<close>

definition taken :: "proposer \<Rightarrow> pinstance \<Rightarrow> pinstance" where
  "taken p inst = (if pi_value inst = None
     then inst\<lparr>pi_value := (case carray_contents (po_values p) of [] \<Rightarrow> None | v # vs \<Rightarrow> Some v)\<rparr> else inst)"

lemma take_value_ok:
  assumes p: "proposer_ok p" and lk: "kh_lookup (po_prepare_instances p) i = Some inst" and nv: "pi_value inst = None"
  shows "\<exists>q v. carray_pop_front (po_values p) = Inr (v, q) \<and> inst\<lparr>pi_value := v\<rparr> = taken p inst \<and>
    keeps p (p\<lparr>po_values := q, po_prepare_instances := kh_write (po_prepare_instances p) i (taken p inst)\<rparr>) \<and>
    pending (p\<lparr>po_values := q, po_prepare_instances := kh_write (po_prepare_instances p) i (taken p inst)\<rparr>) = pending p \<and>
    kh_lookup (kh_write (po_prepare_instances p) i (taken p inst)) = (kh_lookup (po_prepare_instances p))(i \<mapsto> taken p inst)"
proof -
  let ?h = "po_prepare_instances p"
  have iok: "inst_ok (po_acceptors p) (po_id p) i inst" by (rule table_okD(2)[OF proposer_okD(4)[OF p] lk])
  note cok = proposer_okD(2)[OF p]
  obtain q v where q: "carray_pop_front (po_values p) = Inr (v, q)" using cq.pop_no_fault[OF cok]
    by (cases "carray_pop_front (po_values p)") auto
  note pop = cq.pop_Inr[OF cok q]
  have tk: "inst\<lparr>pi_value := v\<rparr> = taken p inst"
    using pop(2,3) nv by (cases v) (auto simp: taken_def split: list.splits)
  have "opt_value_ok v" using proposer_okD(3)[OF p] pop(2) by (cases v) auto
  then have tok: "inst_ok (po_acceptors p) (po_id p) i (taken p inst)" using iok unfolding tk[symmetric] by (simp add: inst_ok_def)
  note w = table_ok_write[OF proposer_okD(4)[OF p] lk tok]
  let ?p = "p\<lparr>po_values := q, po_prepare_instances := kh_write ?h i (taken p inst)\<rparr>"
  have "\<forall>v \<in> set (carray_contents q). value_ok v" using proposer_okD(3)[OF p] pop(2) by auto
  then have "proposer_ok ?p" using p w pop(1) lk by (auto simp: proposer_ok_def)
  moreover have "pending ?p = pending p"
  proof -
    have "map_values ((kh_lookup ?h)(i \<mapsto> taken p inst)) = val_mset (taken p inst) + map_values (kh_lookup ?h)"
      using map_values_upd[OF proposer_okD(9)[OF p], of i "taken p inst"] map_values_remove[OF proposer_okD(9)[OF p] lk] nv
      by (simp add: val_mset_def)
    moreover have "val_mset (taken p inst) + mset (carray_contents q) = mset (carray_contents (po_values p))"
      unfolding tk[symmetric] using pop(2) by (cases v) (auto simp: val_mset_def)
    ultimately show ?thesis using w(2) by (simp add: pending_def) (metis add.assoc add.commute)
  qed
  ultimately show ?thesis using q tk w(2) by (intro exI[of _ q] exI[of _ v]) (simp add: keeps_def)
qed

lemma proposer_accept_ok:
  assumes p: "proposer_ok p"
  shows "\<exists>p' out. proposer_accept p = Inr (p', out) \<and> keeps p p' \<and> pending p' = pending p \<and>
    po_next_prepare_iid p' = po_next_prepare_iid p \<and>
    (\<forall>a. out = Some a \<longrightarrow> (\<exists>inst. kh_lookup (po_prepare_instances p) (pa_iid a) = Some inst \<and>
       (\<forall>i \<in> dom (kh_lookup (po_prepare_instances p)). pa_iid a \<le> i) \<and> quorum_reached (pi_quorum inst) \<and>
       pa_ballot a = pi_ballot inst \<and> accept_value (taken p inst) = Some (pa_value a) \<and>
       kh_lookup (po_prepare_instances p') = (kh_lookup (po_prepare_instances p))(pa_iid a := None) \<and>
       kh_lookup (po_accept_instances p') = (kh_lookup (po_accept_instances p))(pa_iid a \<mapsto> cleared (taken p inst))))"
proof (cases "smallest_instance None (map snd (kh_entries (po_prepare_instances p)))")
  case None
  then show ?thesis using p by (simp add: proposer_accept_def keeps_def)
next
  case (Some inst)
  let ?h = "po_prepare_instances p" and ?i = "pi_iid inst"
  note sp = smallest_pending[OF proposer_okD(4)[OF p] Some]
  show ?thesis
  proof (cases "quorum_reached (pi_quorum inst)")
    case False
    then show ?thesis using p Some by (simp add: proposer_accept_def keeps_def)
  next
    case True
    obtain p1 where p1: "(if \<not> instance_has_value inst
        then bind_res (carray_pop_front (po_values p)) (\<lambda>(v, q). let inst = inst\<lparr>pi_value := v\<rparr> in
          Inr (inst, p\<lparr>po_values := q, po_prepare_instances := kh_write ?h (pi_iid inst) inst\<rparr>))
        else Inr (inst, p)) = Inr (taken p inst, p1)"
      and k: "keeps p p1" "pending p1 = pending p" "po_next_prepare_iid p1 = po_next_prepare_iid p"
      and lk: "kh_lookup (po_prepare_instances p1) = (kh_lookup ?h)(?i \<mapsto> taken p inst)"
        "po_accept_instances p1 = po_accept_instances p"
    proof (cases "pi_value inst = None")
      case True
      obtain q v where t: "carray_pop_front (po_values p) = Inr (v, q)" "inst\<lparr>pi_value := v\<rparr> = taken p inst"
        "keeps p (p\<lparr>po_values := q, po_prepare_instances := kh_write ?h ?i (taken p inst)\<rparr>)"
        "pending (p\<lparr>po_values := q, po_prepare_instances := kh_write ?h ?i (taken p inst)\<rparr>) = pending p"
        "kh_lookup (kh_write ?h ?i (taken p inst)) = (kh_lookup ?h)(?i \<mapsto> taken p inst)"
        using take_value_ok[OF p sp(1) True] by blast
      have "pi_iid (taken p inst) = ?i" by (simp add: taken_def)
      then show ?thesis
        using that[of "p\<lparr>po_values := q, po_prepare_instances := kh_write ?h ?i (taken p inst)\<rparr>"] t True
        by (simp add: instance_has_value_def Let_def)
    next
      case False
      then have "taken p inst = inst" by (auto simp: taken_def)
      moreover have "(kh_lookup ?h)(?i \<mapsto> inst) = kh_lookup ?h" using sp(1) by auto
      ultimately show ?thesis using that[of p] False p by (simp add: instance_has_value_def keeps_def)
    qed
    have ok1: "proposer_ok p1" and id1: "po_id p1 = po_id p" "po_acceptors p1 = po_acceptors p"
      using k(1) by (simp_all add: keeps_def)
    show ?thesis
    proof (cases "accept_value (taken p inst)")
      case none: None
      then have "\<not> inst_valued (taken p inst)" by (simp add: accept_value_valued)
      then show ?thesis using Some True p1 k by (auto simp: proposer_accept_def inst_valued_def)
    next
      case v: (Some v)
      have lk1: "kh_lookup (po_prepare_instances p1) ?i = Some (taken p inst)" by (simp add: lk)
      obtain hp ha where m: "proposer_move_instance (po_prepare_instances p1) (po_accept_instances p1) (taken p inst)
            = Inr (hp, ha, cleared (taken p inst))"
        "instance_to_accept p1 (cleared (taken p inst)) =
           Inr \<lparr>pa_src = u32_of_int (po_id p1), pa_iid = ?i, pa_ballot = pi_ballot (taken p inst), pa_value = v\<rparr>"
        "keeps p1 (p1\<lparr>po_prepare_instances := hp, po_accept_instances := ha\<rparr>)"
        "pending (p1\<lparr>po_prepare_instances := hp, po_accept_instances := ha\<rparr>) = pending p1"
        "kh_lookup hp = (kh_lookup (po_prepare_instances p1))(?i := None)"
        "kh_lookup ha = (kh_lookup (po_accept_instances p1))(?i \<mapsto> cleared (taken p inst))"
        using accept_move[OF ok1 lk1 v] by blast
      let ?a = "\<lparr>pa_src = u32_of_int (po_id p1), pa_iid = ?i, pa_ballot = pi_ballot (taken p inst), pa_value = v\<rparr>"
      let ?p = "p1\<lparr>po_prepare_instances := hp, po_accept_instances := ha\<rparr>"
      have "inst_valued (taken p inst)" using v by (simp add: accept_value_valued)
      then have run: "proposer_accept p = Inr (?p, Some ?a)"
        using Some True p1 m(1,2) by (auto simp: proposer_accept_def inst_valued_def)
      have bal: "pi_ballot (taken p inst) = pi_ballot inst" by (simp add: taken_def)
      have "keeps p ?p" using m(3) k(1) by (simp add: keeps_def)
      with run show ?thesis using m(4-6) k(2,3) lk sp True v bal by (intro exI[of _ ?p] exI[of _ "Some ?a"]) auto
    qed
  qed
qed

section \<open>Answers of phase 2\<close>

definition accepted_for :: "int \<Rightarrow> paxos_accepted \<Rightarrow> bool" where
  "accepted_for n ack \<longleftrightarrow> (case (ac_ballots ack, ac_aids ack) of
     (Some (b # bs), Some (x # xs)) \<Rightarrow> aid_ok n x | _ \<Rightarrow> False)"

lemma accepted_for_iff:
  "accepted_for n ack \<longleftrightarrow> (\<exists>b bs x xs. ac_ballots ack = Some (b # bs) \<and> ac_aids ack = Some (x # xs) \<and> aid_ok n x)"
  by (auto simp: accepted_for_def split: option.splits list.splits)

lemma value_cmp_ok:
  assumes "value_ok v" "value_ok w"
  shows "\<exists>d. paxos_value_cmp v w = Inr d \<and>
    (\<not> d \<longrightarrow> pv_len v = pv_len w \<and> (0 < pv_len v \<longrightarrow> take (nat (pv_len v)) (the (pv_val v)) = take (nat (pv_len v)) (the (pv_val w))))"
proof (cases "pv_len v = pv_len w")
  case False
  then show ?thesis by (auto simp: paxos_value_cmp_def)
next
  case True
  with assms show ?thesis by (auto simp: value_ok_cases paxos_value_cmp_def acopy_Some nat_le_iff)
qed

text \<open>
  The client value an instance is done with when it closes: its own value, unless another value was
  chosen, in which case the value is queued again.
\<close>

definition requeued :: "pinstance \<Rightarrow> bool" where
  "requeued inst \<longleftrightarrow> (case (pi_promised_value inst, pi_value inst) of
     (Some w, Some v) \<Rightarrow> paxos_value_cmp v w = Inr True | _ \<Rightarrow> False)"

definition served :: "pinstance \<Rightarrow> paxos_value multiset" where
  "served inst = (if requeued inst then {#} else val_mset inst)"

lemma close_queue:
  assumes p: "proposer_ok p" and iok: "inst_ok n pid i inst"
  shows "\<exists>q. (case (pi_promised_value inst, pi_value inst) of
       (Some w, Some v) \<Rightarrow> bind_res (paxos_value_cmp v w) (\<lambda>d. if d then carray_push_back (po_values p) v else Inr (po_values p))
     | _ \<Rightarrow> Inr (po_values p)) = Inr q \<and> carray_ok q \<and> (\<forall>v \<in> set (carray_contents q). value_ok v) \<and>
     mset (carray_contents q) + served inst = mset (carray_contents (po_values p)) + val_mset inst"
proof (cases "\<exists>w v. pi_promised_value inst = Some w \<and> pi_value inst = Some v")
  case True
  then obtain w v where wv: "pi_promised_value inst = Some w" "pi_value inst = Some v" by blast
  have ok: "value_ok v" "value_ok w" using iok wv by (simp_all add: inst_ok_def)
  then obtain d where d: "paxos_value_cmp v w = Inr d" using value_cmp_ok by blast
  obtain q where q: "carray_push_back (po_values p) v = Inr q" "carray_ok q" "carray_contents q = carray_contents (po_values p) @ [v]"
    by (rule cq.push_succeeds[OF proposer_okD(2)[OF p]])
  show ?thesis
    using wv d q ok proposer_okD(2,3)[OF p]
    by (cases d) (auto simp: served_def requeued_def val_mset_def)
next
  case False
  then have "(case (pi_promised_value inst, pi_value inst) of
       (Some w, Some v) \<Rightarrow> bind_res (paxos_value_cmp v w) (\<lambda>d. if d then carray_push_back (po_values p) v else Inr (po_values p))
     | _ \<Rightarrow> Inr (po_values p)) = Inr (po_values p)" "served inst = val_mset inst"
    by (auto simp: served_def requeued_def split: option.splits)
  then show ?thesis using proposer_okD(2,3)[OF p] by auto
qed

lemma receive_accepted_ok:
  assumes p: "proposer_ok p" and ack: "accepted_for (po_acceptors p) ack"
  shows "\<exists>p' rv. proposer_receive_accepted p ack = Inr (p', rv) \<and> keeps p p' \<and>
    po_next_prepare_iid p' = po_next_prepare_iid p \<and>
    po_prepare_instances p' = po_prepare_instances p \<and>
    (pending p' = pending p \<and> (kh_lookup (po_accept_instances p') (ac_iid ack) = None \<longrightarrow>
        kh_lookup (po_accept_instances p) (ac_iid ack) = None) \<or>
     (\<exists>inst x xs. kh_lookup (po_accept_instances p) (ac_iid ack) = Some inst \<and> ac_aids ack = Some (x # xs) \<and>
        hd (the (ac_ballots ack)) = pi_ballot inst \<and>
        kh_lookup (po_accept_instances p') = (kh_lookup (po_accept_instances p))(ac_iid ack := None) \<and>
        po_acceptors p div 2 < int (card (insert (int_of_u32 x) (quorum_members (pi_quorum inst)))) \<and>
        pending p' + served inst = pending p))"
proof (cases "kh_lookup (po_accept_instances p) (ac_iid ack)")
  case None
  then show ?thesis using p by (auto simp: proposer_receive_accepted_def keeps_def)
next
  case (Some inst)
  let ?h = "po_accept_instances p" and ?i = "ac_iid ack"
  have iok: "inst_ok (po_acceptors p) (po_id p) ?i inst" by (rule table_okD(2)[OF proposer_okD(5)[OF p] Some])
  obtain b bs x xs where m: "ac_ballots ack = Some (b # bs)" "ac_aids ack = Some (x # xs)" "aid_ok (po_acceptors p) x"
    using ack by (auto simp: accepted_for_iff)
  have qok: "quorum_ok (po_acceptors p) (pi_quorum inst)" using iok by (simp add: inst_ok_def)
  obtain q where q: "quorum_add (pi_quorum inst) (int_of_u32 x) = Inr (q, int_of_u32 x \<notin> quorum_members (pi_quorum inst))"
    "quorum_ok (po_acceptors p) q" "quorum_members q = insert (int_of_u32 x) (quorum_members (pi_quorum inst))"
    using quorum_add_spec[OF qok, of "int_of_u32 x"] m(3) unfolding aid_ok_def by blast
  show ?thesis
  proof (cases "b = pi_ballot inst \<and> int_of_u32 x \<notin> quorum_members (pi_quorum inst)")
    case False
    then show ?thesis using p Some m q(1) by (auto simp: proposer_receive_accepted_def keeps_def)
  next
    case fresh: True
    show ?thesis
    proof (cases "quorum_reached q")
      case False
      have iok': "inst_ok (po_acceptors p) (po_id p) ?i (inst\<lparr>pi_quorum := q\<rparr>)" using iok q(2) by (simp add: inst_ok_def)
      note w = table_ok_write[OF proposer_okD(5)[OF p] Some iok']
      let ?p = "p\<lparr>po_accept_instances := kh_write ?h ?i (inst\<lparr>pi_quorum := q\<rparr>)\<rparr>"
      have "inst_valued (inst\<lparr>pi_quorum := q\<rparr>)"
        using proposer_okD(6)[OF p Some] by (simp add: inst_valued_def instance_has_value_def instance_has_promised_value_def)
      then have "proposer_ok ?p" using p w Some by (auto simp: proposer_ok_def)
      moreover have "pending ?p = pending p"
        using map_values_same[OF proposer_okD(10)[OF p] Some, of "inst\<lparr>pi_quorum := q\<rparr>"] w(2)
        by (simp add: pending_def val_mset_def)
      moreover have "kh_lookup (po_accept_instances ?p) ?i \<noteq> None" by (simp add: w(2))
      moreover have "proposer_receive_accepted p ack = Inr (?p, True)"
        using Some m fresh q(1) False by (simp add: proposer_receive_accepted_def)
      ultimately show ?thesis by (intro exI[of _ ?p] exI[of _ True]) (auto simp: keeps_def)
    next
      case True
      obtain vals where v: "(case (pi_promised_value inst, pi_value inst) of
           (Some w, Some v) \<Rightarrow> bind_res (paxos_value_cmp v w) (\<lambda>d. if d then carray_push_back (po_values p) v else Inr (po_values p))
         | _ \<Rightarrow> Inr (po_values p)) = Inr vals" "carray_ok vals" "\<forall>v \<in> set (carray_contents vals). value_ok v"
        "mset (carray_contents vals) + served inst = mset (carray_contents (po_values p)) + val_mset inst"
        using close_queue[OF p iok] by blast
      note d = table_ok_delete[OF proposer_okD(5)[OF p], of ?i]
      let ?p = "p\<lparr>po_values := vals, po_accept_instances := kh_delete ?h ?i\<rparr>"
      have run: "proposer_receive_accepted p ack = Inr (?p, True)"
        using Some m fresh q(1) True v(1) by (simp add: proposer_receive_accepted_def)
      have "proposer_ok ?p" using p d v(2,3) by (auto simp: proposer_ok_def split: if_splits)
      moreover have "pending ?p + served inst = pending p"
        using map_values_remove[OF proposer_okD(10)[OF p] Some] v(4) d(2)
        by (simp add: pending_def)
      moreover have "po_acceptors p div 2 < int (card (quorum_members q))"
        using quorum_reached_iff[OF q(2)] True by simp
      ultimately show ?thesis using run Some m fresh d(2) q(3)
        by (intro exI[of _ ?p] exI[of _ True] conjI disjI2 exI[of _ inst] exI[of _ x] exI[of _ xs]) (simp_all add: keeps_def)
    qed
  qed
qed

lemma receive_preempted_ok:
  assumes p: "proposer_ok p"
  shows "\<exists>p' out. proposer_receive_preempted now p ack = Inr (p', out) \<and> keeps p p' \<and> pending p' = pending p \<and>
    po_next_prepare_iid p' = po_next_prepare_iid p \<and>
    (case kh_lookup (po_accept_instances p) (pe_iid ack) of
       Some inst \<Rightarrow>
         if pi_ballot inst < pe_ballot ack
         then (\<exists>inst'. out = Some (prepare_message (po_id p) inst') \<and> pi_iid inst' = pe_iid ack \<and>
                pi_ballot inst' = proposer_next_ballot (po_id p) (pi_ballot inst) \<and>
                pi_value inst' = pi_value inst \<and> pi_promised_value inst' = None \<and> pi_value_ballot inst' = 0 \<and>
                quorum_members (pi_quorum inst') = {} \<and>
                kh_lookup (po_prepare_instances p') = (kh_lookup (po_prepare_instances p))(pe_iid ack \<mapsto> inst') \<and>
                kh_lookup (po_accept_instances p') = (kh_lookup (po_accept_instances p))(pe_iid ack := None))
         else out = None \<and> p' = p
     | None \<Rightarrow> out = None \<and> p' = p)"
proof (cases "kh_lookup (po_accept_instances p) (pe_iid ack)")
  case None
  then show ?thesis using p by (simp add: proposer_receive_preempted_def keeps_def)
next
  case (Some inst)
  let ?f = "po_accept_instances p" and ?t = "po_prepare_instances p" and ?i = "pe_iid ack"
  have iok: "inst_ok (po_acceptors p) (po_id p) ?i inst" by (rule table_okD(2)[OF proposer_okD(5)[OF p] Some])
  show ?thesis
  proof (cases "pi_ballot inst < pe_ballot ack")
    case False
    then show ?thesis using p Some by (simp add: proposer_receive_preempted_def keeps_def)
  next
    case True
    note nt = proposer_okD(8)[OF p Some]
    obtain hp where m: "proposer_move_instance ?f ?t inst = Inr (kh_delete ?f ?i, hp, cleared inst)"
      "table_ok (po_acceptors p) (po_id p) (po_next_prepare_iid p) hp" "kh_lookup hp = (kh_lookup ?t)(?i \<mapsto> cleared inst)"
      using move_instance_ok[OF proposer_okD(5)[OF p] Some proposer_okD(4)[OF p] nt iok] by blast
    let ?inst = "proposer_preempt now (po_id p) (cleared inst)"
    have pre: "inst_ok (po_acceptors p) (po_id p) ?i ?inst" "pi_value ?inst = pi_value inst"
      using preempt_inst_ok[OF cleared_props(1)[OF iok]] by (simp_all add: cleared_props(2))
    have iid: "pi_iid ?inst = ?i" using pre(1) by (simp add: inst_ok_def)
    have "kh_lookup hp ?i = Some (cleared inst)" by (simp add: m(3))
    note w = table_ok_write[OF m(2) this pre(1)]
    have wl: "kh_lookup (kh_write hp ?i ?inst) = (kh_lookup ?t)(?i \<mapsto> ?inst)" by (simp add: w(2) m(3))
    note d = table_ok_delete[OF proposer_okD(5)[OF p], of ?i]
    let ?p = "p\<lparr>po_accept_instances := kh_delete ?f ?i, po_prepare_instances := kh_write hp ?i ?inst\<rparr>"
    have run: "proposer_receive_preempted now p ack = Inr (?p, Some (prepare_message (po_id p) ?inst))"
      using Some True m(1) iid by (simp add: proposer_receive_preempted_def Let_def)
    have ok': "proposer_ok ?p"
      using p w(1) d wl unfolding proposer_ok_def by (auto split: if_splits)
    have pen: "pending ?p = pending p"
      using map_values_remove[OF proposer_okD(10)[OF p] Some] map_values_fresh[OF proposer_okD(9)[OF p] nt, of ?inst] d(2) wl pre(2)
      by (simp add: pending_def val_mset_def)
    have "pi_ballot ?inst = proposer_next_ballot (po_id p) (pi_ballot inst)" "pi_promised_value ?inst = None"
      "pi_value_ballot ?inst = 0" "quorum_members (pi_quorum ?inst) = {}"
      by (simp_all add: proposer_preempt_def cleared_props(5))
    with run ok' pen show ?thesis using True Some iid pre(2) wl d(2)
      by (intro exI[of _ ?p] exI[of _ "Some (prepare_message (po_id p) ?inst)"]) (auto simp: keeps_def)
  qed
qed

section \<open>Timeouts\<close>

lemma next_timedout_from_spec:
  "next_timedout_from cfg h ks t = Some k \<Longrightarrow> k \<in> set ks \<and> (\<exists>key inst. buckets h ! k = Full key inst \<and>
     \<not> quorum_reached (pi_quorum inst) \<and> instance_has_timedout cfg inst t)"
  by (induction ks) (auto split: bucket.splits if_splits)

lemma next_timedout_spec:
  assumes "table_ok n pid mx h" "next_timedout cfg h k t = (j, Some inst)"
  shows "kh_lookup h (pi_iid inst) = Some inst" "inst_ok n pid (pi_iid inst) inst"
    "\<not> quorum_reached (pi_quorum inst)" "instance_has_timedout cfg inst t"
proof -
  obtain key where b: "j < n_buckets h" "buckets h ! j = Full key inst" and
    t: "\<not> quorum_reached (pi_quorum inst)" "instance_has_timedout cfg inst t"
    using assms(2) next_timedout_from_spec[of cfg h "[k..<n_buckets h]" t]
    by (fastforce simp: next_timedout_def split: option.splits bucket.splits)
  have lk: "kh_lookup h key = Some inst" using kh_lookup_iff[OF table_okD(1)[OF assms(1)]] b by blast
  then have "inst_ok n pid key inst" "pi_iid inst = key" using table_okD(2)[OF assms(1)] by (auto simp: inst_ok_def)
  with lk t show "kh_lookup h (pi_iid inst) = Some inst" "inst_ok n pid (pi_iid inst) inst"
    "\<not> quorum_reached (pi_quorum inst)" "instance_has_timedout cfg inst t" by simp_all
qed

lemma timeout_prepare_ok:
  assumes p: "proposer_ok p" and run: "timeout_iterator_prepare cfg p it = (p', it', out)"
  shows "keeps p p' \<and> pending p' = pending p \<and> po_next_prepare_iid p' = po_next_prepare_iid p"
proof (cases "next_timedout cfg (po_prepare_instances p) (ti_pi it) (ti_timeout it)")
  case (Pair k r)
  show ?thesis
  proof (cases r)
    case None
    then show ?thesis using Pair run p by (auto simp: timeout_iterator_prepare_def keeps_def)
  next
    case (Some inst)
    note tm = next_timedout_spec[OF proposer_okD(4)[OF p] Pair[unfolded Some]]
    let ?inst = "inst\<lparr>pi_created_at := ti_timeout it\<rparr>"
    have iok: "inst_ok (po_acceptors p) (po_id p) (pi_iid inst) ?inst" using tm(2) by (simp add: inst_ok_def)
    note w = table_ok_write[OF proposer_okD(4)[OF p] tm(1) iok]
    have p': "p' = p\<lparr>po_prepare_instances := kh_write (po_prepare_instances p) (pi_iid inst) ?inst\<rparr>"
      using Pair Some run by (auto simp: timeout_iterator_prepare_def)
    have "proposer_ok p'" using p w tm(1) by (auto simp: proposer_ok_def p')
    moreover have "pending p' = pending p"
      using map_values_same[OF proposer_okD(9)[OF p] tm(1), of ?inst] w(2) by (simp add: pending_def val_mset_def p')
    ultimately show ?thesis by (simp add: keeps_def p')
  qed
qed

lemma timeout_accept_ok:
  assumes p: "proposer_ok p"
  shows "\<exists>p' it' out. timeout_iterator_accept cfg p it = Inr (p', it', out) \<and> keeps p p' \<and> pending p' = pending p \<and>
    po_next_prepare_iid p' = po_next_prepare_iid p"
proof (cases "next_timedout cfg (po_accept_instances p) (ti_ai it) (ti_timeout it)")
  case (Pair k r)
  show ?thesis
  proof (cases r)
    case None
    then show ?thesis using Pair p by (auto simp: timeout_iterator_accept_def keeps_def)
  next
    case (Some inst)
    note tm = next_timedout_spec[OF proposer_okD(5)[OF p] Pair[unfolded Some]]
    let ?inst = "inst\<lparr>pi_created_at := ti_timeout it\<rparr>"
    have iok: "inst_ok (po_acceptors p) (po_id p) (pi_iid inst) ?inst" using tm(2) by (simp add: inst_ok_def)
    note w = table_ok_write[OF proposer_okD(5)[OF p] tm(1) iok]
    let ?p = "p\<lparr>po_accept_instances := kh_write (po_accept_instances p) (pi_iid inst) ?inst\<rparr>"
    have val: "inst_valued inst" by (rule proposer_okD(6)[OF p tm(1)])
    then obtain v where v: "accept_value inst = Some v" by (auto simp: accept_value_valued)
    have "inst_valued ?inst" using val by (simp add: inst_valued_def instance_has_value_def instance_has_promised_value_def)
    then have "proposer_ok ?p" using p w tm(1) by (auto simp: proposer_ok_def)
    moreover have "pending ?p = pending p"
      using map_values_same[OF proposer_okD(10)[OF p] tm(1), of ?inst] w(2) by (simp add: pending_def val_mset_def)
    ultimately show ?thesis using Pair Some instance_to_accept_ok[OF v, of p]
      by (simp add: timeout_iterator_accept_def keeps_def)
  qed
qed

end
