(* ===== verification/Proposer_Safety.thy ===== *)
theory Proposer_Safety
  imports Proposer_Inv
begin

text \<open>
  The proposer as a state machine over everything that can happen to it, and its properties: no
  assertion fails, client values are neither lost nor duplicated, an accept request follows a quorum
  of promises, and ballots of different proposers stay apart.
\<close>

section \<open>Steps\<close>

datatype proposer_event =
    PePropose "u8 list"
  | PeSetId iid_t
  | PePrepare timeval
  | PePromise timeval paxos_promise
  | PeAccept
  | PeAccepted paxos_accepted
  | PePreempted timeval paxos_preempted
  | PeState paxos_acceptor_state
  | PeTimeoutPrepare paxos_config timeout_iterator
  | PeTimeoutAccept paxos_config timeout_iterator

fun proposer_step :: "proposer_event \<Rightarrow> proposer \<Rightarrow> (proposer \<times> paxos_message option) res" where
  "proposer_step (PePropose bs) p = bind_res (proposer_propose p (Some bs) (int (length bs))) (\<lambda>p. Inr (p, None))"
| "proposer_step (PeSetId iid) p = bind_res (proposer_set_instance_id p iid) (\<lambda>p. Inr (p, None))"
| "proposer_step (PePrepare now) p = bind_res (proposer_prepare now p) (\<lambda>(p, m). Inr (p, Some (PAXOS_PREPARE m)))"
| "proposer_step (PePromise now ack) p =
     bind_res (proposer_receive_promise now p ack) (\<lambda>(p, m). Inr (p, map_option PAXOS_PREPARE m))"
| "proposer_step PeAccept p = bind_res (proposer_accept p) (\<lambda>(p, m). Inr (p, map_option PAXOS_ACCEPT m))"
| "proposer_step (PeAccepted ack) p = bind_res (proposer_receive_accepted p ack) (\<lambda>(p, _). Inr (p, None))"
| "proposer_step (PePreempted now ack) p =
     bind_res (proposer_receive_preempted now p ack) (\<lambda>(p, m). Inr (p, map_option PAXOS_PREPARE m))"
| "proposer_step (PeState st) p = bind_res (proposer_receive_acceptor_state p st) (\<lambda>p. Inr (p, None))"
| "proposer_step (PeTimeoutPrepare cfg it) p =
     (case timeout_iterator_prepare cfg p it of (p, it, m) \<Rightarrow> Inr (p, map_option PAXOS_PREPARE m))"
| "proposer_step (PeTimeoutAccept cfg it) p =
     bind_res (timeout_iterator_accept cfg p it) (\<lambda>(p, it, m). Inr (p, map_option PAXOS_ACCEPT m))"

text \<open>Well-formed messages of acceptors of a system of \<open>n\<close>; a prepare needs an instance number left.\<close>

fun pevent_ok :: "proposer_event \<Rightarrow> proposer \<Rightarrow> bool" where
  "pevent_ok (PePrepare now) p = (po_next_prepare_iid p + 1 \<noteq> 0)"
| "pevent_ok (PePromise now ack) p = promise_for (po_acceptors p) ack"
| "pevent_ok (PeAccepted ack) p = accepted_for (po_acceptors p) ack"
| "pevent_ok e p = True"

inductive proposer_reachable :: "int \<Rightarrow> int \<Rightarrow> proposer \<Rightarrow> bool" for pid n where
  reach_new: "0 \<le> n \<Longrightarrow> proposer_reachable pid n (proposer_new pid n)"
| reach_step: "proposer_reachable pid n p \<Longrightarrow> pevent_ok e p \<Longrightarrow> proposer_step e p = Inr (p', m) \<Longrightarrow>
     proposer_reachable pid n p'"

text \<open>What an event adds to the client values.\<close>

fun offered :: "proposer_event \<Rightarrow> paxos_value multiset" where
  "offered (PePropose bs) = {#\<lparr>pv_len = int (length bs), pv_val = Some bs\<rparr>#}"
| "offered e = {#}"

text \<open>
  The values a step finishes with: those of an instance that closes because a majority accepted it,
  unless another value was chosen for it.
\<close>

definition finished :: "proposer_event \<Rightarrow> proposer \<Rightarrow> paxos_value multiset \<Rightarrow> bool" where
  "finished e p d \<longleftrightarrow> d = {#} \<or>
     (\<exists>ack inst x xs. e = PeAccepted ack \<and> kh_lookup (po_accept_instances p) (ac_iid ack) = Some inst \<and>
        ac_aids ack = Some (x # xs) \<and> hd (the (ac_ballots ack)) = pi_ballot inst \<and>
        po_acceptors p div 2 < int (card (insert (int_of_u32 x) (quorum_members (pi_quorum inst)))) \<and>
        \<not> requeued inst \<and> d = val_mset inst)"

lemma proposer_step_ok:
  assumes p: "proposer_ok p" and e: "pevent_ok e p"
  shows "\<exists>p' m d. proposer_step e p = Inr (p', m) \<and> keeps p p' \<and> pending p' + d = pending p + offered e \<and> finished e p d"
proof (cases e)
  case (PePropose bs)
  with propose_ok[OF p, of "int (length bs)" bs] show ?thesis by (auto simp: finished_def)
next
  case (PeSetId iid)
  with set_instance_id_ok[OF p, of iid] show ?thesis by (auto simp: finished_def)
next
  case (PePrepare now)
  with prepare_ok[OF p, of now] e show ?thesis by (auto simp: finished_def)
next
  case (PePromise now ack)
  with receive_promise_ok[OF p, of ack now] e show ?thesis by (auto simp: finished_def)
next
  case PeAccept
  with proposer_accept_ok[OF p] show ?thesis by (auto simp: finished_def)
next
  case (PeAccepted ack)
  then have ack: "accepted_for (po_acceptors p) ack" using e by simp
  obtain p' rv where run: "proposer_receive_accepted p ack = Inr (p', rv)" "keeps p p'" and
    c: "pending p' = pending p \<or> (\<exists>inst x xs. kh_lookup (po_accept_instances p) (ac_iid ack) = Some inst \<and>
       ac_aids ack = Some (x # xs) \<and> hd (the (ac_ballots ack)) = pi_ballot inst \<and>
       po_acceptors p div 2 < int (card (insert (int_of_u32 x) (quorum_members (pi_quorum inst)))) \<and>
       pending p' + served inst = pending p)"
    using receive_accepted_ok[OF p ack] by blast
  from c have "\<exists>d. pending p' + d = pending p \<and> finished e p d"
  proof
    assume "pending p' = pending p"
    then show ?thesis by (auto simp: finished_def)
  next
    assume "\<exists>inst x xs. kh_lookup (po_accept_instances p) (ac_iid ack) = Some inst \<and>
       ac_aids ack = Some (x # xs) \<and> hd (the (ac_ballots ack)) = pi_ballot inst \<and>
       po_acceptors p div 2 < int (card (insert (int_of_u32 x) (quorum_members (pi_quorum inst)))) \<and>
       pending p' + served inst = pending p"
    then obtain inst x xs where i: "kh_lookup (po_accept_instances p) (ac_iid ack) = Some inst"
      "ac_aids ack = Some (x # xs)" "hd (the (ac_ballots ack)) = pi_ballot inst"
      "po_acceptors p div 2 < int (card (insert (int_of_u32 x) (quorum_members (pi_quorum inst))))"
      "pending p' + served inst = pending p" by blast
    have "finished e p (served inst)"
      using i PeAccepted by (cases "requeued inst") (auto simp: finished_def served_def)
    with i(5) show ?thesis by blast
  qed
  with run PeAccepted show ?thesis by auto
next
  case (PePreempted now ack)
  with receive_preempted_ok[OF p, of now ack] show ?thesis by (auto simp: finished_def)
next
  case (PeState st)
  with receive_state_ok[OF p, of st] show ?thesis by (auto simp: finished_def)
next
  case (PeTimeoutPrepare cfg it)
  obtain p' it' out where t: "timeout_iterator_prepare cfg p it = (p', it', out)" by (metis surj_pair)
  with timeout_prepare_ok[OF p t] PeTimeoutPrepare show ?thesis by (auto simp: finished_def)
next
  case (PeTimeoutAccept cfg it)
  with timeout_accept_ok[OF p, of cfg it] show ?thesis by (auto simp: finished_def)
qed

lemma proposer_reachable_ok:
  "proposer_reachable pid n p \<Longrightarrow> proposer_ok p \<and> po_id p = pid \<and> po_acceptors p = n"
proof (induction rule: proposer_reachable.induct)
  case reach_new
  then show ?case using proposer_new_ok[of n pid] by (simp add: proposer_new_def)
next
  case (reach_step p e p' m)
  then show ?case using proposer_step_ok[of p e] by (auto simp: keeps_def)
qed

section \<open>Properties\<close>

text \<open>
  C12: the proposer never fails. In every reachable state, every operation on well-formed input runs
  to its end: no \<^verbatim>\<open>assert\<close> fails (an instance is never in both tables, never moved to a table that
  already has it), no NULL value is sent and no array is left, and the state stays reachable. For a
  new instance the 32-bit counter of instances must not be used up.
\<close>

theorem proposer_never_fails:
  assumes "proposer_reachable pid n p" "pevent_ok e p"
  shows "\<exists>p' m. proposer_step e p = Inr (p', m) \<and> proposer_reachable pid n p' \<and>
    dom (kh_lookup (po_prepare_instances p')) \<inter> dom (kh_lookup (po_accept_instances p')) = {}"
proof -
  have "proposer_ok p" using proposer_reachable_ok[OF assms(1)] by simp
  then obtain p' m where s: "proposer_step e p = Inr (p', m)" "keeps p p'"
    using proposer_step_ok[OF _ assms(2)] by blast
  with reach_step[OF assms s(1)] show ?thesis by (auto simp: keeps_def proposer_ok_def)
qed

theorem proposer_never_fails_witness:
  "\<exists>p' m. proposer_step (PePrepare \<lparr>tv_sec = 0, tv_usec = 0\<rparr>) (proposer_new 1 3) = Inr (p', m) \<and> proposer_reachable 1 3 p'"
  using proposer_never_fails[OF reach_new[of 3 1], of "PePrepare \<lparr>tv_sec = 0, tv_usec = 0\<rparr>"]
  by (auto simp: proposer_new_def)



section \<open>Concrete proposers\<close>

text \<open>Proposer 1 of a system with one acceptor after the events \<open>es\<close>.\<close>

fun proposer_run :: "proposer_event list \<Rightarrow> proposer \<Rightarrow> proposer res" where
  "proposer_run [] p = Inr p"
| "proposer_run (e # es) p =
     (if pevent_ok e p then bind_res (proposer_step e p) (\<lambda>(p, m). proposer_run es p) else Inl BadCall)"

lemma proposer_run_reachable:
  "proposer_run es p = Inr p' \<Longrightarrow> proposer_reachable pid n p \<Longrightarrow> proposer_reachable pid n p'"
proof (induction es arbitrary: p)
  case Nil
  then show ?case by simp
next
  case (Cons e es)
  then obtain q m where "pevent_ok e p" "proposer_step e p = Inr (q, m)" "proposer_run es q = Inr p'"
    by (auto simp: bind_res_Inr_iff split: if_splits)
  with Cons reach_step show ?case by blast
qed

definition demo_time :: timeval where
  "demo_time = \<lparr>tv_sec = 0, tv_usec = 0\<rparr>"

definition demo_ack :: paxos_promise where
  "demo_ack = \<lparr>pr_src = 1, pr_iid = 1, pr_ballot_0 = 1001, pr_value_ballot_0 = 1001, pr_n_aids = 1,
     pr_aids = Some [0], pr_value_0 = value_zero, pr_values = Some [\<lparr>pv_len = 1, pv_val = Some [9]\<rparr>],
     pr_ballots = Some [1001], pr_value_ballots = Some [7]\<rparr>"

definition demo_proposer :: "proposer_event list \<Rightarrow> proposer" where
  "demo_proposer es = (case proposer_run es (proposer_new 1 1) of Inr p \<Rightarrow> p | Inl _ \<Rightarrow> proposer_new 1 1)"

lemma demo_run_reachable:
  "proposer_reachable pid 1 (case proposer_run es (proposer_new pid 1) of Inr p \<Rightarrow> p | Inl _ \<Rightarrow> proposer_new pid 1)"
proof -
  have "proposer_reachable pid 1 (proposer_new pid 1)" by (rule reach_new) simp
  then show ?thesis using proposer_run_reachable by (auto split: sum.splits)
qed

lemma demo_proposer_reachable: "proposer_reachable 1 1 (demo_proposer es)"
  unfolding demo_proposer_def by (rule demo_run_reachable)

section \<open>Phase 1 and phase 2\<close>

text \<open>
  C13: an accept request follows a quorum of promises. Whenever the proposer sends an accept request,
  the instance was waiting in phase 1, it is the smallest such instance, more than half of the
  acceptors had promised its current ballot, the request carries this ballot, and its value is the
  value promised with the highest value ballot if an acceptor reported one and otherwise the client
  value of the instance, or else the oldest value of the queue; the instance then waits in phase 2
  with an empty quorum.
\<close>

theorem accept_needs_quorum:
  assumes "proposer_reachable pid n p" "proposer_accept p = Inr (p', Some a)"
  shows "\<exists>inst. kh_lookup (po_prepare_instances p) (pa_iid a) = Some inst \<and>
    (\<forall>i \<in> dom (kh_lookup (po_prepare_instances p)). pa_iid a \<le> i) \<and>
    n div 2 < int (card (quorum_members (pi_quorum inst))) \<and> quorum_members (pi_quorum inst) \<subseteq> {0..<n} \<and>
    pa_ballot a = pi_ballot inst \<and> accept_value (taken p inst) = Some (pa_value a) \<and>
    kh_lookup (po_prepare_instances p') (pa_iid a) = None \<and>
    kh_lookup (po_accept_instances p') (pa_iid a) = Some (cleared (taken p inst))"
proof -
  have p: "proposer_ok p" "po_acceptors p = n" using proposer_reachable_ok[OF assms(1)] by simp_all
  obtain inst where i: "kh_lookup (po_prepare_instances p) (pa_iid a) = Some inst"
    "\<forall>i \<in> dom (kh_lookup (po_prepare_instances p)). pa_iid a \<le> i" "quorum_reached (pi_quorum inst)"
    "pa_ballot a = pi_ballot inst" "accept_value (taken p inst) = Some (pa_value a)"
    "kh_lookup (po_prepare_instances p') = (kh_lookup (po_prepare_instances p))(pa_iid a := None)"
    "kh_lookup (po_accept_instances p') = (kh_lookup (po_accept_instances p))(pa_iid a \<mapsto> cleared (taken p inst))"
    using proposer_accept_ok[OF p(1)] assms(2) by auto
  have q: "quorum_ok n (pi_quorum inst)"
    using table_okD(2)[OF proposer_okD(4)[OF p(1)] i(1)] p(2) by (simp add: inst_ok_def)
  then have "quorum_members (pi_quorum inst) \<subseteq> {0..<n}"
    using quorum_members_subset[of "pi_quorum inst"] by (simp add: quorum_ok_def)
  with i q show ?thesis using quorum_reached_iff[OF q] by (intro exI[of _ inst]) simp
qed

definition demo_quorate :: proposer where
  "demo_quorate = demo_proposer [PePrepare demo_time, PePropose [1, 2], PePromise demo_time demo_ack]"

theorem accept_needs_quorum_witness:
  "\<exists>p' a inst. proposer_accept demo_quorate = Inr (p', Some a) \<and>
     kh_lookup (po_prepare_instances demo_quorate) (pa_iid a) = Some inst \<and>
     0 < int (card (quorum_members (pi_quorum inst))) \<and> accept_value (taken demo_quorate inst) = Some (pa_value a)"
proof -
  have "case proposer_accept demo_quorate of Inr (p', Some a) \<Rightarrow> True | _ \<Rightarrow> False" by code_simp
  then obtain p' a where a: "proposer_accept demo_quorate = Inr (p', Some a)"
    by (auto split: sum.splits prod.splits option.splits)
  with accept_needs_quorum[OF demo_proposer_reachable a[unfolded demo_quorate_def]] show ?thesis
    unfolding demo_quorate_def by auto
qed

text \<open>The entries of a promise that carry a value: value ballot and value.\<close>

definition promise_votes :: "paxos_promise \<Rightarrow> nat list \<Rightarrow> (ballot_t \<times> paxos_value) set" where
  "promise_votes ack js = {(the (pr_value_ballots ack) ! j, the (pr_values ack) ! j) | j.
     j \<in> set js \<and> 0 < pv_len (the (pr_values ack) ! j)}"

text \<open>\<open>inst'\<close> is \<open>inst\<close> after the votes \<open>V\<close>: the highest value ballot wins, ties keep what is there.\<close>

definition best_vote :: "(ballot_t \<times> paxos_value) set \<Rightarrow> pinstance \<Rightarrow> pinstance \<Rightarrow> bool" where
  "best_vote V inst inst' \<longleftrightarrow>
     pi_value_ballot inst \<le> pi_value_ballot inst' \<and> (\<forall>vb v. (vb, v) \<in> V \<longrightarrow> vb \<le> pi_value_ballot inst') \<and>
     (pi_value_ballot inst' = pi_value_ballot inst \<and> pi_promised_value inst' = pi_promised_value inst \<or>
      (\<exists>vb v. (vb, v) \<in> V \<and> pi_value_ballot inst < vb \<and> vb = pi_value_ballot inst' \<and>
         pi_promised_value inst' = Some \<lparr>pv_len = pv_len v, pv_val = Some (take (nat (pv_len v)) (the (pv_val v)))\<rparr>))"

lemma promise_for_reads:
  assumes "promise_for n ack" "j < unat (pr_n_aids ack)"
  shows "aread (pr_ballots ack) j = Inr (the (pr_ballots ack) ! j)" "aread (pr_aids ack) j = Inr (the (pr_aids ack) ! j)"
    "aread (pr_values ack) j = Inr (the (pr_values ack) ! j)"
    "aread (pr_value_ballots ack) j = Inr (the (pr_value_ballots ack) ! j)"
    "aid_ok n (the (pr_aids ack) ! j)" "value_ok (the (pr_values ack) ! j)"
proof -
  obtain as bs vs vbs where m: "pr_aids ack = Some as" "pr_ballots ack = Some bs" "pr_values ack = Some vs"
    "pr_value_ballots ack = Some vbs" "length as = unat (pr_n_aids ack)" "length bs = unat (pr_n_aids ack)"
    "length vs = unat (pr_n_aids ack)" "length vbs = unat (pr_n_aids ack)" "\<forall>v \<in> set vs. value_ok v"
    "\<forall>x \<in> set as. aid_ok n x"
    using assms(1) by (auto simp: promise_for_def promise_ok_def arr_len_iff)
  show "aread (pr_ballots ack) j = Inr (the (pr_ballots ack) ! j)" using m assms(2) by simp
  show "aread (pr_aids ack) j = Inr (the (pr_aids ack) ! j)" using m assms(2) by simp
  show "aread (pr_values ack) j = Inr (the (pr_values ack) ! j)" using m assms(2) by simp
  show "aread (pr_value_ballots ack) j = Inr (the (pr_value_ballots ack) ! j)" using m assms(2) by simp
  show "aid_ok n (the (pr_aids ack) ! j)" using m assms(2) by simp
  show "value_ok (the (pr_values ack) ! j)" using m assms(2) by simp
qed

lemma promise_value_best:
  assumes ack: "promise_for n ack" and j: "j < unat (pr_n_aids ack)"
  shows "\<exists>inst'. promise_value ack j inst = Inr inst' \<and> best_vote (promise_votes ack [j]) inst inst' \<and>
    pi_ballot inst' = pi_ballot inst \<and> pi_quorum inst' = pi_quorum inst"
proof -
  let ?v = "the (pr_values ack) ! j" and ?vb = "the (pr_value_ballots ack) ! j"
  have r: "aread (pr_values ack) j = Inr ?v" "value_ok ?v" "aread (pr_value_ballots ack) j = Inr ?vb"
    using promise_for_reads[OF ack j] by simp_all
  have new: "paxos_value_new (pv_val ?v) (pv_len ?v) = Inr \<lparr>pv_len = pv_len ?v, pv_val = Some (take (nat (pv_len ?v)) (the (pv_val ?v)))\<rparr>"
    if "0 < pv_len ?v"
    using r(2) that by (auto simp: value_ok_cases paxos_value_new_def copy_bytes_def acopy_def nat_le_iff)
  show ?thesis
  proof (cases "0 < pv_len ?v \<and> ?vb > pi_value_ballot inst")
    case True
    then show ?thesis using r new by (auto simp: promise_value_def best_vote_def promise_votes_def)
  next
    case False
    then have "promise_value ack j inst = Inr inst" using r by (auto simp: promise_value_def)
    moreover have "best_vote (promise_votes ack [j]) inst inst"
      using False by (auto simp: best_vote_def promise_votes_def not_less)
    ultimately show ?thesis by blast
  qed
qed

lemma best_vote_trans:
  assumes "best_vote V inst inst1" "best_vote W inst1 inst2"
  shows "best_vote (V \<union> W) inst inst2"
proof -
  let ?b = "pi_value_ballot" and ?p = "pi_promised_value"
  let ?w = "\<lambda>v. Some \<lparr>pv_len = pv_len v, pv_val = Some (take (nat (pv_len v)) (the (pv_val v)))\<rparr>"
  have le: "?b inst \<le> ?b inst1" "?b inst1 \<le> ?b inst2" using assms by (simp_all add: best_vote_def)
  have bound: "vb \<le> ?b inst2" if "(vb, v) \<in> V \<union> W" for vb v
    using that assms le unfolding best_vote_def by (meson Un_iff order_trans)
  have c1: "?b inst1 = ?b inst \<and> ?p inst1 = ?p inst \<or> (\<exists>vb v. (vb, v) \<in> V \<and> ?b inst < vb \<and> vb = ?b inst1 \<and> ?p inst1 = ?w v)"
    and c2: "?b inst2 = ?b inst1 \<and> ?p inst2 = ?p inst1 \<or> (\<exists>vb v. (vb, v) \<in> W \<and> ?b inst1 < vb \<and> vb = ?b inst2 \<and> ?p inst2 = ?w v)"
    using assms unfolding best_vote_def by blast+
  from c2 have "?b inst2 = ?b inst \<and> ?p inst2 = ?p inst \<or>
      (\<exists>vb v. (vb, v) \<in> V \<union> W \<and> ?b inst < vb \<and> vb = ?b inst2 \<and> ?p inst2 = ?w v)"
  proof
    assume "?b inst2 = ?b inst1 \<and> ?p inst2 = ?p inst1"
    with c1 show ?thesis by auto
  next
    assume "\<exists>vb v. (vb, v) \<in> W \<and> ?b inst1 < vb \<and> vb = ?b inst2 \<and> ?p inst2 = ?w v"
    with le(1) show ?thesis by (meson Un_iff le_less_trans)
  qed
  with le bound show ?thesis unfolding best_vote_def by (blast intro: order_trans)
qed

lemma promise_votes_Cons: "promise_votes ack (j # js) = promise_votes ack [j] \<union> promise_votes ack js"
  by (auto simp: promise_votes_def)

lemma promise_loop_best:
  assumes ack: "promise_for n ack" and "quorum_ok n (pi_quorum inst)"
    "\<forall>j \<in> set js. j < unat (pr_n_aids ack) \<and> the (pr_ballots ack) ! j = pi_ballot inst"
  shows "\<exists>inst'. promise_loop now pid ack js (inst, out) = Inr (inst', out) \<and>
    best_vote (promise_votes ack js) inst inst' \<and> pi_ballot inst' = pi_ballot inst \<and> quorum_ok n (pi_quorum inst') \<and>
    quorum_members (pi_quorum inst') = quorum_members (pi_quorum inst) \<union> (\<lambda>j. int_of_u32 (the (pr_aids ack) ! j)) ` set js"
  using assms(2,3)
proof (induction js arbitrary: inst)
  case Nil
  then show ?case by (simp add: best_vote_def promise_votes_def)
next
  case (Cons j js)
  have j: "j < unat (pr_n_aids ack)" "the (pr_ballots ack) ! j = pi_ballot inst" using Cons.prems(2) by simp_all
  let ?x = "the (pr_aids ack) ! j"
  have r: "aread (pr_ballots ack) j = Inr (pi_ballot inst)" "aread (pr_aids ack) j = Inr ?x" "aid_ok n ?x"
    using promise_for_reads[OF ack j(1)] j(2) by simp_all
  obtain q a where q: "quorum_add (pi_quorum inst) (int_of_u32 ?x) = Inr (q, a)" "quorum_ok n q"
    "quorum_members q = insert (int_of_u32 ?x) (quorum_members (pi_quorum inst))"
    using quorum_add_spec[OF Cons.prems(1)] r(3) unfolding aid_ok_def by blast
  obtain inst1 where i1: "promise_value ack j (inst\<lparr>pi_quorum := q\<rparr>) = Inr inst1"
    "best_vote (promise_votes ack [j]) (inst\<lparr>pi_quorum := q\<rparr>) inst1" "pi_ballot inst1 = pi_ballot inst" "pi_quorum inst1 = q"
    using promise_value_best[OF ack j(1), of "inst\<lparr>pi_quorum := q\<rparr>"] by auto
  have bv: "best_vote (promise_votes ack [j]) inst inst1" using i1(2) by (simp add: best_vote_def)
  have e: "promise_entry now pid ack j (inst, out) = Inr (inst1, out)" using r q(1) i1(1) by (simp add: promise_entry_def)
  obtain inst2 where i2: "promise_loop now pid ack js (inst1, out) = Inr (inst2, out)"
    "best_vote (promise_votes ack js) inst1 inst2" "pi_ballot inst2 = pi_ballot inst1" "quorum_ok n (pi_quorum inst2)"
    "quorum_members (pi_quorum inst2) = quorum_members (pi_quorum inst1) \<union> (\<lambda>j. int_of_u32 (the (pr_aids ack) ! j)) ` set js"
    using Cons.IH[of inst1] i1(3,4) q(2) Cons.prems(2) by auto
  have "best_vote (promise_votes ack (j # js)) inst inst2"
    unfolding promise_votes_Cons[of ack j js] by (rule best_vote_trans[OF bv i2(2)])
  with e i2 i1(3,4) q(3) show ?case by auto
qed

text \<open>
  C18: promises are counted and the most recent vote wins. For an instance in phase 1 and a
  well-formed promise all of whose entries are for the instance's ballot, the acceptors counted
  afterwards are those counted before and those the promise names (an acceptor counts once), the
  value ballot is the highest of the old one and those of the entries with a value, and the promised
  value is a copy of a value with that ballot, or the old one when no entry had a higher ballot.
\<close>

theorem promises_select_highest_vote:
  assumes "proposer_reachable pid n p" "promise_for n ack"
    "kh_lookup (po_prepare_instances p) (pr_iid ack) = Some inst"
    "\<forall>j < unat (pr_n_aids ack). the (pr_ballots ack) ! j = pi_ballot inst"
  shows "\<exists>p' inst'. proposer_receive_promise now p ack = Inr (p', None) \<and>
    kh_lookup (po_prepare_instances p') (pr_iid ack) = Some inst' \<and>
    best_vote (promise_votes ack [0..<unat (pr_n_aids ack)]) inst inst' \<and>
    quorum_members (pi_quorum inst') = quorum_members (pi_quorum inst) \<union> int_of_u32 ` set (the (pr_aids ack)) \<and>
    (quorum_reached (pi_quorum inst') \<longleftrightarrow> n div 2 < int (card (quorum_members (pi_quorum inst'))))"
proof -
  have p: "proposer_ok p" "po_acceptors p = n" using proposer_reachable_ok[OF assms(1)] by simp_all
  note tab = proposer_okD(4)[OF p(1)]
  have iok: "inst_ok n (po_id p) (pr_iid ack) inst" using table_okD(2)[OF tab assms(3)] p(2) by simp
  let ?js = "[0..<unat (pr_n_aids ack)]"
  obtain inst' where l: "promise_loop now (po_id p) ack ?js (inst, None) = Inr (inst', None)"
    "best_vote (promise_votes ack ?js) inst inst'" "quorum_ok n (pi_quorum inst')"
    "quorum_members (pi_quorum inst') = quorum_members (pi_quorum inst) \<union> (\<lambda>j. int_of_u32 (the (pr_aids ack) ! j)) ` set ?js"
    using promise_loop_best[OF assms(2), of inst ?js now "po_id p" None] iok assms(4) unfolding inst_ok_def by auto
  have "length (the (pr_aids ack)) = unat (pr_n_aids ack)"
    using assms(2) by (auto simp: promise_for_def promise_ok_def arr_len_iff)
  then have aids: "(\<lambda>j. int_of_u32 (the (pr_aids ack) ! j)) ` set ?js = int_of_u32 ` set (the (pr_aids ack))"
    by (force simp: in_set_conv_nth)
  have "inst_ok (po_acceptors p) (po_id p) (pr_iid ack) inst'"
    using promise_loop_ok[OF assms(2) _ iok, of ?js now None] l(1) p(2) by auto
  note w = table_ok_write[OF tab assms(3) this]
  show ?thesis using l aids assms(3) w(2) quorum_reached_iff[OF l(3)]
    by (simp add: proposer_receive_promise_def)
qed

theorem promises_select_highest_vote_witness:
  "\<exists>p' inst'. proposer_receive_promise demo_time (demo_proposer [PePrepare demo_time]) demo_ack = Inr (p', None) \<and>
     kh_lookup (po_prepare_instances p') 1 = Some inst' \<and> quorum_reached (pi_quorum inst') \<and>
     pi_promised_value inst' = Some \<lparr>pv_len = 1, pv_val = Some [9]\<rparr>"
proof -
  let ?p = "demo_proposer [PePrepare demo_time]"
  have "case kh_lookup (po_prepare_instances ?p) 1 of Some inst \<Rightarrow> pi_ballot inst = 1001 \<and> pi_value_ballot inst = 0 | None \<Rightarrow> False"
    by code_simp
  then obtain inst where i: "kh_lookup (po_prepare_instances ?p) (pr_iid demo_ack) = Some inst" "pi_ballot inst = 1001" "pi_value_ballot inst = 0"
    by (auto simp: demo_ack_def split: option.splits)
  have ack: "promise_for 1 demo_ack" by code_simp
  have b: "\<forall>j < unat (pr_n_aids demo_ack). the (pr_ballots demo_ack) ! j = pi_ballot inst"
    using i(2) by (simp add: demo_ack_def)
  have v: "promise_votes demo_ack [0..<unat (pr_n_aids demo_ack)] = {(7, \<lparr>pv_len = 1, pv_val = Some [9]\<rparr>)}"
    by (auto simp: promise_votes_def demo_ack_def)
  have m: "int_of_u32 ` set (the (pr_aids demo_ack)) = {0}" "pr_iid demo_ack = 1" by (simp_all add: demo_ack_def int_of_u32_def)
  from promises_select_highest_vote[OF demo_proposer_reachable ack i(1) b, of demo_time] show ?thesis
    unfolding v m best_vote_def using i(3) by (fastforce simp: card_gt_0_iff)
qed

section \<open>Preemption and ballots\<close>

text \<open>
  C25: a preempted instance is retried. When an acceptor answers the accept request of an open instance
  with a higher ballot, the proposer moves the instance back to phase 1: it prepares the same instance
  under its own next ballot, which belongs to this proposer again and is \<open>1000\<close> higher, keeps the client value, forgets the promised value and
  counts no acceptor; a preempted message with a ballot that is not higher changes nothing.
\<close>

theorem preempted_instance_retried:
  assumes "proposer_reachable pid n p" "kh_lookup (po_accept_instances p) (pe_iid ack) = Some inst"
  shows "if pi_ballot inst < pe_ballot ack
    then \<exists>p' inst' m. proposer_receive_preempted now p ack = Inr (p', Some m) \<and>
      kh_lookup (po_accept_instances p') = (kh_lookup (po_accept_instances p))(pe_iid ack := None) \<and>
      kh_lookup (po_prepare_instances p') = (kh_lookup (po_prepare_instances p))(pe_iid ack \<mapsto> inst') \<and>
      pi_ballot inst' = proposer_next_ballot pid (pi_ballot inst) \<and> own_ballot pid (pi_ballot inst') \<and>
      (0 < pi_ballot inst \<longrightarrow> pi_ballot inst' = pi_ballot inst + 1000) \<and>
      pi_value inst' = pi_value inst \<and> pi_promised_value inst' = None \<and> quorum_members (pi_quorum inst') = {} \<and>
      pp_iid m = pe_iid ack \<and> pp_ballot m = pi_ballot inst' \<and> pending p' = pending p
    else proposer_receive_preempted now p ack = Inr (p, None)"
proof -
  have p: "proposer_ok p" "po_id p = pid" using proposer_reachable_ok[OF assms(1)] by simp_all
  have own: "own_ballot pid (proposer_next_ballot pid (pi_ballot inst))"
    using table_okD(2)[OF proposer_okD(5)[OF p(1)] assms(2)] p(2) next_ballot_own(2) by (simp add: inst_ok_def)
  have up: "0 < pi_ballot inst \<Longrightarrow> proposer_next_ballot pid (pi_ballot inst) = pi_ballot inst + 1000"
    by (simp add: proposer_next_ballot_def MAX_N_OF_PROPOSERS_def)
  note r = receive_preempted_ok[OF p(1), of now ack, unfolded assms(2) option.case p(2)]
  show ?thesis
  proof (cases "pi_ballot inst < pe_ballot ack")
    case True
    then obtain p' inst' where q: "proposer_receive_preempted now p ack = Inr (p', Some (prepare_message pid inst'))"
      "pending p' = pending p" "pi_iid inst' = pe_iid ack"
      "pi_ballot inst' = proposer_next_ballot pid (pi_ballot inst)"
      "pi_value inst' = pi_value inst" "pi_promised_value inst' = None" "quorum_members (pi_quorum inst') = {}"
      "kh_lookup (po_prepare_instances p') = (kh_lookup (po_prepare_instances p))(pe_iid ack \<mapsto> inst')"
      "kh_lookup (po_accept_instances p') = (kh_lookup (po_accept_instances p))(pe_iid ack := None)"
      using r by auto
    have "pp_iid (prepare_message pid inst') = pe_iid ack" "pp_ballot (prepare_message pid inst') = pi_ballot inst'"
      using q(3) by (simp_all add: prepare_message_def)
    with q own up show ?thesis unfolding if_P[OF True]
      by (intro exI[of _ p'] exI[of _ inst'] exI[of _ "prepare_message pid inst'"]) simp
  next
    case False
    with r show ?thesis by auto
  qed
qed

definition demo_accepting :: proposer where
  "demo_accepting = demo_proposer [PePrepare demo_time, PePropose [1, 2], PePromise demo_time demo_ack, PeAccept]"

theorem preempted_instance_retried_witness:
  "\<exists>p' m. proposer_receive_preempted demo_time demo_accepting
      \<lparr>pe_aid = 0, pe_iid = 1, pe_ballot = 5000\<rparr> = Inr (p', Some m) \<and>
     kh_lookup (po_accept_instances p') 1 = None \<and> pp_iid m = 1 \<and> pp_ballot m = 2001"
proof -
  let ?ack = "\<lparr>pe_aid = 0, pe_iid = 1, pe_ballot = 5000\<rparr> :: paxos_preempted"
  have "case kh_lookup (po_accept_instances demo_accepting) 1 of Some inst \<Rightarrow> pi_ballot inst = 1001 | None \<Rightarrow> False"
    by code_simp
  then obtain inst where i: "kh_lookup (po_accept_instances demo_accepting) (pe_iid ?ack) = Some inst" "pi_ballot inst = 1001"
    by (auto split: option.splits)
  from preempted_instance_retried[OF demo_proposer_reachable i(1)[unfolded demo_accepting_def], of demo_time] i(2)
  show ?thesis unfolding demo_accepting_def by auto
qed

lemma own_ballot_value:
  assumes "k < 4294966" "0 \<le> pid" "pid < 1000"
  shows "uint (u32_of_int (1000 * (int k + 1) + pid)) = 1000 * (int k + 1) + pid"
proof -
  have "uint (u32_of_int (1000 * (int k + 1) + pid)) = (1000 * (int k + 1) + pid) mod 2 ^ 32"
    by (simp only: u32_of_int_def uint_word_of_int len_num1 len_bit0 mult_2 mult_1_right) simp
  also have "\<dots> = 1000 * (int k + 1) + pid" using assms by (intro mod_pos_pos_trivial) simp_all
  finally show ?thesis .
qed


definition demo_rival :: proposer where
  "demo_rival = (case proposer_run [PePrepare demo_time] (proposer_new 2 1) of Inr p \<Rightarrow> p | Inl _ \<Rightarrow> proposer_new 2 1)"

lemma demo_rival_reachable: "proposer_reachable 2 1 demo_rival"
  unfolding demo_rival_def by (rule demo_run_reachable)


lemma next_ballot_iter:
  "k < 2 ^ 29 \<Longrightarrow> (proposer_next_ballot 0 ^^ k) 0 = u32_of_int (1000 * int k)"
proof (induction k)
  case 0
  then show ?case by (simp add: u32_of_int_def)
next
  case (Suc k)
  show ?case
  proof (cases "k = 0")
    case True
    then show ?thesis by (simp add: proposer_next_ballot_def u32_of_int_def MAX_N_OF_PROPOSERS_def)
  next
    case False
    have "\<not> 2 ^ 32 dvd 1000 * int k"
    proof
      assume "2 ^ 32 dvd 1000 * int k"
      then have "8 * 2 ^ 29 dvd 8 * (125 * int k)" by simp
      then have "2 ^ 29 dvd 125 * int k" unfolding dvd_mult_cancel_left by simp
      moreover have "coprime ((2::int) ^ 29) 125" unfolding coprime_power_left_iff by (simp add: coprime_left_2_iff_odd)
      ultimately have "2 ^ 29 dvd int k" by (simp only: coprime_dvd_mult_right_iff)
      then have "2 ^ 29 \<le> int k" using False by (intro zdvd_imp_le) simp_all
      with Suc.prems show False by simp
    qed
    then have "u32_of_int (1000 * int k) \<noteq> 0"
      by (simp only: u32_of_int_def word_of_int_eq_0_iff) simp
    then show ?thesis using Suc
      by (simp add: proposer_next_ballot_def MAX_N_OF_PROPOSERS_def word_gt_0 u32_of_int_def algebra_simps)
  qed
qed

text \<open>
  After 4294969 preemptions of one instance the ballot of proposer 0 has wrapped around \<open>2^32\<close> and
  is the first ballot of proposer 704: ballots are unique to a proposer only until then.
\<close>

lemma ballot_wrap_collision: "(proposer_next_ballot 0 ^^ 4294969) 0 = proposer_next_ballot 704 0"
proof -
  have "(proposer_next_ballot 0 ^^ 4294969) 0 = u32_of_int (1000 * int 4294969)" by (rule next_ballot_iter) simp
  also have "\<dots> = proposer_next_ballot 704 0"
    by (simp add: u32_of_int_def proposer_next_ballot_def MAX_N_OF_PROPOSERS_def)
  finally show ?thesis .
qed

end
