(* ===== verification/Learner_Safety.thy ===== *)
theory Learner_Safety
  imports Learner
begin

text \<open>
  The learner's invariant and its properties: with well-formed accepted messages no operation
  fails, what is delivered was accepted by a majority under one ballot, instances come out in order
  and without gaps, and a majority of equal ballots is enough to deliver.
\<close>

section \<open>Copies\<close>

definition lvalue_clip :: "paxos_value \<Rightarrow> paxos_value" where
  "lvalue_clip v = v\<lparr>pv_val := map_option (take (nat (pv_len v))) (pv_val v)\<rparr>"

text \<open>What a deep copy of a message holds: no spare bytes and no \<^verbatim>\<open>value_0\<close>.\<close>

definition accepted_clip :: "paxos_accepted \<Rightarrow> paxos_accepted" where
  "accepted_clip a = a\<lparr>ac_value_0 := value_zero, ac_values := map_option (map lvalue_clip) (ac_values a)\<rparr>"

lemma accepted_clip_simps [simp]:
  "ac_iid (accepted_clip a) = ac_iid a" "ac_n_aids (accepted_clip a) = ac_n_aids a"
  "ac_aids (accepted_clip a) = ac_aids a" "ac_ballots (accepted_clip a) = ac_ballots a"
  "ac_value_ballots (accepted_clip a) = ac_value_ballots a"
  "ac_values (accepted_clip a) = map_option (map lvalue_clip) (ac_values a)"
  by (simp_all add: accepted_clip_def)

lemma lvalue_clip_idem [simp]: "lvalue_clip (lvalue_clip v) = lvalue_clip v"
  by (cases "pv_val v") (simp_all add: lvalue_clip_def)

lemma accepted_clip_idem [simp]: "accepted_clip (accepted_clip a) = accepted_clip a"
  by (cases "ac_values a") (simp_all add: accepted_clip_def)

lemma lvalue_clip_ok: "value_ok v \<Longrightarrow> value_ok (lvalue_clip v)"
  by (auto simp: value_ok_cases lvalue_clip_def)

lemma accepted_clip_ok: "accepted_ok a \<Longrightarrow> accepted_ok (accepted_clip a)"
  by (auto simp: accepted_ok_def lvalue_clip_ok split: option.splits)

lemma learner_value_copy_ok: "value_ok v \<Longrightarrow> learner_value_copy v = Inr (lvalue_clip v)"
  by (cases v) (auto simp: learner_value_copy_def value_ok_cases lvalue_clip_def copy_bytes_def acopy_def nat_le_iff
      split: option.splits)

lemma learner_values_copy_ok: "\<forall>v \<in> set vs. value_ok v \<Longrightarrow> learner_values_copy vs = Inr (map lvalue_clip vs)"
  by (induction vs) (simp_all add: learner_value_copy_ok)

lemma entries_copy_exact: "arr_len a n \<Longrightarrow> entries_copy a n = Inr a"
  by (auto simp: arr_len_iff entries_copy_def acopy_def)

lemma deep_copy_ok:
  assumes "accepted_ok a"
  shows "paxos_accepted_deep_copy a = Inr (accepted_clip a)"
proof -
  have e: "entries_copy (ac_aids a) (ac_n_aids a) = Inr (ac_aids a)"
    "entries_copy (ac_ballots a) (ac_n_aids a) = Inr (ac_ballots a)"
    "entries_copy (ac_value_ballots a) (ac_n_aids a) = Inr (ac_value_ballots a)" "0 < ac_n_aids a"
    using assms by (simp_all add: accepted_ok_def entries_copy_exact)
  show ?thesis
  proof (cases "ac_values a")
    case None
    then show ?thesis using e by (simp add: paxos_accepted_deep_copy_def accepted_clip_def entries_copy_def)
  next
    case (Some vs)
    then have "entries_copy (ac_values a) (ac_n_aids a) = Inr (Some vs)" "\<forall>v \<in> set vs. value_ok v"
      using assms by (auto simp: accepted_ok_def entries_copy_def acopy_def)
    then show ?thesis
      using e Some by (simp add: paxos_accepted_deep_copy_def accepted_clip_def learner_values_copy_ok)
  qed
qed

lemma ack_free_ok: "accepted_ok a \<Longrightarrow> paxos_accepted_free a = Inr ()"
  using accepted_destroy_ok[of a] by (auto simp: paxos_accepted_free_def)

section \<open>Invariant of an instance\<close>

definition ack_aid :: "paxos_accepted \<Rightarrow> u32" where
  "ack_aid a = hd (the (ac_aids a))"

definition ack_ballot :: "paxos_accepted \<Rightarrow> ballot_t" where
  "ack_ballot a = hd (the (ac_ballots a))"

definition ack_for :: "int \<Rightarrow> paxos_accepted \<Rightarrow> bool" where
  "ack_for n a \<longleftrightarrow> accepted_ok a \<and> aid_ok n (ack_aid a) \<and> 0 < ac_iid a"

lemma ack_clip [simp]: "ack_aid (accepted_clip a) = ack_aid a" "ack_ballot (accepted_clip a) = ack_ballot a"
  by (simp_all add: ack_aid_def ack_ballot_def)

lemma ack_clip_for: "ack_for n a \<Longrightarrow> ack_for n (accepted_clip a)"
  by (simp add: ack_for_def accepted_clip_ok)

lemma ack_reads:
  assumes "accepted_ok a"
  shows "aread (ac_aids a) 0 = Inr (ack_aid a)" "aread (ac_ballots a) 0 = Inr (ack_ballot a)"
proof -
  obtain xs bs where m: "ac_aids a = Some xs" "ac_ballots a = Some bs" "length xs = unat (ac_n_aids a)" "length bs = unat (ac_n_aids a)"
    using assms by (auto simp: accepted_ok_def arr_len_iff)
  have "0 < unat (ac_n_aids a)" using assms by (simp add: accepted_ok_def unat_gt_0 word_gt_0)
  then have "xs \<noteq> []" "bs \<noteq> []" using m by auto
  then show "aread (ac_aids a) 0 = Inr (ack_aid a)" "aread (ac_ballots a) 0 = Inr (ack_ballot a)"
    using m(1,2) by (simp_all add: ack_aid_def ack_ballot_def hd_conv_nth)
qed

text \<open>The acceptors whose stored message carries ballot \<open>b\<close>.\<close>

definition voters :: "paxos_accepted option list \<Rightarrow> ballot_t \<Rightarrow> nat set" where
  "voters acks b = {i. i < length acks \<and> (\<exists>a. acks ! i = Some a \<and> ack_ballot a = b)}"

text \<open>
  Slot \<open>j\<close> holds a message of acceptor \<open>j\<close> for this instance; a final value is one of the messages
  a majority sent with the same ballot.
\<close>

definition linst_ok :: "int \<Rightarrow> iid_t \<Rightarrow> linstance \<Rightarrow> bool" where
  "linst_ok n i inst \<longleftrightarrow> 0 \<le> n \<and> li_iid inst = i \<and> length (li_acks inst) = nat n \<and>
     (\<forall>j a. j < nat n \<longrightarrow> li_acks inst ! j = Some a \<longrightarrow> ack_for n a \<and> ac_iid a = i \<and> unat (ack_aid a) = j) \<and>
     (\<forall>j. li_final_value inst = Some j \<longrightarrow>
        j \<in> voters (li_acks inst) (li_last_update_ballot inst) \<and>
        n div 2 < int (card (voters (li_acks inst) (li_last_update_ballot inst))))"

lemma finite_voters [simp]: "finite (voters acks b)"
  by (simp add: voters_def)

lemma quorum_scan_ok:
  assumes "\<forall>i \<in> set is. i < length acks" "distinct is"
    "\<forall>i \<in> set is. \<forall>a. acks ! i = Some a \<longrightarrow> accepted_ok a"
  shows "\<exists>v'. quorum_scan acks b is (v, c) = Inr (v', c + int (card (voters acks b \<inter> set is))) \<and>
    (voters acks b \<inter> set is = {} \<and> v' = v \<or> (\<exists>j \<in> voters acks b. v' = int j))"
  using assms
proof (induction "is" arbitrary: v c)
  case Nil
  then show ?case by simp
next
  case (Cons i "is")
  have i: "i < length acks" "i \<notin> set is" using Cons.prems by simp_all
  show ?case
  proof (cases "i \<in> voters acks b")
    case True
    then obtain a where a: "acks ! i = Some a" "ack_ballot a = b" by (auto simp: voters_def)
    then have "accepted_ok a" using Cons.prems(3) by simp
    moreover obtain v' where "quorum_scan acks b is (int i, c + 1) = Inr (v', c + 1 + int (card (voters acks b \<inter> set is)))"
      "voters acks b \<inter> set is = {} \<and> v' = int i \<or> (\<exists>j \<in> voters acks b. v' = int j)"
      using Cons.IH[of "int i" "c + 1"] Cons.prems by auto
    moreover have "voters acks b \<inter> set (i # is) = insert i (voters acks b \<inter> set is)" using True by auto
    moreover have "card (insert i (voters acks b \<inter> set is)) = Suc (card (voters acks b \<inter> set is))" using i(2) by simp
    ultimately show ?thesis using i(1) a True by (auto simp: ack_reads)
  next
    case False
    then have e: "voters acks b \<inter> set (i # is) = voters acks b \<inter> set is" by auto
    have "quorum_scan acks b (i # is) (v, c) = quorum_scan acks b is (v, c)"
    proof (cases "acks ! i")
      case None
      then show ?thesis using i(1) by simp
    next
      case (Some a)
      then have "accepted_ok a" "ack_ballot a \<noteq> b" using Cons.prems(3) False i(1) by (auto simp: voters_def)
      with Some i(1) show ?thesis by (simp add: ack_reads)
    qed
    with e Cons.IH[of v c] Cons.prems show ?thesis by simp
  qed
qed

lemma linst_okD:
  assumes "linst_ok n i inst"
  shows "0 \<le> n" "li_iid inst = i" "length (li_acks inst) = nat n"
    "j < nat n \<Longrightarrow> li_acks inst ! j = Some a \<Longrightarrow> ack_for n a \<and> ac_iid a = i \<and> unat (ack_aid a) = j"
    "li_final_value inst = Some j \<Longrightarrow> j \<in> voters (li_acks inst) (li_last_update_ballot inst) \<and>
        n div 2 < int (card (voters (li_acks inst) (li_last_update_ballot inst)))"
  using assms by (auto simp: linst_ok_def)

text \<open>\<^verbatim>\<open>instance_has_quorum\<close> counts the voters of the last ballot and remembers one of them.\<close>

definition quorate :: "int \<Rightarrow> linstance \<Rightarrow> bool" where
  "quorate n inst \<longleftrightarrow> n div 2 < int (card (voters (li_acks inst) (li_last_update_ballot inst)))"

lemma has_quorum_ok:
  assumes "linst_ok n i inst"
  shows "\<exists>inst'. instance_has_quorum inst n = Inr (inst', quorate n inst) \<and> linst_ok n i inst' \<and>
    li_acks inst' = li_acks inst \<and> li_last_update_ballot inst' = li_last_update_ballot inst \<and>
    (quorate n inst \<longleftrightarrow> li_final_value inst' \<noteq> None) \<and> (\<not> quorate n inst \<longrightarrow> inst' = inst)"
proof (cases "li_final_value inst")
  case (Some j)
  then have "quorate n inst" using linst_okD(5)[OF assms] by (simp add: quorate_def)
  with Some assms show ?thesis by (auto simp: instance_has_quorum_def)
next
  case None
  let ?V = "voters (li_acks inst) (li_last_update_ballot inst)"
  have len: "length (li_acks inst) = nat n" by (rule linst_okD(3)[OF assms])
  have "?V \<inter> set [0..<nat n] = ?V" using len by (auto simp: voters_def)
  moreover have "\<exists>v'. quorum_scan (li_acks inst) (li_last_update_ballot inst) [0..<nat n] (-1, 0) =
      Inr (v', 0 + int (card (?V \<inter> set [0..<nat n]))) \<and> (?V \<inter> set [0..<nat n] = {} \<and> v' = -1 \<or> (\<exists>j \<in> ?V. v' = int j))"
    using linst_okD(4)[OF assms] len by (intro quorum_scan_ok) (auto simp: ack_for_def)
  ultimately obtain v' where s: "quorum_scan (li_acks inst) (li_last_update_ballot inst) [0..<nat n] (-1, 0) = Inr (v', int (card ?V))"
    "?V = {} \<and> v' = -1 \<or> (\<exists>j \<in> ?V. v' = int j)" by auto
  have q: "paxos_quorum n = n div 2 + 1" "0 \<le> n div 2" using linst_okD(1)[OF assms] by (simp_all add: paxos_quorum_nonneg)
  show ?thesis
  proof (cases "quorate n inst")
    case False
    then have "instance_has_quorum inst n = Inr (inst, False)"
      using None s(1) q(1) by (simp add: instance_has_quorum_def quorate_def)
    with False assms None show ?thesis by auto
  next
    case True
    then have c: "n div 2 < int (card ?V)" by (simp add: quorate_def)
    then have "?V \<noteq> {}" using q(2) by auto
    then obtain j where j: "j \<in> ?V" "v' = int j" using s(2) by auto
    let ?inst = "inst\<lparr>li_final_value := Some j\<rparr>"
    have "instance_has_quorum inst n = Inr (?inst, True)"
      using None s(1) q(1) c j(2) by (simp add: instance_has_quorum_def)
    moreover have "linst_ok n i ?inst" using assms j(1) c by (simp add: linst_ok_def)
    ultimately show ?thesis using True by auto
  qed
qed

section \<open>Receiving\<close>

text \<open>The acceptor's stored message is at least as recent.\<close>

definition stale :: "linstance \<Rightarrow> paxos_accepted \<Rightarrow> bool" where
  "stale inst ack \<longleftrightarrow> (case li_acks inst ! unat (ack_aid ack) of
     None \<Rightarrow> False | Some p \<Rightarrow> ack_ballot ack \<le> ack_ballot p)"

text \<open>What a message does to the messages of its instance.\<close>

definition absorbed :: "int \<Rightarrow> paxos_accepted \<Rightarrow> linstance \<Rightarrow> linstance \<Rightarrow> bool" where
  "absorbed n ack inst inst' \<longleftrightarrow>
     (if quorate n inst \<or> stale inst ack
      then li_acks inst' = li_acks inst \<and> li_last_update_ballot inst' = li_last_update_ballot inst
      else li_acks inst' = (li_acks inst)[unat (ack_aid ack) := Some (accepted_clip ack)] \<and>
           li_last_update_ballot inst' = ack_ballot ack)"

lemma linst_okI:
  assumes "0 \<le> n" "li_iid inst = i" "li_acks inst = xs" "length xs = nat n" "li_final_value inst = None"
    "\<And>j a. j < nat n \<Longrightarrow> xs ! j = Some a \<Longrightarrow> ack_for n a \<and> ac_iid a = i \<and> unat (ack_aid a) = j"
  shows "linst_ok n i inst"
  unfolding linst_ok_def assms(2,3,5) using assms(1,4,6) by (simp only: option.distinct) blast

lemma linst_ok_add:
  assumes ok: "linst_ok n i inst" and ack: "ack_for n ack" "ac_iid ack = i" and f: "li_final_value inst = None"
  shows "linst_ok n i (inst\<lparr>li_acks := (li_acks inst)[unat (ack_aid ack) := Some (accepted_clip ack)],
    li_last_update_ballot := b\<rparr>)"
proof -
  have "ack_for n a \<and> ac_iid a = i \<and> unat (ack_aid a) = j"
    if "j < nat n" "(li_acks inst)[unat (ack_aid ack) := Some (accepted_clip ack)] ! j = Some a" for j a
  proof (cases "j = unat (ack_aid ack)")
    case True
    then have "a = accepted_clip ack" using that linst_okD(3)[OF ok] by simp
    then show ?thesis using True ack(2) ack_clip_for[OF ack(1)] by simp
  next
    case False
    then have "li_acks inst ! j = Some a" using that(2) by simp
    then show ?thesis by (rule linst_okD(4)[OF ok that(1)])
  qed
  note slots = this
  show ?thesis
  proof (rule linst_okI[OF linst_okD(1)[OF ok] _ _ _ _ slots])
    show "length ((li_acks inst)[unat (ack_aid ack) := Some (accepted_clip ack)]) = nat n"
      using linst_okD(3)[OF ok] by simp
  qed (use linst_okD(2)[OF ok] f in simp_all)
qed

lemma add_accept_ok:
  assumes ok: "linst_ok n i inst" and ack: "ack_for n ack"
  shows "instance_add_accept inst ack =
    Inr (inst\<lparr>li_acks := (li_acks inst)[unat (ack_aid ack) := Some (accepted_clip ack)],
              li_last_update_ballot := ack_ballot ack\<rparr>)"
proof -
  let ?x = "ack_aid ack"
  have a: "accepted_ok ack" "aid_ok n ?x" using ack by (simp_all add: ack_for_def)
  note x = aid_ok_unat[OF a(2)]
  have lt: "unat ?x < length (li_acks inst)" using x(2) linst_okD(3)[OF ok] by simp
  have "(case li_acks inst ! unat ?x of None \<Rightarrow> Inr () | Some a \<Rightarrow> paxos_accepted_free a) = Inr ()"
    using linst_okD(4)[OF ok x(2)] by (auto simp: ack_for_def ack_free_ok split: option.splits)
  then show ?thesis
    using lt x(1) by (simp add: instance_add_accept_def ack_reads[OF a(1)] paxos_accepted_dup_def deep_copy_ok[OF a(1)] del: of_nat_unat)
qed

lemma update_ok:
  assumes ok: "linst_ok n i inst" and ack: "ack_for n ack" "ac_iid ack = i"
  shows "\<exists>inst'. instance_update inst ack n = Inr inst' \<and> linst_ok n i inst' \<and> absorbed n ack inst inst'"
proof -
  let ?x = "ack_aid ack"
  have a: "accepted_ok ack" "aid_ok n ?x" "0 < i" using ack by (auto simp: ack_for_def)
  have lt: "unat ?x < length (li_acks inst)" using aid_ok_unat(2)[OF a(2)] linst_okD(3)[OF ok] by simp
  have nz: "li_iid inst \<noteq> 0" using linst_okD(2)[OF ok] a(3) by auto
  obtain inst1 where q: "instance_has_quorum inst n = Inr (inst1, quorate n inst)" "linst_ok n i inst1"
    "li_acks inst1 = li_acks inst" "li_last_update_ballot inst1 = li_last_update_ballot inst" "\<not> quorate n inst \<longrightarrow> inst1 = inst"
    "quorate n inst \<longleftrightarrow> li_final_value inst1 \<noteq> None"
    using has_quorum_ok[OF ok] by blast
  show ?thesis
  proof (cases "quorate n inst")
    case True
    then have "instance_update inst ack n = Inr inst1" using q(1) nz by (simp add: instance_update_def)
    moreover have "absorbed n ack inst inst1" using True q(3,4) by (simp add: absorbed_def)
    ultimately show ?thesis using q(2) by blast
  next
    case False
    then have i1: "inst1 = inst" using q(5) by simp
    let ?new = "case li_acks inst ! unat ?x of None \<Rightarrow> Inr False
                    | Some p \<Rightarrow> bind_res (aread (ac_ballots p) 0) (\<lambda>pb.
                                bind_res (aread (ac_ballots ack) 0) (\<lambda>b. Inr (pb \<ge> b)))"
    have "?new = Inr (stale inst ack)"
    proof (cases "li_acks inst ! unat ?x")
      case None
      then show ?thesis by (simp add: stale_def)
    next
      case (Some p)
      then have "accepted_ok p" using linst_okD(4)[OF ok aid_ok_unat(2)[OF a(2)]] by (simp add: ack_for_def)
      then show ?thesis using Some a(1) by (simp add: stale_def ack_reads)
    qed
    then have u: "instance_update inst ack n = (if stale inst ack then Inr inst else instance_add_accept inst ack)"
      using q(1) False i1 nz lt by (simp add: instance_update_def ack_reads[OF a(1)])
    have "li_final_value inst = None" using q(6) False i1 by simp
    note add = linst_ok_add[OF ok ack this, of "ack_ballot ack"]
    show ?thesis
    proof (cases "stale inst ack")
      case True
      then show ?thesis using u ok by (intro exI[of _ inst]) (simp add: absorbed_def)
    next
      case n: False
      then show ?thesis using u add False unfolding add_accept_ok[OF ok ack(1)]
        by (intro exI[of _ "inst\<lparr>li_acks := (li_acks inst)[unat ?x := Some (accepted_clip ack)],
              li_last_update_ballot := ack_ballot ack\<rparr>"]) (simp add: absorbed_def)
    qed
  qed
qed

text \<open>An instance that has seen no message yet.\<close>

definition linst_empty :: "int \<Rightarrow> iid_t \<Rightarrow> ballot_t \<Rightarrow> linstance" where
  "linst_empty n i b = (linstance_new n)\<lparr>li_iid := i, li_last_update_ballot := b\<rparr>"

lemma linst_empty_ok: "0 \<le> n \<Longrightarrow> linst_ok n i (linst_empty n i b)"
  by (simp add: linst_ok_def linst_empty_def linstance_new_def)

lemma update_empty:
  assumes "ack_for n ack"
  shows "instance_update (linstance_new n) ack n = instance_update (linst_empty n (ac_iid ack) (ack_ballot ack)) ack n"
  using assms ack_reads[of ack]
  by (auto simp: instance_update_def linst_empty_def linstance_new_def ack_for_def)

section \<open>Invariant of the learner\<close>

definition learner_ok :: "int \<Rightarrow> learner \<Rightarrow> bool" where
  "learner_ok n l \<longleftrightarrow> le_acceptors l = n \<and> 0 \<le> n \<and> kh_ok (le_instances l) \<and>
     (\<forall>i inst. kh_lookup (le_instances l) i = Some inst \<longrightarrow> linst_ok n i inst)"

definition instance_at :: "learner \<Rightarrow> paxos_accepted \<Rightarrow> linstance" where
  "instance_at l ack = (case kh_lookup (le_instances l) (ac_iid ack) of
     Some inst \<Rightarrow> inst | None \<Rightarrow> linst_empty (le_acceptors l) (ac_iid ack) (ack_ballot ack))"

definition started :: "learner \<Rightarrow> paxos_accepted \<Rightarrow> learner" where
  "started l ack = (if le_late_start l then l\<lparr>le_late_start := False, le_current_iid := ac_iid ack\<rparr> else l)"

lemma started_simps [simp]:
  "le_instances (started l ack) = le_instances l" "le_acceptors (started l ack) = le_acceptors l"
  "le_highest_iid_closed (started l ack) = le_highest_iid_closed l" "\<not> le_late_start (started l ack)"
  "\<not> le_late_start l \<Longrightarrow> started l ack = l"
  by (simp_all add: started_def)

lemma instance_at_ok: "learner_ok n l \<Longrightarrow> linst_ok n (ac_iid ack) (instance_at l ack)"
  by (auto simp: learner_ok_def instance_at_def linst_empty_ok split: option.splits)

lemma get_or_create_ok:
  assumes l: "learner_ok n l" and ack: "ack_for n ack"
  shows "\<exists>l' inst. learner_get_instance_or_create l (ac_iid ack) = Inr (l', inst) \<and>
    instance_update inst ack n = instance_update (instance_at l ack) ack n \<and>
    (\<exists>h. l' = l\<lparr>le_instances := h\<rparr> \<and> kh_ok h \<and> kh_lookup h = (kh_lookup (le_instances l))(ac_iid ack \<mapsto> inst))"
proof (cases "kh_lookup (le_instances l) (ac_iid ack)")
  case None
  have n: "le_acceptors l = n" "kh_ok (le_instances l)" using l by (simp_all add: learner_ok_def)
  obtain h rv where p: "kh_put (le_instances l) (ac_iid ack) (linstance_new n) = Inr (h, rv)" "kh_ok h"
    "kh_lookup h = (kh_lookup (le_instances l))(ac_iid ack \<mapsto> linstance_new n)" "0 < rv"
    using kh.put_fresh[OF n(2) None] .
  have "rv \<noteq> -1" using p(4) by simp
  then have "learner_get_instance_or_create l (ac_iid ack) = Inr (l\<lparr>le_instances := h\<rparr>, linstance_new n)"
    using p(1) None n(1) by (simp add: learner_get_instance_or_create_def learner_get_instance_def)
  moreover have "instance_update (linstance_new n) ack n = instance_update (instance_at l ack) ack n"
    using None n(1) update_empty[OF ack] by (simp add: instance_at_def)
  ultimately show ?thesis using p(2,3) by blast
next
  case (Some inst)
  have "l = l\<lparr>le_instances := le_instances l\<rparr>" "kh_ok (le_instances l)"
    "kh_lookup (le_instances l) = (kh_lookup (le_instances l))(ac_iid ack \<mapsto> inst)"
    using l Some by (auto simp: learner_ok_def)
  moreover have "learner_get_instance_or_create l (ac_iid ack) = Inr (l, inst)" "instance_at l ack = inst"
    using Some by (simp_all add: learner_get_instance_or_create_def learner_get_instance_def instance_at_def)
  ultimately show ?thesis by metis
qed

lemma receive_ok:
  assumes l: "learner_ok n l" and ack: "ack_for n ack" and iid: "le_current_iid (started l ack) \<le> ac_iid ack"
  shows "\<exists>l' inst'. learner_receive_accepted l ack = Inr l' \<and> learner_ok n l' \<and>
    kh_lookup (le_instances l') = (kh_lookup (le_instances l))(ac_iid ack \<mapsto> inst') \<and>
    absorbed n ack (instance_at l ack) inst' \<and> (quorate n inst' \<longleftrightarrow> li_final_value inst' \<noteq> None) \<and>
    le_current_iid l' = le_current_iid (started l ack) \<and> \<not> le_late_start l' \<and>
    le_highest_iid_closed l' = (if quorate n inst' \<and> le_highest_iid_closed l < ac_iid ack then ac_iid ack
                                else le_highest_iid_closed l)"
proof -
  let ?l = "started l ack" and ?i = "ac_iid ack"
  have sl: "learner_ok n ?l" and n: "le_acceptors l = n" using l by (simp_all add: learner_ok_def)
  have same: "instance_at ?l ack = instance_at l ack" by (simp add: instance_at_def split: option.splits)
  obtain h inst where g: "learner_get_instance_or_create ?l ?i = Inr (?l\<lparr>le_instances := h\<rparr>, inst)"
    "instance_update inst ack n = instance_update (instance_at l ack) ack n" "kh_ok h"
    "kh_lookup h = (kh_lookup (le_instances l))(?i \<mapsto> inst)"
    using get_or_create_ok[OF sl ack] unfolding same by auto
  obtain inst1 where u: "instance_update inst ack n = Inr inst1" "linst_ok n ?i inst1" "absorbed n ack (instance_at l ack) inst1"
    using update_ok[OF instance_at_ok[OF l] ack refl] g(2) by auto
  obtain inst2 where q: "instance_has_quorum inst1 n = Inr (inst2, quorate n inst1)" "linst_ok n ?i inst2"
    "li_acks inst2 = li_acks inst1" "li_last_update_ballot inst2 = li_last_update_ballot inst1"
    "quorate n inst1 \<longleftrightarrow> li_final_value inst2 \<noteq> None"
    using has_quorum_ok[OF u(2)] by blast
  have qq: "quorate n inst2 = quorate n inst1" using q(3,4) by (simp add: quorate_def)
  have ab: "absorbed n ack (instance_at l ack) inst2" using u(3) q(3,4) by (simp add: absorbed_def)
  have hi: "kh_lookup h ?i = Some inst" using g(4) by simp
  let ?h = "kh_write h ?i inst2"
  let ?hc = "if quorate n inst1 \<and> le_highest_iid_closed l < ?i then ?i else le_highest_iid_closed l"
  let ?l' = "?l\<lparr>le_instances := ?h, le_highest_iid_closed := ?hc\<rparr>"
  have run: "learner_receive_accepted l ack = Inr ?l'"
    using iid g(1) u(1) q(1) n linst_okD(2)[OF q(2)]
    unfolding learner_receive_accepted_def started_def[symmetric] by (auto simp: Let_def)
  have lk: "kh_lookup ?h = (kh_lookup (le_instances l))(?i \<mapsto> inst2)" "kh_ok ?h"
    using kh.update_ok[OF g(3) hi, of inst2] kh.update_lookup[OF g(3) hi, of inst2] g(4) by simp_all
  have "learner_ok n ?l'" using l lk q(2) by (simp add: learner_ok_def)
  with run lk ab q(5) qq show ?thesis by (intro exI[of _ ?l'] exI[of _ inst2]) simp
qed

lemma receive_old:
  "ac_iid ack < le_current_iid (started l ack) \<Longrightarrow> learner_receive_accepted l ack = Inr (started l ack)"
  by (simp add: learner_receive_accepted_def started_def[symmetric])

section \<open>Delivering\<close>

lemma free_loop_ok:
  assumes "\<forall>i \<in> set is. i < length acks \<and> (\<forall>a. acks ! i = Some a \<longrightarrow> accepted_ok a)"
  shows "linstance_free_loop acks is = Inr ()"
  using assms by (induction "is") (auto simp: ack_free_ok split: option.splits)

lemma linstance_free_ok: "linst_ok n i inst \<Longrightarrow> linstance_free inst n = Inr ()"
  unfolding linstance_free_def using linst_okD(3)[of n i inst] linst_okD(4)[of n i inst]
  by (intro free_loop_ok) (auto simp: ack_for_def)

lemma deliver_ok:
  assumes l: "learner_ok n l"
  shows "\<exists>l' out. learner_deliver_next l = Inr (l', out) \<and> learner_ok n l' \<and>
    (case kh_lookup (le_instances l) (le_current_iid l) of
       None \<Rightarrow> out = None \<and> l' = l
     | Some inst \<Rightarrow>
         if quorate n inst
         then (\<exists>j a. j \<in> voters (li_acks inst) (li_last_update_ballot inst) \<and> li_acks inst ! j = Some a \<and>
                out = Some (accepted_clip a) \<and> ac_iid a = le_current_iid l \<and>
                kh_lookup (le_instances l') = (kh_lookup (le_instances l))(le_current_iid l := None) \<and>
                le_current_iid l' = le_current_iid l + 1 \<and> le_late_start l' = le_late_start l \<and>
                le_highest_iid_closed l' = le_highest_iid_closed l)
         else out = None \<and> l' = l)"
proof (cases "kh_lookup (le_instances l) (le_current_iid l)")
  case None
  then show ?thesis using l by (simp add: learner_deliver_next_def learner_get_current_instance_def learner_get_instance_def)
next
  case (Some inst)
  let ?i = "le_current_iid l"
  have n: "le_acceptors l = n" "kh_ok (le_instances l)" and ok: "linst_ok n ?i inst" using l Some by (auto simp: learner_ok_def)
  obtain inst1 where q: "instance_has_quorum inst n = Inr (inst1, quorate n inst)" "linst_ok n ?i inst1"
    "li_acks inst1 = li_acks inst" "li_last_update_ballot inst1 = li_last_update_ballot inst"
    "quorate n inst \<longleftrightarrow> li_final_value inst1 \<noteq> None"
    using has_quorum_ok[OF ok] by blast
  show ?thesis
  proof (cases "quorate n inst")
    case False
    then show ?thesis using l Some q(1) n(1)
      by (simp add: learner_deliver_next_def learner_get_current_instance_def learner_get_instance_def)
  next
    case True
    then obtain j where j: "li_final_value inst1 = Some j" using q(5) by auto
    then have v: "j \<in> voters (li_acks inst) (li_last_update_ballot inst)" using linst_okD(5)[OF q(2)] q(3,4) by simp
    then obtain a where a: "li_acks inst ! j = Some a" "j < length (li_acks inst)" by (auto simp: voters_def)
    have aok: "accepted_ok a" "ac_iid a = ?i" using linst_okD(3,4)[OF ok] a by (auto simp: ack_for_def)
    let ?l' = "l\<lparr>le_instances := kh_delete (le_instances l) ?i, le_current_iid := ?i + 1\<rparr>"
    have run: "learner_deliver_next l = Inr (?l', Some (accepted_clip a))"
      using Some q(1,3) True j a deep_copy_ok[OF aok(1)] linstance_free_ok[OF q(2)] linst_okD(2)[OF q(2)] n(1)
      by (simp add: learner_deliver_next_def learner_get_current_instance_def learner_get_instance_def learner_delete_instance_def)
    have "learner_ok n ?l'" "kh_lookup (le_instances ?l') = (kh_lookup (le_instances l))(?i := None)"
      using l kh.delete_ok[OF n(2), of ?i] kh.delete_lookup[OF n(2), of ?i] by (auto simp: learner_ok_def split: if_splits)
    with run Some True v a(1) aok(2) show ?thesis by (intro exI[of _ ?l'] exI[of _ "Some (accepted_clip a)"]) auto
  qed
qed

section \<open>Runs\<close>

datatype learner_event = LeAccepted paxos_accepted | LeDeliver | LeSetId iid_t

fun learner_step :: "learner_event \<Rightarrow> learner \<Rightarrow> (learner \<times> paxos_accepted option) res" where
  "learner_step (LeAccepted ack) l = bind_res (learner_receive_accepted l ack) (\<lambda>l. Inr (l, None))"
| "learner_step LeDeliver l = learner_deliver_next l"
| "learner_step (LeSetId iid) l = Inr (learner_set_instance_id l iid, None)"

fun received :: "learner_event \<Rightarrow> paxos_accepted set" where
  "received (LeAccepted ack) = {ack}"
| "received e = {}"

text \<open>A learner of a system of \<open>n\<close> acceptors and the messages it has received so far.\<close>

inductive learner_reachable :: "int \<Rightarrow> learner \<Rightarrow> paxos_accepted set \<Rightarrow> bool" for n where
  lreach_new: "0 \<le> n \<Longrightarrow> learner_reachable n (learner_new cfg n) {}"
| lreach_step: "learner_reachable n l R \<Longrightarrow> \<forall>ack \<in> received e. ack_for n ack \<Longrightarrow>
     learner_step e l = Inr (l', out) \<Longrightarrow> learner_reachable n l' (received e \<union> R)"

definition sourced :: "int \<Rightarrow> paxos_accepted set \<Rightarrow> learner \<Rightarrow> bool" where
  "sourced n R l \<longleftrightarrow> (\<forall>i inst j a. kh_lookup (le_instances l) i = Some inst \<longrightarrow> j < nat n \<longrightarrow>
     li_acks inst ! j = Some a \<longrightarrow> a \<in> accepted_clip ` R)"

lemma sourced_mono: "sourced n R l \<Longrightarrow> le_instances l' = le_instances l \<Longrightarrow> R \<subseteq> R' \<Longrightarrow> sourced n R' l'"
  unfolding sourced_def by (metis image_mono subsetD)

lemma learner_new_ok: "0 \<le> n \<Longrightarrow> learner_ok n (learner_new cfg n) \<and> sourced n R (learner_new cfg n)"
  by (simp add: learner_ok_def learner_new_def sourced_def kh.init_ok kh.init_lookup)

lemma absorbed_sourced:
  assumes "absorbed n ack inst inst'" "length (li_acks inst) = nat n" "j < nat n" "li_acks inst' ! j = Some a"
    "\<And>a. li_acks inst ! j = Some a \<Longrightarrow> a \<in> S" "accepted_clip ack \<in> S"
  shows "a \<in> S"
proof (cases "quorate n inst \<or> stale inst ack")
  case True
  then have "li_acks inst' = li_acks inst" using assms(1) by (simp add: absorbed_def)
  then show ?thesis using assms(4,5) by simp
next
  case False
  then have e: "li_acks inst' = (li_acks inst)[unat (ack_aid ack) := Some (accepted_clip ack)]"
    using assms(1) by (simp add: absorbed_def)
  show ?thesis
  proof (cases "j = unat (ack_aid ack)")
    case True
    then show ?thesis using e assms(2,3,4,6) by simp
  next
    case False
    then show ?thesis using e assms(4,5) by simp
  qed
qed

lemma receive_sourced:
  assumes l: "learner_ok n l" "sourced n R l" and ack: "ack_for n ack"
  shows "\<exists>l'. learner_receive_accepted l ack = Inr l' \<and> learner_ok n l' \<and> sourced n (insert ack R) l'"
proof (cases "ac_iid ack < le_current_iid (started l ack)")
  case True
  moreover have "learner_ok n (started l ack)" using l(1) by (simp add: learner_ok_def)
  moreover have "sourced n (insert ack R) (started l ack)" by (rule sourced_mono[OF l(2)]) auto
  ultimately show ?thesis by (simp add: receive_old)
next
  case False
  then obtain l' inst' where r: "learner_receive_accepted l ack = Inr l'" "learner_ok n l'"
    "kh_lookup (le_instances l') = (kh_lookup (le_instances l))(ac_iid ack \<mapsto> inst')"
    "absorbed n ack (instance_at l ack) inst'"
    using receive_ok[OF l(1) ack] by (auto simp: not_less)
  have len: "length (li_acks (instance_at l ack)) = nat n" by (rule linst_okD(3)[OF instance_at_ok[OF l(1)]])
  have old: "a \<in> accepted_clip ` insert ack R" if "li_acks (instance_at l ack) ! j = Some a" "j < nat n" for j a
  proof (cases "kh_lookup (le_instances l) (ac_iid ack)")
    case None
    then show ?thesis using that l(1) by (simp add: instance_at_def linst_empty_def linstance_new_def learner_ok_def)
  next
    case (Some inst)
    then show ?thesis using that l(2) unfolding sourced_def instance_at_def by auto
  qed
  have "a \<in> accepted_clip ` insert ack R"
    if "kh_lookup (le_instances l') i = Some inst" "j < nat n" "li_acks inst ! j = Some a" for i inst j a
  proof (cases "i = ac_iid ack")
    case True
    then have "li_acks inst' ! j = Some a" using that r(3) by simp
    then show ?thesis using absorbed_sourced[OF r(4) len that(2)] old that(2) by blast
  next
    case False
    then have "a \<in> accepted_clip ` R" using that l(2) r(3) unfolding sourced_def by auto
    then show ?thesis by blast
  qed
  with r(1,2) show ?thesis unfolding sourced_def by blast
qed

lemma deliver_sourced:
  assumes l: "learner_ok n l" "sourced n R l"
  shows "\<exists>l' out. learner_deliver_next l = Inr (l', out) \<and> learner_ok n l' \<and> sourced n R l'"
proof -
  obtain l' out where d: "learner_deliver_next l = Inr (l', out)" "learner_ok n l'"
    "l' = l \<or> kh_lookup (le_instances l') = (kh_lookup (le_instances l))(le_current_iid l := None)"
    using deliver_ok[OF l(1)] by (auto split: option.splits if_splits)
  have "sourced n R l'" using d(3) l(2) unfolding sourced_def by (auto split: if_splits)
  with d show ?thesis by blast
qed

lemma learner_step_ok:
  assumes "learner_ok n l" "sourced n R l" "\<forall>ack \<in> received e. ack_for n ack"
  shows "\<exists>l' out. learner_step e l = Inr (l', out) \<and> learner_ok n l' \<and> sourced n (received e \<union> R) l'"
proof (cases e)
  case (LeAccepted ack)
  with receive_sourced[OF assms(1,2), of ack] assms(3) show ?thesis by auto
next
  case LeDeliver
  with deliver_sourced[OF assms(1,2)] show ?thesis by auto
next
  case (LeSetId iid)
  let ?l = "learner_set_instance_id l iid"
  have "sourced n R ?l" by (rule sourced_mono[OF assms(2)]) (simp_all add: learner_set_instance_id_def)
  moreover have "learner_ok n ?l" using assms(1) by (simp add: learner_ok_def learner_set_instance_id_def)
  ultimately show ?thesis using LeSetId by simp
qed

lemma learner_reachable_ok: "learner_reachable n l R \<Longrightarrow> learner_ok n l \<and> sourced n R l \<and> (\<forall>m \<in> R. ack_for n m)"
proof (induction rule: learner_reachable.induct)
  case (lreach_new cfg)
  then show ?case using learner_new_ok by simp
next
  case (lreach_step l R e l' out)
  then show ?case using learner_step_ok[of n l R e] by auto
qed

section \<open>Properties\<close>

text \<open>
  A learner never fails. In every state a learner can reach, receiving any well-formed accepted
  message for an instance number above 0 (arrays of one length, the acceptor id in range),
  delivering and repositioning return: no array is left, nothing is read through NULL and no
  assertion fails.
\<close>

lemma learner_never_fails:
  assumes "learner_reachable n l R" "\<forall>ack \<in> received e. ack_for n ack"
  shows "\<exists>l' out. learner_step e l = Inr (l', out) \<and> learner_reachable n l' (received e \<union> R)"
  using learner_step_ok[of n l R e] learner_reachable_ok[OF assms(1)] assms lreach_step by blast

text \<open>A majority of acceptors has sent a message of \<open>R\<close> for the instance with this ballot.\<close>

definition majority_for :: "int \<Rightarrow> paxos_accepted set \<Rightarrow> iid_t \<Rightarrow> ballot_t \<Rightarrow> bool" where
  "majority_for n R i b \<longleftrightarrow> n div 2 <
     int (card {int (unat (ack_aid m)) | m. m \<in> R \<and> ac_iid m = i \<and> ack_ballot m = b})"

lemma voters_majority:
  assumes l: "learner_ok n l" "sourced n R l" and inst: "kh_lookup (le_instances l) i = Some inst" and q: "quorate n inst"
    and fin: "\<forall>m \<in> R. ack_for n m"
  shows "majority_for n R i (li_last_update_ballot inst)"
proof -
  let ?b = "li_last_update_ballot inst"
  let ?Q = "{int (unat (ack_aid m)) | m. m \<in> R \<and> ac_iid m = i \<and> ack_ballot m = ?b}"
  have ok: "linst_ok n i inst" using l(1) inst by (simp add: learner_ok_def)
  have sub: "int ` voters (li_acks inst) ?b \<subseteq> ?Q"
  proof
    fix x assume "x \<in> int ` voters (li_acks inst) ?b"
    then obtain j a where j: "x = int j" "j < nat n" "li_acks inst ! j = Some a" "ack_ballot a = ?b"
      using linst_okD(3)[OF ok] by (auto simp: voters_def)
    obtain m where m: "m \<in> R" "a = accepted_clip m" using l(2) inst j unfolding sourced_def by blast
    have "ac_iid m = i" "unat (ack_aid m) = j" using linst_okD(4)[OF ok j(2,3)] m(2) by simp_all
    with j m show "x \<in> ?Q" by auto
  qed
  have "?Q \<subseteq> {0..<n}"
  proof
    fix x assume "x \<in> ?Q"
    then obtain m where m: "m \<in> R" "x = int (unat (ack_aid m))" by auto
    then have "unat (ack_aid m) < nat n" using fin aid_ok_unat(2) by (auto simp: ack_for_def)
    then have "int (unat (ack_aid m)) < n" by linarith
    then show "x \<in> {0..<n}" unfolding m(2) by simp
  qed
  then have "finite ?Q" by (rule finite_subset) simp
  then have "card (int ` voters (li_acks inst) ?b) \<le> card ?Q" using sub by (rule card_mono)
  then show ?thesis using q by (simp add: majority_for_def quorate_def card_image)
qed

text \<open>
  C2: what is delivered was chosen. When a learner hands out a message, it is for the learner's
  current instance, it is a copy of a message the learner received, and a majority of the acceptors
  sent it a message for that instance with the same ballot; the learner then moves to the next
  instance and forgets this one.
\<close>

theorem learner_delivers_chosen:
  assumes "learner_reachable n l R" "learner_deliver_next l = Inr (l', Some out)"
  shows "ac_iid out = le_current_iid l \<and> le_current_iid l' = le_current_iid l + 1 \<and>
    kh_lookup (le_instances l') = (kh_lookup (le_instances l))(le_current_iid l := None) \<and>
    (\<exists>m \<in> R. out = accepted_clip m \<and> majority_for n R (le_current_iid l) (ack_ballot m))"
proof -
  have ok: "learner_ok n l" "sourced n R l" "\<forall>m \<in> R. ack_for n m" using learner_reachable_ok[OF assms(1)] by simp_all
  obtain inst where i: "kh_lookup (le_instances l) (le_current_iid l) = Some inst" "quorate n inst"
    using deliver_ok[OF ok(1)] assms(2) by (auto split: option.splits if_splits)
  obtain j a where d: "j \<in> voters (li_acks inst) (li_last_update_ballot inst)" "li_acks inst ! j = Some a"
    "out = accepted_clip a" "ac_iid a = le_current_iid l" "le_current_iid l' = le_current_iid l + 1"
    "kh_lookup (le_instances l') = (kh_lookup (le_instances l))(le_current_iid l := None)"
    using deliver_ok[OF ok(1)] assms(2) i by auto
  have lok: "linst_ok n (le_current_iid l) inst" using ok(1) i(1) by (simp add: learner_ok_def)
  have j: "j < nat n" "ack_ballot a = li_last_update_ballot inst"
    using d(1,2) linst_okD(3)[OF lok] by (auto simp: voters_def)
  obtain m where m: "m \<in> R" "a = accepted_clip m" using ok(2) i(1) j(1) d(2) unfolding sourced_def by blast
  have "majority_for n R (le_current_iid l) (ack_ballot m)"
    using voters_majority[OF ok(1,2) i ok(3)] j(2) m(2) by simp
  with d m show ?thesis by auto
qed

fun learner_run :: "learner_event list \<Rightarrow> learner \<Rightarrow> (learner \<times> paxos_accepted list) res" where
  "learner_run [] l = Inr (l, [])"
| "learner_run (e # es) l = bind_res (learner_step e l) (\<lambda>(l, out).
     bind_res (learner_run es l) (\<lambda>(l, ds). Inr (l, case out of None \<Rightarrow> ds | Some d \<Rightarrow> d # ds)))"

fun plain_event :: "int \<Rightarrow> learner_event \<Rightarrow> bool" where
  "plain_event n (LeAccepted ack) = ack_for n ack"
| "plain_event n LeDeliver = True"
| "plain_event n (LeSetId iid) = False"

lemma plain_step:
  assumes l: "learner_ok n l" "\<not> le_late_start l" and e: "plain_event n e"
  shows "\<exists>l' out. learner_step e l = Inr (l', out) \<and> learner_ok n l' \<and> \<not> le_late_start l' \<and>
    (case out of None \<Rightarrow> le_current_iid l' = le_current_iid l
     | Some d \<Rightarrow> ac_iid d = le_current_iid l \<and> le_current_iid l' = le_current_iid l + 1)"
proof (cases e)
  case (LeAccepted ack)
  show ?thesis
  proof (cases "ac_iid ack < le_current_iid l")
    case True
    then show ?thesis using LeAccepted l by (simp add: receive_old)
  next
    case False
    then obtain l' where "learner_receive_accepted l ack = Inr l'" "learner_ok n l'" "le_current_iid l' = le_current_iid l" "\<not> le_late_start l'"
      using receive_ok[OF l(1), of ack] LeAccepted e l(2) by (auto simp: not_less)
    then show ?thesis using LeAccepted by simp
  qed
next
  case LeDeliver
  obtain l' out where "learner_deliver_next l = Inr (l', out)" "learner_ok n l'"
    "out = None \<and> l' = l \<or> (\<exists>d. out = Some d \<and> ac_iid d = le_current_iid l \<and> le_current_iid l' = le_current_iid l + 1 \<and>
       le_late_start l' = le_late_start l)"
    using deliver_ok[OF l(1)] by (auto split: option.splits if_splits)
  then show ?thesis using LeDeliver l by auto
next
  case (LeSetId iid)
  then show ?thesis using e by simp
qed

lemma run_in_order:
  assumes "learner_ok n l" "\<not> le_late_start l" "\<forall>e \<in> set es. plain_event n e"
  shows "\<exists>l' ds. learner_run es l = Inr (l', ds) \<and> le_current_iid l' = le_current_iid l + of_nat (length ds) \<and>
    (\<forall>k < length ds. ac_iid (ds ! k) = le_current_iid l + of_nat k)"
  using assms
proof (induction es arbitrary: l)
  case Nil
  then show ?case by simp
next
  case (Cons e es)
  obtain l1 out where s: "learner_step e l = Inr (l1, out)" "learner_ok n l1" "\<not> le_late_start l1"
    "case out of None \<Rightarrow> le_current_iid l1 = le_current_iid l
       | Some d \<Rightarrow> ac_iid d = le_current_iid l \<and> le_current_iid l1 = le_current_iid l + 1"
    using plain_step[OF Cons.prems(1,2), of e] Cons.prems(3) by auto
  obtain l2 ds where r: "learner_run es l1 = Inr (l2, ds)" "le_current_iid l2 = le_current_iid l1 + of_nat (length ds)"
    "\<forall>k < length ds. ac_iid (ds ! k) = le_current_iid l1 + of_nat k"
    using Cons.IH[OF s(2,3)] Cons.prems(3) by auto
  show ?case
  proof (cases out)
    case None
    then show ?thesis using s r by simp
  next
    case (Some d)
    have "ac_iid ((d # ds) ! k) = le_current_iid l + of_nat k" if "k < length (d # ds)" for k
      using that s(4) r(3) Some by (cases k) (simp_all add: algebra_simps)
    then show ?thesis using s r Some by (simp add: algebra_simps)
  qed
qed

text \<open>
  C19: instances come out in order and without gaps. From any reachable state past its late start, a
  run of well-formed messages and deliveries returns, and the instances it delivers are
  \<open>c, c + 1, c + 2, \<dots>\<close> for the current instance \<open>c\<close> it started from, whatever the order of the messages.
\<close>

theorem learner_delivers_in_order:
  assumes "learner_reachable n l R" "\<not> le_late_start l" "\<forall>e \<in> set es. plain_event n e"
  shows "\<exists>l' ds. learner_run es l = Inr (l', ds) \<and> le_current_iid l' = le_current_iid l + of_nat (length ds) \<and>
    (\<forall>k < length ds. ac_iid (ds ! k) = le_current_iid l + of_nat k)"
  using run_in_order[OF _ assms(2,3)] learner_reachable_ok[OF assms(1)] by blast

section \<open>A majority is enough\<close>

text \<open>The learner has taken the messages \<open>M\<close>, all for ballot \<open>b\<close>, for its current instance \<open>i\<close>.\<close>

definition current_or_empty :: "int \<Rightarrow> learner \<Rightarrow> iid_t \<Rightarrow> ballot_t \<Rightarrow> linstance" where
  "current_or_empty n l i b = (case kh_lookup (le_instances l) i of Some x \<Rightarrow> x | None \<Rightarrow> linst_empty n i b)"

definition collecting :: "int \<Rightarrow> learner \<Rightarrow> iid_t \<Rightarrow> ballot_t \<Rightarrow> paxos_accepted set \<Rightarrow> bool" where
  "collecting n l i b M \<longleftrightarrow> learner_ok n l \<and> le_current_iid l = i \<and> \<not> le_late_start l \<and>
     li_last_update_ballot (current_or_empty n l i b) = b \<and>
     (\<forall>j < nat n. \<forall>a. li_acks (current_or_empty n l i b) ! j = Some a \<longrightarrow> ack_ballot a = b \<and> a \<in> accepted_clip ` M) \<and>
     (quorate n (current_or_empty n l i b) \<or>
      voters (li_acks (current_or_empty n l i b)) b = (\<lambda>m. unat (ack_aid m)) ` M)"

lemma voters_set:
  assumes "i < length xs"
  shows "voters (xs[i := Some a]) (ack_ballot a) = insert i (voters xs (ack_ballot a))"
  using assms by (auto simp: voters_def nth_list_update)

lemma collect_one:
  assumes c: "collecting n l i b M" and m: "ack_for n m" "ac_iid m = i" "ack_ballot m = b"
  shows "\<exists>l'. learner_receive_accepted l m = Inr l' \<and> collecting n l' i b (insert m M)"
proof -
  let ?inst = "current_or_empty n l i b" and ?x = "unat (ack_aid m)" and ?M = "insert m M"
  have l: "learner_ok n l" "le_current_iid l = i" "\<not> le_late_start l" and last: "li_last_update_ballot ?inst = b"
    and acks: "\<And>j a. j < nat n \<Longrightarrow> li_acks ?inst ! j = Some a \<Longrightarrow> ack_ballot a = b \<and> a \<in> accepted_clip ` M"
    and v: "quorate n ?inst \<or> voters (li_acks ?inst) b = (\<lambda>m. unat (ack_aid m)) ` M"
    using c unfolding collecting_def by auto
  have at: "instance_at l m = ?inst" using l(1) m(2,3) by (simp add: instance_at_def current_or_empty_def learner_ok_def split: option.splits)
  have len: "length (li_acks ?inst) = nat n" using linst_okD(3)[OF instance_at_ok[OF l(1), of m]] at by simp
  have x: "?x < nat n" using aid_ok_unat(2) m(1) by (simp add: ack_for_def)
  obtain l' inst' where r: "learner_receive_accepted l m = Inr l'" "learner_ok n l'"
    "kh_lookup (le_instances l') = (kh_lookup (le_instances l))(i \<mapsto> inst')"
    "absorbed n m ?inst inst'" "le_current_iid l' = i" "\<not> le_late_start l'"
    using receive_ok[OF l(1) m(1)] l(2,3) m(2) at by auto
  have cur: "current_or_empty n l' i b = inst'" using r(3) by (simp add: current_or_empty_def)
  have stored: "a \<in> accepted_clip ` ?M \<and> ack_ballot a = b" if "j < nat n" "li_acks inst' ! j = Some a" for j a
    using absorbed_sourced[OF r(4) len that, of "{a. a \<in> accepted_clip ` ?M \<and> ack_ballot a = b}"] acks[OF that(1)] m(3)
    by auto
  have "li_last_update_ballot inst' = b \<and> (quorate n inst' \<or> voters (li_acks inst') b = (\<lambda>m. unat (ack_aid m)) ` ?M)"
  proof (cases "quorate n ?inst \<or> stale ?inst m")
    case True
    then have e: "li_acks inst' = li_acks ?inst" "li_last_update_ballot inst' = b" using r(4) last by (simp_all add: absorbed_def)
    have "?x \<in> voters (li_acks ?inst) b" if "\<not> quorate n ?inst"
      using True that x acks[OF x] len by (auto simp: stale_def voters_def split: option.splits)
    with v e last show ?thesis by (auto simp: quorate_def)
  next
    case False
    then have e: "li_acks inst' = (li_acks ?inst)[?x := Some (accepted_clip m)]" "li_last_update_ballot inst' = b"
      using r(4) m(3) by (simp_all add: absorbed_def)
    have "voters (li_acks inst') b = insert ?x (voters (li_acks ?inst) b)"
      using voters_set[of ?x "li_acks ?inst" "accepted_clip m"] x len m(3) e(1) by simp
    with v False e(2) show ?thesis by auto
  qed
  then have "collecting n l' i b ?M" using r(2,5,6) stored unfolding collecting_def cur by blast
  with r(1) show ?thesis by blast
qed

lemma collect_all:
  assumes "collecting n l i b M" "\<forall>m \<in> set ms. ack_for n m \<and> ac_iid m = i \<and> ack_ballot m = b"
  shows "\<exists>l'. learner_run (map LeAccepted ms) l = Inr (l', []) \<and> collecting n l' i b (set ms \<union> M)"
  using assms
proof (induction ms arbitrary: l M)
  case Nil
  then show ?case by simp
next
  case (Cons m ms)
  obtain l1 where r: "learner_receive_accepted l m = Inr l1" "collecting n l1 i b (insert m M)"
    using collect_one[OF Cons.prems(1)] Cons.prems(2) by auto
  have "set (m # ms) \<union> M = set ms \<union> insert m M" by auto
  with r Cons.IH[OF r(2)] Cons.prems(2) show ?case by auto
qed

text \<open>
  C20: a majority is enough. When a learner holds nothing for its current instance and receives, in any
  order and with any repetitions, messages of a majority of the acceptors for that instance with one
  ballot, the next delivery hands out a copy of one of these messages.
\<close>

theorem learner_majority_delivers:
  assumes "learner_reachable n l R" "\<not> le_late_start l" "kh_lookup (le_instances l) (le_current_iid l) = None"
    "\<forall>m \<in> set ms. ack_for n m \<and> ac_iid m = le_current_iid l \<and> ack_ballot m = b"
    "n div 2 < int (card ((\<lambda>m. unat (ack_aid m)) ` set ms))"
  shows "\<exists>l1 l2 out. learner_run (map LeAccepted ms) l = Inr (l1, []) \<and>
    learner_deliver_next l1 = Inr (l2, Some out) \<and> out \<in> accepted_clip ` set ms"
proof -
  let ?i = "le_current_iid l"
  have ok: "learner_ok n l" using learner_reachable_ok[OF assms(1)] by simp
  have "collecting n l ?i b {}"
    using ok assms(2,3) by (simp add: collecting_def current_or_empty_def linst_empty_def linstance_new_def voters_def)
  then obtain l1 where r: "learner_run (map LeAccepted ms) l = Inr (l1, [])" "collecting n l1 ?i b (set ms)"
    using collect_all assms(4) by fastforce
  let ?inst = "current_or_empty n l1 ?i b"
  have l1: "learner_ok n l1" "le_current_iid l1 = ?i" "li_last_update_ballot ?inst = b"
    and acks: "\<And>j a. j < nat n \<Longrightarrow> li_acks ?inst ! j = Some a \<Longrightarrow> a \<in> accepted_clip ` set ms"
    and q: "quorate n ?inst" using r(2) assms(5) unfolding collecting_def quorate_def by auto
  have n0: "0 \<le> n" using ok by (simp add: learner_ok_def)
  have lk: "kh_lookup (le_instances l1) ?i = Some ?inst"
  proof (cases "kh_lookup (le_instances l1) ?i")
    case None
    then have "voters (li_acks ?inst) b = {}" by (simp add: current_or_empty_def linst_empty_def linstance_new_def voters_def)
    then show ?thesis using q l1(3) n0 by (simp add: quorate_def)
  qed (simp add: current_or_empty_def)
  obtain l2 j a where d: "learner_deliver_next l1 = Inr (l2, Some (accepted_clip a))" "li_acks ?inst ! j = Some a"
    "j \<in> voters (li_acks ?inst) (li_last_update_ballot ?inst)"
    using deliver_ok[OF l1(1)] l1(2) lk q by auto
  have "linst_ok n ?i ?inst" using l1(1) lk by (simp add: learner_ok_def)
  then have "j < nat n" using d(3) linst_okD(3) by (auto simp: voters_def)
  then obtain m where "m \<in> set ms" "a = accepted_clip m" using acks d(2) by blast
  with d(1) r(1) show ?thesis by auto
qed

section \<open>Messages that change nothing, and holes\<close>

text \<open>
  Late and repeated messages change nothing. A message for an instance already delivered leaves
  the learner as it is; one for a closed instance, or one whose acceptor already sent an equal or
  higher ballot for the instance, changes none of the stored messages and delivers nothing new.
\<close>

lemma learner_ignores:
  assumes "learner_reachable n l R" "\<not> le_late_start l" "ack_for n ack"
  shows "(ac_iid ack < le_current_iid l \<longrightarrow> learner_receive_accepted l ack = Inr l) \<and>
    (\<forall>inst. le_current_iid l \<le> ac_iid ack \<longrightarrow> kh_lookup (le_instances l) (ac_iid ack) = Some inst \<longrightarrow>
       li_final_value inst \<noteq> None \<or> stale inst ack \<longrightarrow>
       (\<exists>l' inst'. learner_receive_accepted l ack = Inr l' \<and> le_current_iid l' = le_current_iid l \<and>
          kh_lookup (le_instances l') = (kh_lookup (le_instances l))(ac_iid ack \<mapsto> inst') \<and>
          li_acks inst' = li_acks inst \<and> li_last_update_ballot inst' = li_last_update_ballot inst))"
proof (intro conjI impI allI)
  assume "ac_iid ack < le_current_iid l"
  then show "learner_receive_accepted l ack = Inr l" using assms(2) receive_old[of ack l] by simp
next
  fix inst
  assume a: "le_current_iid l \<le> ac_iid ack" "kh_lookup (le_instances l) (ac_iid ack) = Some inst"
    "li_final_value inst \<noteq> None \<or> stale inst ack"
  have ok: "learner_ok n l" using learner_reachable_ok[OF assms(1)] by simp
  then have lok: "linst_ok n (ac_iid ack) inst" using a(2) by (simp add: learner_ok_def)
  have drop: "quorate n inst \<or> stale inst ack" using a(3) linst_okD(5)[OF lok] by (auto simp: quorate_def)
  obtain l' inst' where r: "learner_receive_accepted l ack = Inr l'" "le_current_iid l' = le_current_iid l"
    "kh_lookup (le_instances l') = (kh_lookup (le_instances l))(ac_iid ack \<mapsto> inst')" "absorbed n ack inst inst'"
    using receive_ok[OF ok assms(3)] assms(2) a(1,2) by (auto simp: instance_at_def)
  with drop show "\<exists>l' inst'. learner_receive_accepted l ack = Inr l' \<and> le_current_iid l' = le_current_iid l \<and>
          kh_lookup (le_instances l') = (kh_lookup (le_instances l))(ac_iid ack \<mapsto> inst') \<and>
          li_acks inst' = li_acks inst \<and> li_last_update_ballot inst' = li_last_update_ballot inst"
    by (auto simp: absorbed_def)
qed

text \<open>
  Events of a learner whose instance numbers do not run over \<open>2^32 - 1\<close> and that is not repositioned
  before its late start.
\<close>

fun below_end :: "int \<Rightarrow> learner_event \<Rightarrow> learner \<Rightarrow> bool" where
  "below_end n (LeAccepted ack) l = ack_for n ack"
| "below_end n LeDeliver l = (le_current_iid l + 1 \<noteq> 0)"
| "below_end n (LeSetId iid) l = (iid + 1 \<noteq> 0 \<and> \<not> le_late_start l)"

inductive learner_positioned :: "int \<Rightarrow> learner \<Rightarrow> bool" for n where
  pos_new: "0 \<le> n \<Longrightarrow> learner_positioned n (learner_new cfg n)"
| pos_step: "learner_positioned n l \<Longrightarrow> below_end n e l \<Longrightarrow> learner_step e l = Inr (l', out) \<Longrightarrow>
     learner_positioned n l'"

definition hole_ok :: "learner \<Rightarrow> bool" where
  "hole_ok l \<longleftrightarrow> (le_current_iid l < le_highest_iid_closed l \<longrightarrow>
     (\<exists>inst. kh_lookup (le_instances l) (le_highest_iid_closed l) = Some inst \<and> li_final_value inst \<noteq> None)) \<and>
     (le_late_start l \<longrightarrow> le_highest_iid_closed l = 1)"

lemma receive_hole_ok:
  assumes l: "learner_ok n l" "hole_ok l" and ack: "ack_for n ack"
  shows "\<exists>l'. learner_receive_accepted l ack = Inr l' \<and> learner_ok n l' \<and> hole_ok l'"
proof -
  let ?l = "started l ack"
  have pos: "1 \<le> ac_iid ack" using ack by (simp add: ack_for_def word_gt_0) (metis inc_le add_0 word_gt_0)
  have sl: "learner_ok n ?l" "hole_ok ?l"
    using l pos by (auto simp: learner_ok_def hole_ok_def started_def)
  show ?thesis
  proof (cases "ac_iid ack < le_current_iid ?l")
    case True
    then show ?thesis using sl by (simp add: receive_old)
  next
    case False
    then obtain l' inst' where r: "learner_receive_accepted l ack = Inr l'" "learner_ok n l'"
      "kh_lookup (le_instances l') = (kh_lookup (le_instances l))(ac_iid ack \<mapsto> inst')"
      "quorate n inst' \<longleftrightarrow> li_final_value inst' \<noteq> None" "le_current_iid l' = le_current_iid ?l" "\<not> le_late_start l'"
      "absorbed n ack (instance_at l ack) inst'"
      "le_highest_iid_closed l' = (if quorate n inst' \<and> le_highest_iid_closed l < ac_iid ack then ac_iid ack
                                else le_highest_iid_closed l)"
      using receive_ok[OF l(1) ack] by (auto simp: not_less)
    have "hole_ok l'"
    proof (cases "le_highest_iid_closed l' = ac_iid ack")
      case True
      have "li_final_value inst' \<noteq> None" if c: "le_current_iid ?l < ac_iid ack"
      proof (cases "quorate n inst'")
        case f: False
        then have h: "le_highest_iid_closed l = ac_iid ack" using True r(8) by simp
        then obtain inst where i: "kh_lookup (le_instances l) (ac_iid ack) = Some inst" "li_final_value inst \<noteq> None"
          using c sl(2) unfolding hole_ok_def by auto
        then have "linst_ok n (ac_iid ack) inst" using l(1) by (simp add: learner_ok_def)
        then have "quorate n inst" using linst_okD(5)[of n "ac_iid ack" inst] i(2) by (auto simp: quorate_def)
        then have "quorate n inst'" using r(7) i(1) by (simp add: absorbed_def instance_at_def quorate_def)
        with f show ?thesis by simp
      qed (use r(4) in simp)
      then show ?thesis using True r(3,5,6) by (simp add: hole_ok_def)
    next
      case False
      then have "le_highest_iid_closed l' = le_highest_iid_closed l" using r(8) by (simp split: if_splits)
      then show ?thesis using False sl(2) r(3,5,6) by (simp add: hole_ok_def)
    qed
    with r(1,2) show ?thesis by blast
  qed
qed

lemma deliver_hole_ok:
  assumes l: "learner_ok n l" "hole_ok l" and room: "le_current_iid l + 1 \<noteq> 0"
  shows "\<exists>l' out. learner_deliver_next l = Inr (l', out) \<and> learner_ok n l' \<and> hole_ok l'"
proof -
  obtain l' out where d: "learner_deliver_next l = Inr (l', out)" "learner_ok n l'" "l' = l \<or>
     kh_lookup (le_instances l') = (kh_lookup (le_instances l))(le_current_iid l := None) \<and>
     le_current_iid l' = le_current_iid l + 1 \<and> le_late_start l' = le_late_start l \<and>
     le_highest_iid_closed l' = le_highest_iid_closed l"
    using deliver_ok[OF l(1)] by (auto split: option.splits if_splits)
  have "le_current_iid l < le_current_iid l + 1" using u32_inc_less[OF room] .
  then have "hole_ok l'" using d(3) l(2) unfolding hole_ok_def by (auto intro: less_trans)
  with d show ?thesis by blast
qed

lemma learner_positioned_ok: "learner_positioned n l \<Longrightarrow> learner_ok n l \<and> hole_ok l"
proof (induction rule: learner_positioned.induct)
  case (pos_new cfg)
  then show ?case using learner_new_ok[of n cfg] by (simp add: hole_ok_def learner_new_def)
next
  case (pos_step l e l' out)
  show ?case
  proof (cases e)
    case (LeAccepted ack)
    then show ?thesis using pos_step receive_hole_ok[of n l ack] by auto
  next
    case LeDeliver
    then show ?thesis using pos_step deliver_hole_ok[of n l] by auto
  next
    case (LeSetId iid)
    then have "l' = learner_set_instance_id l iid" "iid + 1 \<noteq> 0" "\<not> le_late_start l" using pos_step by auto
    moreover have "iid < iid + 1" using u32_inc_less[OF \<open>iid + 1 \<noteq> 0\<close>] .
    ultimately show ?thesis using pos_step.IH by (auto simp: learner_set_instance_id_def learner_ok_def hole_ok_def)
  qed
qed

text \<open>
  A hole ends in a closed instance. As long as instance numbers do not overflow and the learner
  is not repositioned before its late start, whenever the learner reports a hole it starts at the
  current instance and ends at a later one that is closed and still waits to be delivered.
\<close>

lemma learner_holes_end_closed:
  assumes "learner_positioned n l" "learner_has_holes l = Some (from, to)"
  shows "from = le_current_iid l \<and> from < to \<and>
    (\<exists>inst. kh_lookup (le_instances l) to = Some inst \<and> li_final_value inst \<noteq> None)"
  using learner_positioned_ok[OF assms(1)] assms(2) by (auto simp: learner_has_holes_def hole_ok_def split: if_splits)

section \<open>Concrete runs\<close>

text \<open>Three acceptors; acceptors 0 and 2 accept value 7 for instance \<open>i\<close> under ballot 1001.\<close>

definition demo_vote :: "u32 \<Rightarrow> iid_t \<Rightarrow> paxos_accepted" where
  "demo_vote a i = \<lparr>ac_src = 0, ac_iid = i, ac_ballot_0 = 1001, ac_value_ballot_0 = 1001, ac_n_aids = 1,
     ac_aids = Some [a], ac_value_0 = value_zero, ac_values = Some [\<lparr>pv_len = 1, pv_val = Some [7]\<rparr>],
     ac_ballots = Some [1001], ac_value_ballots = Some [1001]\<rparr>"

definition demo_learner :: learner where
  "demo_learner = learner_new paxos_config_default 3"

definition demo_closed :: learner where
  "demo_closed = (case learner_run [LeAccepted (demo_vote 0 1), LeAccepted (demo_vote 2 1)] demo_learner of
     Inr (l, _) \<Rightarrow> l | Inl _ \<Rightarrow> demo_learner)"

lemma demo_learner_reachable: "learner_reachable 3 demo_learner {}" "\<not> le_late_start demo_learner" "le_current_iid demo_learner = 1"
  using lreach_new[of 3 paxos_config_default] by (simp_all add: demo_learner_def learner_new_def paxos_config_default_def)

lemma learner_run_reachable:
  "learner_reachable n l R \<Longrightarrow> \<forall>m \<in> set ms. ack_for n m \<Longrightarrow> learner_run (map LeAccepted ms) l = Inr (l', ds) \<Longrightarrow>
    learner_reachable n l' (set ms \<union> R)"
proof (induction ms arbitrary: l R ds)
  case (Cons m ms)
  obtain l1 where s: "learner_receive_accepted l m = Inr l1"
    using Cons.prems(3) by (cases "learner_receive_accepted l m") simp_all
  then have r: "learner_reachable n l1 (insert m R)"
    using lreach_step[OF Cons.prems(1), of "LeAccepted m" l1 None] Cons.prems(2) by simp
  obtain ds' where "learner_run (map LeAccepted ms) l1 = Inr (l', ds')"
    using Cons.prems(3) s by (cases "learner_run (map LeAccepted ms) l1") auto
  then have "learner_reachable n l' (set ms \<union> insert m R)" using Cons.IH[OF r] Cons.prems(2) by simp
  moreover have "set (m # ms) \<union> R = set ms \<union> insert m R" by auto
  ultimately show ?case by simp
qed simp

lemma demo_acks: "a \<in> {0, 1, 2} \<Longrightarrow> 0 < i \<Longrightarrow> ack_for 3 (demo_vote a i)"
  by (auto simp: ack_for_def demo_vote_def accepted_ok_def arr_len_def value_ok_def aid_ok_def ack_aid_def int_of_u32_def)

lemma demo_closed_reachable: "learner_reachable 3 demo_closed {demo_vote 0 1, demo_vote 2 1}"
proof -
  let ?ms = "[demo_vote 0 1, demo_vote 2 1]"
  have "case learner_run (map LeAccepted ?ms) demo_learner of Inr _ \<Rightarrow> True | Inl _ \<Rightarrow> False" by code_simp
  then obtain l' ds where r: "learner_run (map LeAccepted ?ms) demo_learner = Inr (l', ds)"
    by (auto split: sum.splits)
  then show ?thesis using learner_run_reachable[OF demo_learner_reachable(1) _ r] demo_acks
    by (auto simp: demo_closed_def)
qed

lemma demo_closed_current: "le_current_iid demo_closed = 1" "\<not> le_late_start demo_closed"
  by code_simp+

theorem learner_delivers_chosen_witness:
  "\<exists>l' out. learner_deliver_next demo_closed = Inr (l', Some out) \<and> ac_iid out = 1 \<and> le_current_iid l' = 2 \<and>
     (\<exists>m \<in> {demo_vote 0 1, demo_vote 2 1}. out = accepted_clip m \<and>
        majority_for 3 {demo_vote 0 1, demo_vote 2 1} 1 (ack_ballot m))"
proof -
  have "case learner_deliver_next demo_closed of Inr (_, Some _) \<Rightarrow> True | _ \<Rightarrow> False" by code_simp
  then obtain l' out where "learner_deliver_next demo_closed = Inr (l', Some out)"
    by (auto split: sum.splits prod.splits option.splits)
  with learner_delivers_chosen[OF demo_closed_reachable this] show ?thesis
    unfolding demo_closed_current by auto
qed

theorem learner_delivers_in_order_witness:
  "\<exists>l' ds. learner_run [LeAccepted (demo_vote 0 2), LeAccepted (demo_vote 1 2), LeDeliver, LeDeliver, LeDeliver] demo_closed =
     Inr (l', ds) \<and> le_current_iid l' = 1 + of_nat (length ds) \<and> (\<forall>k < length ds. ac_iid (ds ! k) = 1 + of_nat k)"
proof -
  let ?es = "[LeAccepted (demo_vote 0 2), LeAccepted (demo_vote 1 2), LeDeliver, LeDeliver, LeDeliver]"
  have "\<forall>e \<in> set ?es. plain_event 3 e" by (simp add: demo_acks)
  from learner_delivers_in_order[OF demo_closed_reachable demo_closed_current(2) this] show ?thesis
    unfolding demo_closed_current .
qed

theorem learner_majority_delivers_witness:
  "\<exists>l1 l2 out. learner_run (map LeAccepted [demo_vote 2 1, demo_vote 2 1, demo_vote 1 1]) demo_learner = Inr (l1, []) \<and>
     learner_deliver_next l1 = Inr (l2, Some out) \<and>
     out \<in> accepted_clip ` set [demo_vote 2 1, demo_vote 2 1, demo_vote 1 1]"
proof -
  let ?ms = "[demo_vote 2 1, demo_vote 2 1, demo_vote 1 1]"
  have lk: "kh_lookup (le_instances demo_learner) (le_current_iid demo_learner) = None"
    by (simp add: demo_learner_def learner_new_def kh.init_lookup)
  have ms: "\<forall>m \<in> set ?ms. ack_for 3 m \<and> ac_iid m = le_current_iid demo_learner \<and> ack_ballot m = 1001"
    unfolding demo_learner_reachable(3) using demo_acks[of _ 1] by (simp add: demo_vote_def ack_ballot_def)
  have "(\<lambda>m. unat (ack_aid m)) ` set ?ms = {2, 1}" by (simp add: demo_vote_def ack_aid_def)
  then have "3 div 2 < int (card ((\<lambda>m. unat (ack_aid m)) ` set ?ms))" by simp
  from learner_majority_delivers[OF demo_learner_reachable(1,2) lk ms this] show ?thesis .
qed

end
