(* ===== verification/Evlearner_Props.thy ===== *)
theory Evlearner_Props
  imports Evlearner Learner_Safety
begin

text \<open>
  Delivery by the learner process: after every acceptance, all instances that can be handed out are
  handed out, each once, in the order of the instances and only when a majority voted for them.
\<close>

definition first_val :: "paxos_accepted \<Rightarrow> paxos_value" where
  "first_val m = hd (the (ac_values m))"

text \<open>One step of the delivery, from the lemmas on the learner.\<close>

lemma delivery_step:
  assumes "learner_reachable n l R" "\<forall>m \<in> R. ac_values m \<noteq> None"
  shows "(\<exists>l' m. learner_deliver_next l = Inr (l', Some m) \<and> learner_reachable n l' R \<and> ac_iid m = le_current_iid l \<and>
      le_current_iid l' = le_current_iid l + 1 \<and> m \<in> accepted_clip ` R \<and> majority_for n R (ac_iid m) (ack_ballot m) \<and>
      aread (ac_values m) 0 = Inr (first_val m) \<and> (\<exists>a. paxos_accepted_destroy m = Inr a) \<and>
      kh_size (le_instances l') < kh_size (le_instances l)) \<or>
    learner_deliver_next l = Inr (l, None)"
proof -
  have ok: "learner_ok n l" "sourced n R l" "\<forall>m \<in> R. ack_for n m" using learner_reachable_ok[OF assms(1)] by simp_all
  obtain l' out where d: "learner_deliver_next l = Inr (l', out)" "learner_ok n l'" using deliver_ok[OF ok(1)] by blast
  show ?thesis
  proof (cases out)
    case None
    then show ?thesis using deliver_ok[OF ok(1)] d(1) by (auto split: option.splits if_splits)
  next
    case (Some m)
    obtain inst where i: "kh_lookup (le_instances l) (le_current_iid l) = Some inst" "quorate n inst"
      using deliver_ok[OF ok(1)] d(1) Some by (auto split: option.splits if_splits)
    obtain j a where a: "j \<in> voters (li_acks inst) (li_last_update_ballot inst)" "li_acks inst ! j = Some a"
      "m = accepted_clip a" "ac_iid a = le_current_iid l" "le_current_iid l' = le_current_iid l + 1"
      "kh_lookup (le_instances l') = (kh_lookup (le_instances l))(le_current_iid l := None)"
      using deliver_ok[OF ok(1)] d(1) Some i by auto
    have lok: "linst_ok n (le_current_iid l) inst" using ok(1) i(1) by (simp add: learner_ok_def)
    have j: "j < nat n" "ack_ballot a = li_last_update_ballot inst"
      using a(1,2) linst_okD(3)[OF lok] by (auto simp: voters_def)
    obtain q where q: "q \<in> R" "a = accepted_clip q" using ok(2) i(1) j(1) a(2) unfolding sourced_def by blast
    have m: "m = accepted_clip q" using a(3) q(2) by simp
    have "accepted_ok m" using ok(3) q(1) m by (simp add: ack_for_def accepted_clip_ok)
    moreover have "ac_values m \<noteq> None" using assms(2) q(1) m by simp
    ultimately obtain v vs where v: "ac_values m = Some (v # vs)"
      using unat_u32_pos[of "ac_n_aids m"] by (cases "the (ac_values m)") (auto simp: accepted_ok_def)
    have h: "kh_ok (le_instances l)" "kh_ok (le_instances l')" using ok(1) d(2) by (simp_all add: learner_ok_def)
    have "card (dom (kh_lookup (le_instances l)) - {le_current_iid l}) < card (dom (kh_lookup (le_instances l)))"
      using i(1) kh.finite_dom[OF h(1)] by (intro card_Diff1_less) auto
    then have size: "kh_size (le_instances l') < kh_size (le_instances l)"
      by (simp add: kh.count_card h a(6) del: card_Diff_insert card_Diff_singleton_if)
    have "learner_reachable n l' ({} \<union> R)"
      using lreach_step[OF assms(1), of LeDeliver l' "Some m"] d(1) Some by simp
    moreover have "m \<in> accepted_clip ` R" using m q(1) by blast
    moreover have "majority_for n R (ac_iid m) (ack_ballot m)"
      using voters_majority[OF ok(1,2) i ok(3)] j(2) a(3,4) by simp
    ultimately show ?thesis
      using d(1) Some a(3-5) v size accepted_destroy_ok[OF \<open>accepted_ok m\<close>] by (auto simp: first_val_def)
  qed
qed

definition hand_out :: "(iid_t \<Rightarrow> u8 arr \<Rightarrow> int \<Rightarrow> 'd \<Rightarrow> 'd) \<Rightarrow> paxos_accepted \<Rightarrow> 'd \<Rightarrow> 'd" where
  "hand_out f m d = f (ac_iid m) (pv_val (first_val m)) (pv_len (first_val m)) d"

lemma receive_reachable:
  assumes "learner_reachable n l R" "ack_for n ack"
  shows "\<exists>l'. learner_receive_accepted l ack = Inr l' \<and> learner_reachable n l' (insert ack R) \<and>
    le_current_iid l' = le_current_iid (started l ack)"
proof -
  have ok: "learner_ok n l" using learner_reachable_ok[OF assms(1)] by simp
  have "\<exists>l'. learner_receive_accepted l ack = Inr l' \<and> le_current_iid l' = le_current_iid (started l ack)"
  proof (cases "ac_iid ack < le_current_iid (started l ack)")
    case True
    then show ?thesis by (simp add: receive_old)
  next
    case False
    then show ?thesis using receive_ok[OF ok assms(2)] by (auto simp: not_less)
  qed
  then obtain l' where l': "learner_receive_accepted l ack = Inr l'" "le_current_iid l' = le_current_iid (started l ack)"
    by blast
  have "learner_reachable n l' (received (LeAccepted ack) \<union> R)"
    by (rule lreach_step[OF assms(1), of _ _ None]) (simp_all add: assms(2) l'(1))
  then show ?thesis using l' by simp
qed

text \<open>
  What the learner process needs of a delivery function: from a ready state it succeeds, with the
  effect \<open>f\<close>, and leaves a ready state.
\<close>

locale delivery =
  fixes delfun :: "'d deliver_function" and f :: "iid_t \<Rightarrow> u8 arr \<Rightarrow> int \<Rightarrow> 'd \<Rightarrow> 'd" and ready :: "'d \<Rightarrow> bool"
  assumes takes: "ready d \<Longrightarrow> delfun i v s d = Inr (f i v s d)"
    and stays_ready: "ready d \<Longrightarrow> ready (f i v s d)"
begin

lemma deliver_loop_ok:
  assumes "learner_reachable n l R" "\<forall>m \<in> R. ac_values m \<noteq> None" "kh_size (le_instances l) < k" "ready d"
  shows "\<exists>l' ds. deliver_loop delfun k l d = Inr (l', fold (hand_out f) ds d) \<and>
    ready (fold (hand_out f) ds d) \<and> learner_reachable n l' R \<and> learner_deliver_next l' = Inr (l', None) \<and>
    le_current_iid l' = le_current_iid l + of_nat (length ds) \<and>
    (\<forall>j < length ds. ac_iid (ds ! j) = le_current_iid l + of_nat j) \<and>
    (\<forall>m \<in> set ds. m \<in> accepted_clip ` R \<and> majority_for n R (ac_iid m) (ack_ballot m))"
  using assms(1,3,4)
proof (induction k arbitrary: l d)
  case 0
  then show ?case by simp
next
  case (Suc k)
  show ?case
  proof (cases "learner_deliver_next l = Inr (l, None)")
    case True
    then show ?thesis using Suc.prems(1,3) by (intro exI[of _ l] exI[of _ "[]"]) simp
  next
    case False
    then obtain l1 m a where s: "learner_deliver_next l = Inr (l1, Some m)" "learner_reachable n l1 R" "ac_iid m = le_current_iid l"
      "le_current_iid l1 = le_current_iid l + 1" "m \<in> accepted_clip ` R" "majority_for n R (ac_iid m) (ack_ballot m)"
      "aread (ac_values m) 0 = Inr (first_val m)" "paxos_accepted_destroy m = Inr a"
      "kh_size (le_instances l1) < kh_size (le_instances l)"
      using delivery_step[OF Suc.prems(1) assms(2)] by blast
    have d: "delfun (ac_iid m) (pv_val (first_val m)) (pv_len (first_val m)) d = Inr (hand_out f m d)" "ready (hand_out f m d)"
      using takes[OF Suc.prems(3)] stays_ready[OF Suc.prems(3)] by (simp_all add: hand_out_def)
    have "kh_size (le_instances l1) < k" using s(9) Suc.prems(2) by simp
    then obtain l' ds where r: "deliver_loop delfun k l1 (hand_out f m d) = Inr (l', fold (hand_out f) ds (hand_out f m d))"
      "learner_reachable n l' R" "learner_deliver_next l' = Inr (l', None)" "le_current_iid l' = le_current_iid l1 + of_nat (length ds)"
      "\<forall>j < length ds. ac_iid (ds ! j) = le_current_iid l1 + of_nat j"
      "\<forall>m \<in> set ds. m \<in> accepted_clip ` R \<and> majority_for n R (ac_iid m) (ack_ballot m)"
      "ready (fold (hand_out f) ds (hand_out f m d))"
      using Suc.IH[OF s(2) _ d(2)] by blast
    have "ac_iid ((m # ds) ! j) = le_current_iid l + of_nat j" if "j < length (m # ds)" for j
      using that r(5) s(3,4) by (cases j) (auto simp: algebra_simps)
    moreover have "deliver_loop delfun (Suc k) l d = Inr (l', fold (hand_out f) (m # ds) d)"
      using s(1,7,8) r(1) d(1) by simp
    ultimately show ?thesis
      using r s(4-6) by (intro exI[of _ l'] exI[of _ "m # ds"]) (auto simp: algebra_simps)
  qed
qed

lemma handle_accepted_ok:
  assumes "learner_reachable n (el_state l) R" "ack_for n ack" "\<forall>m \<in> insert ack R. ac_values m \<noteq> None" "ready d"
  shows "\<exists>l' ds. evlearner_handle_accepted delfun r (PAXOS_ACCEPTED ack) l d = Inr (l', fold (hand_out f) ds d) \<and>
    ready (fold (hand_out f) ds d) \<and> learner_reachable n (el_state l') (insert ack R) \<and>
    learner_deliver_next (el_state l') = Inr (el_state l', None) \<and>
    (\<forall>j < length ds. ac_iid (ds ! j) = le_current_iid (started (el_state l) ack) + of_nat j) \<and>
    (\<forall>m \<in> set ds. m \<in> accepted_clip ` insert ack R \<and> majority_for n (insert ack R) (ac_iid m) (ack_ballot m))"
proof -
  obtain l1 where l1: "learner_receive_accepted (el_state l) ack = Inr l1" "learner_reachable n l1 (insert ack R)"
    "le_current_iid l1 = le_current_iid (started (el_state l) ack)" using receive_reachable[OF assms(1,2)] by blast
  show ?thesis
    using deliver_loop_ok[OF l1(2) assms(3) _ assms(4), of "kh_size (le_instances l1) + 1"] l1
    by (auto simp: evlearner_deliver_next_closed_def simp del: deliver_loop.simps)
qed

end

text \<open>Delivery functions that cannot fail, as those of the applications that use a learner alone.\<close>

interpretation app: delivery "\<lambda>i v s d. Inr (f i v s d)" f "\<lambda>_. True" for f
  by unfold_locales simp_all

text \<open>
  The learner process hands out everything that is due. When every message so far carries values,
  handling a further well-formed acceptance returns (the delivery loop ends) and calls the delivery
  function for a possibly empty run of consecutive instances, starting with the one the learner was
  waiting for; each call passes the first value of a message the learner received and for which a
  majority of the acceptors voted with one ballot; afterwards nothing more can be delivered.
\<close>

lemma learner_hands_out_all:
  assumes "learner_reachable n (el_state l) R" "ack_for n ack" "\<forall>m \<in> insert ack R. ac_values m \<noteq> None"
  shows "\<exists>l' ds. evlearner_handle_accepted (\<lambda>i v s d. Inr (f i v s d)) r (PAXOS_ACCEPTED ack) l d =
      Inr (l', fold (hand_out f) ds d) \<and>
    learner_reachable n (el_state l') (insert ack R) \<and> learner_deliver_next (el_state l') = Inr (el_state l', None) \<and>
    (\<forall>j < length ds. ac_iid (ds ! j) = le_current_iid (started (el_state l) ack) + of_nat j) \<and>
    (\<forall>m \<in> set ds. m \<in> accepted_clip ` insert ack R \<and> majority_for n (insert ack R) (ac_iid m) (ack_ballot m))"
  using app.handle_accepted_ok[OF assms TrueI, of f r d] by blast

definition demo_el :: evlearner where
  "demo_el = \<lparr>el_state = learner_new paxos_config_default 1, el_hole_timer_armed = True\<rparr>"

end
