(* ===== verification/System.thy ===== *)
theory System
  imports Acceptor_Safety Proposer_Safety Evlearner_Props
begin

text \<open>
  The whole protocol: acceptors, proposers and learners that exchange messages over a network that may
  delay, reorder, lose and duplicate them. Every step of the system is one call of one component with one message,
  the way the processes dispatch it. The acceptors form one group, so no acceptor routes the answers of
  subordinates; acceptors send no state messages and no timeout is retried, because the functions that
  would do so return at once.
\<close>

section \<open>The system\<close>

text \<open>
  The network keeps every message sent so far, the oldest first. \<open>sy_offered\<close> are the values clients
  submitted, \<open>sy_delivered\<close> what each learner delivered.
\<close>

record system =
  sy_acceptors :: "mem_storage acceptor list"
  sy_proposers :: "proposer list"
  sy_learners :: "learner list"
  sy_net :: "paxos_message list"
  sy_offered :: "paxos_value list"
  sy_delivered :: "(nat \<times> paxos_accepted) list"

text \<open>
  A client submits bytes to a proposer, a proposer opens an instance or sends the next accept request or
  skips to an instance, an acceptor repeats or trims, a learner delivers or skips to an instance; or
  acceptor, proposer or learner \<open>i\<close> handles message \<open>k\<close> of the network.
\<close>

datatype system_event =
    Client nat "u8 list" | Open nat timeval | Accept nat | ProposerAt nat iid_t
  | Repeat nat iid_t | Trim nat iid_t | Deliver nat | LearnerAt nat iid_t
  | ToAcceptor nat nat | ToProposer nat nat timeval | ToLearner nat nat

text \<open>Which handler a component runs for a message; it has no subscription for the other types.\<close>

fun at_acceptor :: "paxos_message \<Rightarrow> acceptor_event option" where
  "at_acceptor (PAXOS_PREPARE req) = Some (RecvPrepare (int_of_u32 (pp_src req)) req)"
| "at_acceptor (PAXOS_ACCEPT req) = Some (RecvAccept req)"
| "at_acceptor m = None"

fun at_proposer :: "timeval \<Rightarrow> paxos_message \<Rightarrow> proposer_event option" where
  "at_proposer now (PAXOS_PROMISE ack) = Some (PePromise now ack)"
| "at_proposer now (PAXOS_ACCEPTED ack) = Some (PeAccepted ack)"
| "at_proposer now (PAXOS_PREEMPTED ack) = Some (PePreempted now ack)"
| "at_proposer now m = None"

fun at_learner :: "paxos_message \<Rightarrow> learner_event option" where
  "at_learner (PAXOS_ACCEPTED ack) = Some (LeAccepted ack)"
| "at_learner m = None"

definition sends :: "paxos_message option \<Rightarrow> system \<Rightarrow> system" where
  "sends m s = s\<lparr>sy_net := sy_net s @ (case m of None \<Rightarrow> [] | Some m \<Rightarrow> [m])\<rparr>"

definition run_acceptor :: "nat \<Rightarrow> acceptor_event option \<Rightarrow> system \<Rightarrow> system res" where
  "run_acceptor i e s = (case e of None \<Rightarrow> Inr s | Some e \<Rightarrow>
     if i < length (sy_acceptors s)
     then bind_res (acceptor_step e (sy_acceptors s ! i)) (\<lambda>(a, m).
          Inr (sends m (s\<lparr>sy_acceptors := (sy_acceptors s)[i := a]\<rparr>)))
     else Inr s)"

definition run_proposer :: "nat \<Rightarrow> proposer_event option \<Rightarrow> system \<Rightarrow> system res" where
  "run_proposer j e s = (case e of None \<Rightarrow> Inr s | Some e \<Rightarrow>
     if j < length (sy_proposers s)
     then bind_res (proposer_step e (sy_proposers s ! j)) (\<lambda>(p, m).
          Inr (sends m (s\<lparr>sy_proposers := (sy_proposers s)[j := p]\<rparr>)))
     else Inr s)"

definition run_learner :: "nat \<Rightarrow> learner_event option \<Rightarrow> system \<Rightarrow> system res" where
  "run_learner k e s = (case e of None \<Rightarrow> Inr s | Some e \<Rightarrow>
     if k < length (sy_learners s)
     then bind_res (learner_step e (sy_learners s ! k)) (\<lambda>(l, out).
          Inr (s\<lparr>sy_learners := (sy_learners s)[k := l],
                 sy_delivered := sy_delivered s @ (case out of None \<Rightarrow> [] | Some m \<Rightarrow> [(k, m)])\<rparr>))
     else Inr s)"

definition net_msg :: "system \<Rightarrow> nat \<Rightarrow> paxos_message option" where
  "net_msg s k = (if k < length (sy_net s) then Some (sy_net s ! k) else None)"

fun system_step :: "system_event \<Rightarrow> system \<Rightarrow> system res" where
  "system_step (Client j bs) s =
     run_proposer j (Some (PePropose bs)) (s\<lparr>sy_offered := sy_offered s @ [\<lparr>pv_len = int (length bs), pv_val = Some bs\<rparr>]\<rparr>)"
| "system_step (Open j now) s = run_proposer j (Some (PePrepare now)) s"
| "system_step (Accept j) s = run_proposer j (Some PeAccept) s"
| "system_step (ProposerAt j iid) s = run_proposer j (Some (PeSetId iid)) s"
| "system_step (Repeat i iid) s = run_acceptor i (Some (RecvRepeat iid)) s"
| "system_step (Trim i iid) s = run_acceptor i (Some (RecvTrim \<lparr>tr_iid = iid\<rparr>)) s"
| "system_step (Deliver k) s = run_learner k (Some LeDeliver) s"
| "system_step (LearnerAt k iid) s = run_learner k (Some (LeSetId iid)) s"
| "system_step (ToAcceptor i k) s = run_acceptor i (Option.bind (net_msg s k) at_acceptor) s"
| "system_step (ToProposer j k now) s = run_proposer j (Option.bind (net_msg s k) (at_proposer now)) s"
| "system_step (ToLearner l k) s = run_learner l (Option.bind (net_msg s k) at_learner) s"

fun system_run :: "system_event list \<Rightarrow> system \<Rightarrow> system res" where
  "system_run [] s = Inr s"
| "system_run (e # es) s = bind_res (system_step e s) (system_run es)"

text \<open>
  \<open>n\<close> fresh acceptors on the memory backend, numbered from 0, proposers with the numbers \<open>pids\<close> and \<open>m\<close>
  learners.
\<close>

definition system_new :: "paxos_config \<Rightarrow> nat \<Rightarrow> int list \<Rightarrow> nat \<Rightarrow> system" where
  "system_new cfg n pids m =
     \<lparr>sy_acceptors = map (\<lambda>i. the (acceptor_new cfg 0 (int i))) [0..<n], sy_proposers = map (\<lambda>j. proposer_new j (int n)) pids,
      sy_learners = replicate m (learner_new cfg (int n)), sy_net = [], sy_offered = [], sy_delivered = []\<rparr>"

end
