(* ===== verification/System_Props.thy ===== *)
theory System_Props
  imports System
begin

text \<open>
  Composition of the components: every message a component sends meets what its receivers rely on, so
  no component ever fails in a run of the system, and the values that are delivered are values that
  clients submitted.
\<close>

section \<open>Values and messages\<close>

text \<open>A value whose length is the length of its bytes, as clients submit it.\<close>

definition exact :: "paxos_value \<Rightarrow> bool" where
  "exact v \<longleftrightarrow> (\<exists>bs. v = \<lparr>pv_len = int (length bs), pv_val = Some bs\<rparr>)"

lemma exact_props [simp]:
  assumes "exact v"
  shows "value_ok v" "lvalue_clip v = v" "value_clip v = v \<or> pv_len (value_clip v) = 0"
    "paxos_value_new (pv_val v) (pv_len v) = Inr v"
    "\<lparr>pv_len = pv_len v, pv_val = Some (take (nat (pv_len v)) (case pv_val v of None \<Rightarrow> [] | Some bs \<Rightarrow> bs))\<rparr> = v"
  using assms by (auto simp: exact_def value_ok_def lvalue_clip_def value_clip_def paxos_value_new_def copy_bytes_def acopy_def)

text \<open>A value of \<open>S\<close>, or none: the storage replaces the bytes of an empty value by \<^verbatim>\<open>NULL\<close>.\<close>

definition from_or_empty :: "paxos_value set \<Rightarrow> paxos_value \<Rightarrow> bool" where
  "from_or_empty S v \<longleftrightarrow> v \<in> S \<or> pv_len v = 0"

lemma from_or_empty_clip: "exact v \<Longrightarrow> v \<in> S \<Longrightarrow> from_or_empty S (value_clip v)"
  using exact_props(3)[of v] unfolding from_or_empty_def by metis

text \<open>The messages of a system of \<open>n\<close> acceptors whose clients submitted \<open>S\<close>.\<close>

fun msg_ok :: "int \<Rightarrow> paxos_value set \<Rightarrow> paxos_message \<Rightarrow> bool" where
  "msg_ok n S (PAXOS_PREPARE req) \<longleftrightarrow> 0 < pp_iid req"
| "msg_ok n S (PAXOS_PROMISE ack) \<longleftrightarrow> promise_for n ack \<and> (\<forall>v \<in> set (the (pr_values ack)). from_or_empty S v)"
| "msg_ok n S (PAXOS_ACCEPT req) \<longleftrightarrow> 0 < pa_iid req \<and> pa_value req \<in> S"
| "msg_ok n S (PAXOS_ACCEPTED ack) \<longleftrightarrow> ack_for n ack \<and> (\<exists>v vs. ac_values ack = Some (v # vs) \<and> v \<in> S)"
| "msg_ok n S m \<longleftrightarrow> True"

lemma msg_ok_mono: "msg_ok n S m \<Longrightarrow> S \<subseteq> S' \<Longrightarrow> msg_ok n S' m"
  by (cases m) (auto simp: from_or_empty_def)

lemma ack_for_accepted: "ack_for n ack \<Longrightarrow> accepted_for n ack"
  by (auto simp: ack_for_def accepted_for_iff ack_aid_def elim: accepted_ok_shape)

section \<open>Acceptors\<close>

definition acceptor_from :: "paxos_value set \<Rightarrow> mem_storage acceptor \<Rightarrow> bool" where
  "acceptor_from S a \<longleftrightarrow> (\<forall>i r. acceptor_recs a i = Some r \<longrightarrow> 0 < i \<and>
     (\<forall>vs. ac_values r = Some vs \<longrightarrow> (\<forall>v \<in> set vs. from_or_empty S v)))"

fun aevent_from :: "paxos_value set \<Rightarrow> acceptor_event \<Rightarrow> bool" where
  "aevent_from S (RecvPrepare isrc req) \<longleftrightarrow> 0 < pp_iid req"
| "aevent_from S (RecvAccept req) \<longleftrightarrow> 0 < pa_iid req \<and> pa_value req \<in> S"
| "aevent_from S e \<longleftrightarrow> True"

lemma small_aid:
  assumes "0 \<le> aid" "aid < n" "n < 2 ^ 31"
  shows "aid_ok n (u32_of_int aid)"
proof -
  have "sint (word_of_int aid :: u32) = aid"
    using assms by (simp add: sint_word_ariths signed_take_bit_int_eq_self sint_sbintrunc')
  then show ?thesis using assms by (simp add: aid_ok_def int_of_u32_def u32_of_int_def)
qed

lemma first_value_from:
  assumes "acceptor_from S a" "acceptor_recs a i = Some r" "accepted_ok r" "\<forall>v \<in> S. exact v"
  shows "value_ok (first_value r) \<and> from_or_empty S (first_value r)"
proof (cases "ac_values r")
  case None
  then show ?thesis by (simp add: first_value_def from_or_empty_def value_zero_def value_ok_def)
next
  case (Some vs)
  then obtain w ws where vs: "vs = w # ws"
    using assms(3) unat_u32_pos[of "ac_n_aids r"] by (cases vs) (auto simp: accepted_ok_def)
  then have w: "from_or_empty S w" using assms(1,2) Some by (auto simp: acceptor_from_def)
  show ?thesis
  proof (cases "w \<in> S")
    case True
    then have e: "exact w" using assms(4) by blast
    have "first_value r = w" using exact_props(5)[OF e] Some vs by (simp add: first_value_def)
    then show ?thesis using True e by (simp add: from_or_empty_def)
  next
    case False
    then show ?thesis using w Some vs by (simp add: first_value_def from_or_empty_def value_ok_def)
  qed
qed

lemma promise_of_ok:
  assumes "value_ok (first_value r)" "from_or_empty S (first_value r)" "own_record aid r" "aid_ok n (u32_of_int aid)"
  shows "msg_ok n S (PAXOS_PROMISE (promise_of r))"
  using assms by (simp add: promise_for_def promise_ok_def promise_of_def arr_len_def own_record_def)

lemma acceptor_step_from:
  assumes a: "mem_inv a" "0 \<le> ar_id a" "ar_id a < n" "n < 2 ^ 31" "acceptor_from S a"
    and e: "aevent_from S e" and S: "\<forall>v \<in> S. exact v"
  shows "\<exists>a' m. acceptor_step e a = Inr (a', m) \<and> event_ok e \<and> acceptor_from S a' \<and> (\<forall>x. m = Some x \<longrightarrow> msg_ok n S x)"
proof -
  let ?t = "ar_trim_iid a" and ?R = "acceptor_recs a" and ?aid = "ar_id a"
  note aid = small_aid[OF a(2-4)]
  have ok: "event_ok e" using e S by (cases e) auto
  obtain a' where st: "acceptor_step e a = Inr (a', snd (abs_step ?aid e (?t, ?R)))"
    "mem_rel ?aid (fst (abs_step ?aid e (?t, ?R))) a'"
    using mem_step[OF a(1)[unfolded mem_inv_def] ok] by blast
  have recs: "acceptor_recs a' = snd (fst (abs_step ?aid e (?t, ?R)))" using mem_relD(3)[OF st(2)] .
  have inv': "mem_inv a'" by (rule mem_rel_inv[OF st(2)])
  have own: "own_record ?aid r" if "acceptor_recs a' i = Some r" for i r
    using mem_invD(2)[OF inv' that] mem_relD(1)[OF st(2)] by simp
  have from': "acceptor_from S a'"
  proof (cases e)
    case (RecvPrepare isrc req)
    then show ?thesis using a(5) e recs
      by (auto simp: acceptor_from_def Let_def prepare_result_def prepared_record_props split: option.splits if_splits)
  next
    case (RecvAccept req)
    then have "exact (pa_value req)" "pa_value req \<in> S" using e S by auto
    then have "from_or_empty S (value_clip \<lparr>pv_len = pv_len (pa_value req),
        pv_val = Some (take (nat (pv_len (pa_value req))) (case pv_val (pa_value req) of None \<Rightarrow> [] | Some bs \<Rightarrow> bs))\<rparr>)"
      by (simp add: from_or_empty_clip)
    then show ?thesis using RecvAccept a(5) e recs
      by (auto simp: acceptor_from_def accept_result_def Let_def record_clip_def accepted_record_def split: option.splits if_splits)
  next
    case (RecvTrim tr)
    then show ?thesis using a(5) recs by (auto simp: acceptor_from_def split: if_splits)
  qed (use a(5) recs in \<open>simp add: acceptor_from_def\<close>)
  have "msg_ok n S x" if x: "snd (abs_step ?aid e (?t, ?R)) = Some x" for x
  proof (cases e)
    case (RecvPrepare isrc req)
    then obtain r where r: "acceptor_recs a' (pp_iid req) = Some r" "x = PAXOS_PROMISE (promise_of r)"
      using x recs by (auto simp: Let_def split: if_splits)
    show ?thesis
      using promise_of_ok[OF _ _ own[OF r(1)] aid] first_value_from[OF from' r(1) mem_invD(3)[OF inv' r(1)] S] r(2) by blast
  next
    case (RecvAccept req)
    then have v: "exact (pa_value req)" "pa_value req \<in> S" "0 < pa_iid req" using e S by auto
    have "ack_for n (accepted_record ?aid req)"
      using accepted_record_props(1,4)[of req] v aid by (simp add: ack_for_def ack_aid_def accepted_record_def)
    then show ?thesis using RecvAccept x v
      by (auto simp: accept_result_def Let_def accepted_record_def split: option.splits if_splits)
  next
    case (RecvRepeat iid)
    then obtain r where r: "?R iid = Some r" "repeat_result (Some r) = Some r" "x = PAXOS_ACCEPTED r"
      using x by (auto simp: repeat_result_def split: option.splits if_splits)
    then obtain vs where vs: "ac_values r = Some vs" "0 < pv_len (hd vs)" by (auto simp: repeat_result_def split: option.splits if_splits)
    note rok = mem_invD(3)[OF a(1) r(1)]
    obtain w ws where w: "vs = w # ws" using rok vs(1) unat_u32_pos[of "ac_n_aids r"] by (cases vs) (auto simp: accepted_ok_def)
    have iid: "ac_iid r = iid" using ms.held_record(3)[OF mem_invD(1)[OF a(1)] r(1)] .
    have "0 < iid" "from_or_empty S w" using a(5) r(1) vs(1) w by (auto simp: acceptor_from_def)
    then have "0 < iid" "w \<in> S" using vs(2) w by (simp_all add: from_or_empty_def)
    then show ?thesis
      using rok r(3) vs(1) w iid mem_invD(2)[OF a(1) r(1)] aid by (simp add: ack_for_def ack_aid_def own_record_def)
  qed (use x in simp)
  with st(1) from' ok show ?thesis by blast
qed

section \<open>Proposers\<close>

text \<open>The values a table of instances adopted from promises.\<close>

definition adopted :: "pinstance khash \<Rightarrow> paxos_value set" where
  "adopted h = {v. \<exists>i inst. kh_lookup h i = Some inst \<and> pi_promised_value inst = Some v}"

definition proposer_from :: "paxos_value set \<Rightarrow> proposer \<Rightarrow> bool" where
  "proposer_from S p \<longleftrightarrow> set_mset (pending p) \<subseteq> S \<and> adopted (po_prepare_instances p) \<subseteq> S \<and> adopted (po_accept_instances p) \<subseteq> S"

fun pevent_from :: "int \<Rightarrow> paxos_value set \<Rightarrow> proposer_event \<Rightarrow> proposer \<Rightarrow> bool" where
  "pevent_from n S (PePropose bs) p \<longleftrightarrow> \<lparr>pv_len = int (length bs), pv_val = Some bs\<rparr> \<in> S"
| "pevent_from n S (PePrepare now) p \<longleftrightarrow> po_next_prepare_iid p + 1 \<noteq> 0"
| "pevent_from n S (PePromise now ack) p \<longleftrightarrow> msg_ok n S (PAXOS_PROMISE ack)"
| "pevent_from n S (PeAccepted ack) p \<longleftrightarrow> msg_ok n S (PAXOS_ACCEPTED ack)"
| "pevent_from n S (PePreempted now ack) p \<longleftrightarrow> True"
| "pevent_from n S (PeSetId iid) p \<longleftrightarrow> True"
| "pevent_from n S PeAccept p \<longleftrightarrow> True"
| "pevent_from n S e p \<longleftrightarrow> False"

lemma pevent_from_ok: "pevent_from n S e p \<Longrightarrow> po_acceptors p = n \<Longrightarrow> pevent_ok e p"
  by (cases e) (auto simp: ack_for_accepted)

lemma adopted_upd:
  "kh_lookup h' = (kh_lookup h)(i \<mapsto> inst) \<Longrightarrow> adopted h \<subseteq> S \<Longrightarrow> set_option (pi_promised_value inst) \<subseteq> S \<Longrightarrow> adopted h' \<subseteq> S"
  by (auto simp: adopted_def split: if_splits)

text \<open>A table whose instances come from another table, with the same ballot and adopted value.\<close>

definition kept :: "pinstance khash \<Rightarrow> pinstance khash \<Rightarrow> bool" where
  "kept h h' \<longleftrightarrow> (\<forall>i inst'. kh_lookup h' i = Some inst' \<longrightarrow> (\<exists>inst. kh_lookup h i = Some inst \<and>
     pi_promised_value inst' = pi_promised_value inst \<and> pi_ballot inst' = pi_ballot inst))"

lemma kept_refl [simp]: "kept h h"
  by (simp add: kept_def)

lemma kept_sub: "(\<And>i inst. kh_lookup h' i = Some inst \<Longrightarrow> kh_lookup h i = Some inst) \<Longrightarrow> kept h h'"
  unfolding kept_def by blast

lemma kept_upd:
  "kh_lookup h' = (kh_lookup h)(i \<mapsto> inst') \<Longrightarrow> kh_lookup h i = Some inst \<Longrightarrow> pi_promised_value inst' = pi_promised_value inst \<Longrightarrow>
   pi_ballot inst' = pi_ballot inst \<Longrightarrow> kept h h'"
  by (auto simp: kept_def split: if_splits)

lemma adopted_kept: "kept h h' \<Longrightarrow> adopted h \<subseteq> S \<Longrightarrow> adopted h' \<subseteq> S"
  unfolding kept_def adopted_def by fastforce

lemma pending_values:
  assumes "proposer_ok p"
  shows "v \<in> set (carray_contents (po_values p)) \<Longrightarrow> v \<in># pending p"
    and "kh_lookup (po_prepare_instances p) i = Some inst \<Longrightarrow> pi_value inst = Some v \<Longrightarrow> v \<in># pending p"
proof -
  show "v \<in> set (carray_contents (po_values p)) \<Longrightarrow> v \<in># pending p" by (simp add: pending_def)
  assume "kh_lookup (po_prepare_instances p) i = Some inst" "pi_value inst = Some v"
  then show "v \<in># pending p"
    using map_values_remove[OF proposer_okD(9)[OF assms], of i inst] by (simp add: pending_def val_mset_def)
qed

text \<open>Instances after a promise: what they adopted is theirs or the promise's.\<close>

lemma promise_entry_from:
  assumes ack: "msg_ok n S (PAXOS_PROMISE ack)" and S: "\<forall>v \<in> S. exact v" and j: "j < unat (pr_n_aids ack)"
    and inst: "inst_ok n pid i inst" "set_option (pi_promised_value inst) \<subseteq> S" and out: "\<forall>q. out = Some q \<longrightarrow> 0 < pp_iid q"
    and run: "promise_entry now pid ack j (inst, out) = Inr (inst', out')"
  shows "set_option (pi_promised_value inst') \<subseteq> S \<and> (\<forall>q. out' = Some q \<longrightarrow> 0 < pp_iid q)"
proof -
  obtain vs where vs: "pr_values ack = Some vs" "length vs = unat (pr_n_aids ack)" "\<forall>v \<in> set vs. from_or_empty S v"
    using ack by (auto simp: promise_for_def promise_ok_def arr_len_iff)
  have v: "from_or_empty S (vs ! j)" using vs(2,3) j by simp
  have pos: "0 < pi_iid inst" using inst(1) by (simp add: inst_ok_def)
  have val: "w \<in> S" if x: "promise_value ack j (inst\<lparr>pi_quorum := q\<rparr>) = Inr x'" "pi_promised_value x' = Some w" for q x' w
  proof (cases "0 < pv_len (vs ! j)")
    case True
    then have "vs ! j \<in> S" "exact (vs ! j)" using v S by (auto simp: from_or_empty_def)
    then show ?thesis using x vs(1,2) j True inst(2) by (auto simp: promise_value_def bind_res_Inr_iff split: if_splits)
  next
    case False
    then show ?thesis using x vs(1,2) j inst(2) by (auto simp: promise_value_def)
  qed
  show ?thesis
    using run inst(2) out pos
    by (auto dest: val simp: promise_entry_def bind_res_Inr_iff Let_def proposer_preempt_def prepare_message_def split: if_splits)
qed

lemma promise_loop_from:
  assumes ack: "msg_ok n S (PAXOS_PROMISE ack)" and S: "\<forall>v \<in> S. exact v"
    and "\<forall>j \<in> set js. j < unat (pr_n_aids ack)" "inst_ok n pid i inst" "set_option (pi_promised_value inst) \<subseteq> S"
      "\<forall>q. out = Some q \<longrightarrow> 0 < pp_iid q" "promise_loop now pid ack js (inst, out) = Inr (inst', out')"
  shows "set_option (pi_promised_value inst') \<subseteq> S \<and> (\<forall>q. out' = Some q \<longrightarrow> 0 < pp_iid q)"
  using assms(3-)
proof (induction js arbitrary: inst out)
  case Nil
  then show ?case by simp
next
  case (Cons j js)
  have pf: "promise_for n ack" using ack by simp
  obtain inst1 out1 where e: "promise_entry now pid ack j (inst, out) = Inr (inst1, out1)" "inst_ok n pid i inst1"
    using promise_entry_ok[OF pf _ Cons.prems(2), of j now out] Cons.prems(1) by auto
  note f = promise_entry_from[OF ack S _ Cons.prems(2-4) e(1)]
  have "promise_loop now pid ack js (inst1, out1) = Inr (inst', out')" using Cons.prems(5) e(1) by simp
  then show ?case using Cons.IH[OF _ e(2), of out1] f Cons.prems(1) by auto
qed

lemma set_id_tables:
  assumes "proposer_ok p" "proposer_set_instance_id p iid = Inr p'"
  shows "kept (po_prepare_instances p) (po_prepare_instances p')" "kept (po_accept_instances p) (po_accept_instances p')"
proof -
  obtain q1 h1 where t1: "proposer_trim_instances (po_values p) (po_prepare_instances p) iid = Inr (q1, h1)" "carray_ok q1"
    "\<forall>v \<in> set (carray_contents q1). value_ok v" "kh_lookup h1 = (\<lambda>i. if i \<le> iid then None else kh_lookup (po_prepare_instances p) i)"
    using trim_instances_ok[OF proposer_okD(2-4)[OF assms(1)]] by blast
  obtain q2 h2 where t2: "proposer_trim_instances q1 (po_accept_instances p) iid = Inr (q2, h2)"
    "kh_lookup h2 = (\<lambda>i. if i \<le> iid then None else kh_lookup (po_accept_instances p) i)"
    using trim_instances_ok[OF t1(2,3) proposer_okD(5)[OF assms(1)]] by blast
  show "kept (po_prepare_instances p) (po_prepare_instances p')" "kept (po_accept_instances p) (po_accept_instances p')"
    using assms(2) t1(1,4) t2 by (auto simp: proposer_set_instance_id_def split: if_splits intro!: kept_sub)
qed

lemma receive_accepted_table:
  assumes "proposer_ok p" "proposer_receive_accepted p ack = Inr (p', rv)"
  shows "kept (po_accept_instances p) (po_accept_instances p')"
proof (cases "kh_lookup (po_accept_instances p) (ac_iid ack)")
  case None
  then show ?thesis using assms(2) by (simp add: proposer_receive_accepted_def)
next
  case (Some inst)
  let ?h = "po_accept_instances p"
  note tab = proposer_okD(5)[OF assms(1)]
  have w: "kept ?h (kh_write ?h (ac_iid ack) (inst\<lparr>pi_quorum := q\<rparr>))" for q
    by (rule kept_upd[OF kh.update_lookup[OF table_okD(1)[OF tab] Some] Some]) simp_all
  have d: "kept ?h (kh_delete ?h (ac_iid ack))"
    by (rule kept_sub) (auto simp: table_ok_delete(2)[OF tab] split: if_splits)
  have "po_accept_instances p' = ?h \<or> po_accept_instances p' = kh_delete ?h (ac_iid ack) \<or>
      (\<exists>q. po_accept_instances p' = kh_write ?h (ac_iid ack) (inst\<lparr>pi_quorum := q\<rparr>))"
    using assms(2) Some by (auto simp: proposer_receive_accepted_def bind_res_Inr_iff split: if_splits)
  then show ?thesis using w d by (elim disjE exE) simp_all
qed

lemma prepare_from:
  assumes "proposer_ok p" "po_next_prepare_iid p + 1 \<noteq> 0" "adopted (po_prepare_instances p) \<subseteq> S" "adopted (po_accept_instances p) \<subseteq> S"
    "proposer_prepare now p = Inr (p', q)"
  shows "adopted (po_prepare_instances p') \<subseteq> S \<and> adopted (po_accept_instances p') \<subseteq> S \<and> 0 < pp_iid q"
proof -
  obtain p1 inst where r: "proposer_prepare now p = Inr (p1, prepare_message (po_id p) inst)"
    "po_next_prepare_iid p < po_next_prepare_iid p + 1" "pi_iid inst = po_next_prepare_iid p + 1" "pi_promised_value inst = None"
    "kh_lookup (po_prepare_instances p1) = (kh_lookup (po_prepare_instances p))(po_next_prepare_iid p + 1 \<mapsto> inst)"
    "po_accept_instances p1 = po_accept_instances p"
    using prepare_ok[OF assms(1,2), of now] by blast
  then have e: "p' = p1" "q = prepare_message (po_id p) inst" using assms(5) by simp_all
  show "adopted (po_prepare_instances p') \<subseteq> S \<and> adopted (po_accept_instances p') \<subseteq> S \<and> 0 < pp_iid q"
    using adopted_upd[OF r(5) assms(3)] r(2-4,6) e assms(2,4) by (simp add: prepare_message_def word_gt_0)
qed

lemma promise_from:
  assumes "proposer_ok p" "po_acceptors p = n" "msg_ok n S (PAXOS_PROMISE ack)" "\<forall>v \<in> S. exact v"
    "adopted (po_prepare_instances p) \<subseteq> S" "adopted (po_accept_instances p) \<subseteq> S"
    "proposer_receive_promise now p ack = Inr (p', out)"
  shows "adopted (po_prepare_instances p') \<subseteq> S \<and> adopted (po_accept_instances p') \<subseteq> S \<and> (\<forall>q. out = Some q \<longrightarrow> 0 < pp_iid q)"
proof (cases "kh_lookup (po_prepare_instances p) (pr_iid ack)")
  case None
  then show ?thesis using assms(5-7) by (simp add: proposer_receive_promise_def)
next
  case (Some inst)
  note tab = proposer_okD(4)[OF assms(1)]
  have iok: "inst_ok n (po_id p) (pr_iid ack) inst" using table_okD(2)[OF tab Some] assms(2) by simp
  have old: "set_option (pi_promised_value inst) \<subseteq> S" using assms(5) Some by (auto simp: adopted_def)
  obtain inst' where l: "promise_loop now (po_id p) ack [0..<unat (pr_n_aids ack)] (inst, None) = Inr (inst', out)"
    "p' = p\<lparr>po_prepare_instances := kh_write (po_prepare_instances p) (pr_iid ack) inst'\<rparr>"
    using assms(7) Some by (auto simp: proposer_receive_promise_def bind_res_Inr_iff)
  have f: "set_option (pi_promised_value inst') \<subseteq> S" "\<forall>q. out = Some q \<longrightarrow> 0 < pp_iid q"
    using promise_loop_from[OF assms(3,4) _ iok old _ l(1)] by simp_all
  then show ?thesis
    using adopted_upd[OF kh.update_lookup[OF table_okD(1)[OF tab] Some] assms(5) f(1)] l(2) assms(6) by simp
qed

lemma accept_none:
  assumes "proposer_ok p" "proposer_accept p = Inr (p', None)"
  shows "kept (po_prepare_instances p) (po_prepare_instances p')" "po_accept_instances p' = po_accept_instances p"
proof -
  have "kept (po_prepare_instances p) (po_prepare_instances p') \<and> po_accept_instances p' = po_accept_instances p"
  proof (cases "smallest_instance None (map snd (kh_entries (po_prepare_instances p)))")
    case None
    then show ?thesis using assms(2) by (simp add: proposer_accept_def)
  next
    case (Some inst)
    let ?h = "po_prepare_instances p"
    note sp = smallest_pending[OF proposer_okD(4)[OF assms(1)] Some]
    have "kept ?h (kh_write ?h (pi_iid inst) (inst\<lparr>pi_value := v\<rparr>))" for v
      by (rule kept_upd[OF kh.update_lookup[OF table_okD(1)[OF proposer_okD(4)[OF assms(1)]] sp(1)] sp(1)]) simp_all
    moreover have "p' = p \<or> (\<exists>v q. p' = p\<lparr>po_values := q, po_prepare_instances := kh_write ?h (pi_iid inst) (inst\<lparr>pi_value := v\<rparr>)\<rparr>)"
      using assms(2) Some by (auto simp: proposer_accept_def bind_res_Inr_iff Let_def split: if_splits)
    ultimately show ?thesis by (elim disjE exE) simp_all
  qed
  then show "kept (po_prepare_instances p) (po_prepare_instances p')" "po_accept_instances p' = po_accept_instances p" by simp_all
qed

lemma accept_from:
  assumes "proposer_ok p" "adopted (po_prepare_instances p) \<subseteq> S" "adopted (po_accept_instances p) \<subseteq> S"
    "set_mset (pending p) \<subseteq> S" "proposer_accept p = Inr (p', out)"
  shows "adopted (po_prepare_instances p') \<subseteq> S \<and> adopted (po_accept_instances p') \<subseteq> S \<and>
    (\<forall>a. out = Some a \<longrightarrow> 0 < pa_iid a \<and> pa_value a \<in> S)"
proof (cases out)
  case None
  then show ?thesis using accept_none[OF assms(1)] adopted_kept[OF _ assms(2)] assms(3,5) by auto
next
  case (Some a)
  then obtain inst where i: "kh_lookup (po_prepare_instances p) (pa_iid a) = Some inst"
    "accept_value (taken p inst) = Some (pa_value a)"
    "kh_lookup (po_prepare_instances p') = (kh_lookup (po_prepare_instances p))(pa_iid a := None)"
    "kh_lookup (po_accept_instances p') = (kh_lookup (po_accept_instances p))(pa_iid a \<mapsto> cleared (taken p inst))"
    using proposer_accept_ok[OF assms(1)] assms(5) by auto
  have held: "set_option (pi_promised_value inst) \<subseteq> S" using assms(2) i(1) by (auto simp: adopted_def)
  have "set_option (pi_value (taken p inst)) \<subseteq> S"
    using pending_values[OF assms(1)] i(1) assms(4) by (fastforce simp: taken_def split: list.splits if_splits)
  then have v: "pa_value a \<in> S" using i(2) held by (auto simp: accept_value_def taken_def split: if_splits)
  have "0 < pa_iid a" using table_okD(2)[OF proposer_okD(4)[OF assms(1)] i(1)] by (simp add: inst_ok_def)
  moreover have "adopted (po_prepare_instances p') \<subseteq> S" by (rule adopted_kept[OF kept_sub assms(2)]) (auto simp: i(3) split: if_splits)
  moreover have "adopted (po_accept_instances p') \<subseteq> S"
    by (rule adopted_upd[OF i(4) assms(3)]) (use held in \<open>auto simp: cleared_props(3) taken_def split: if_splits\<close>)
  ultimately show ?thesis using v Some by simp
qed

lemma preempted_from:
  assumes "proposer_ok p" "adopted (po_prepare_instances p) \<subseteq> S" "adopted (po_accept_instances p) \<subseteq> S"
    "proposer_receive_preempted now p ack = Inr (p', out)"
  shows "adopted (po_prepare_instances p') \<subseteq> S \<and> adopted (po_accept_instances p') \<subseteq> S \<and> (\<forall>q. out = Some q \<longrightarrow> 0 < pp_iid q)"
proof (cases "\<exists>inst. kh_lookup (po_accept_instances p) (pe_iid ack) = Some inst \<and> pi_ballot inst < pe_ballot ack")
  case False
  then have "out = None" "p' = p" using receive_preempted_ok[OF assms(1), of now ack] assms(4) by (auto split: option.splits)
  then show ?thesis using assms by simp
next
  case True
  then obtain inst where i: "kh_lookup (po_accept_instances p) (pe_iid ack) = Some inst" "pi_ballot inst < pe_ballot ack" by blast
  then obtain inst' where r: "out = Some (prepare_message (po_id p) inst')" "pi_iid inst' = pe_iid ack" "pi_promised_value inst' = None"
    "kh_lookup (po_prepare_instances p') = (kh_lookup (po_prepare_instances p))(pe_iid ack \<mapsto> inst')"
    "kh_lookup (po_accept_instances p') = (kh_lookup (po_accept_instances p))(pe_iid ack := None)"
    using receive_preempted_ok[OF assms(1), of now ack] assms(4) by auto
  have "0 < pe_iid ack" using table_okD(2)[OF proposer_okD(5)[OF assms(1)] i(1)] by (simp add: inst_ok_def)
  moreover have "adopted (po_accept_instances p') \<subseteq> S" by (rule adopted_kept[OF kept_sub assms(3)]) (auto simp: r(5) split: if_splits)
  ultimately show ?thesis using adopted_upd[OF r(4) assms(2)] r(1-3) by (simp add: prepare_message_def)
qed

lemma proposer_step_from:
  assumes p: "proposer_ok p" "po_acceptors p = n" "proposer_from S p" and e: "pevent_from n S e p" and S: "\<forall>v \<in> S. exact v"
  shows "\<exists>p' m. proposer_step e p = Inr (p', m) \<and> proposer_from S p' \<and> (\<forall>x. m = Some x \<longrightarrow> msg_ok n S x)"
proof -
  note ev = pevent_from_ok[OF e p(2)]
  obtain p' m d where st: "proposer_step e p = Inr (p', m)" "keeps p p'" "pending p' + d = pending p + offered e"
    using proposer_step_ok[OF p(1) ev] by blast
  have off: "set_mset (offered e) \<subseteq> S" using e by (cases e) auto
  have sub: "set_mset (pending p') \<subseteq> S"
  proof
    fix v
    assume "v \<in># pending p'"
    then have "v \<in># pending p + offered e" unfolding st(3)[symmetric] by simp
    then show "v \<in> S" using p(3) off by (auto simp: proposer_from_def)
  qed
  have pre: "adopted (po_prepare_instances p) \<subseteq> S" "adopted (po_accept_instances p) \<subseteq> S" "set_mset (pending p) \<subseteq> S"
    using p(3) by (simp_all add: proposer_from_def)
  have "adopted (po_prepare_instances p') \<subseteq> S \<and> adopted (po_accept_instances p') \<subseteq> S \<and> (\<forall>x. m = Some x \<longrightarrow> msg_ok n S x)"
  proof (cases e)
    case (PePropose bs)
    then show ?thesis using st(1) pre by (auto simp: proposer_propose_def bind_res_Inr_iff)
  next
    case (PeSetId iid)
    then have r: "proposer_set_instance_id p iid = Inr p'" "m = None" using st(1) by (auto simp: bind_res_Inr_iff)
    show ?thesis using adopted_kept[OF set_id_tables(1)[OF p(1) r(1)] pre(1)] adopted_kept[OF set_id_tables(2)[OF p(1) r(1)] pre(2)] r(2) by simp
  next
    case (PePrepare now)
    then obtain q where q: "proposer_prepare now p = Inr (p', q)" "m = Some (PAXOS_PREPARE q)"
      using st(1) by (auto simp: bind_res_Inr_iff)
    show ?thesis using prepare_from[OF p(1) _ pre(1,2) q(1)] e PePrepare q(2) by simp
  next
    case (PePromise now ack)
    then obtain out where r: "proposer_receive_promise now p ack = Inr (p', out)" "m = map_option PAXOS_PREPARE out"
      using st(1) by (auto simp: bind_res_Inr_iff)
    have "msg_ok n S (PAXOS_PROMISE ack)" using e PePromise by simp
    from promise_from[OF p(1,2) this S pre(1,2) r(1)] show ?thesis using r(2) by auto
  next
    case PeAccept
    then obtain out where r: "proposer_accept p = Inr (p', out)" "m = map_option PAXOS_ACCEPT out"
      using st(1) by (auto simp: bind_res_Inr_iff)
    from accept_from[OF p(1) pre r(1)] show ?thesis using r(2) by auto
  next
    case (PeAccepted ack)
    then have ack: "accepted_for (po_acceptors p) ack" using ev by simp
    obtain rv where r: "proposer_receive_accepted p ack = Inr (p', rv)" "m = None" using st(1) PeAccepted by (auto simp: bind_res_Inr_iff)
    then have "po_prepare_instances p' = po_prepare_instances p" using receive_accepted_ok[OF p(1) ack] by auto
    then show ?thesis using adopted_kept[OF receive_accepted_table[OF p(1) r(1)] pre(2)] pre(1) r(2) by simp
  next
    case (PePreempted now ack)
    then obtain out where r: "proposer_receive_preempted now p ack = Inr (p', out)" "m = map_option PAXOS_PREPARE out"
      using st(1) by (auto simp: bind_res_Inr_iff)
    from preempted_from[OF p(1) pre(1,2) r(1)] show ?thesis using r(2) by auto
  qed (use e in simp_all)
  then show ?thesis using st(1) sub by (auto simp: proposer_from_def)
qed

section \<open>The invariant of the system\<close>

text \<open>The votes in the network.\<close>

definition votes :: "system \<Rightarrow> paxos_accepted set" where
  "votes s = {ack. PAXOS_ACCEPTED ack \<in> set (sy_net s)}"

definition learner_fed :: "int \<Rightarrow> system \<Rightarrow> learner \<Rightarrow> bool" where
  "learner_fed n s l \<longleftrightarrow> (\<exists>R. learner_reachable n l R \<and> R \<subseteq> votes s)"

definition acceptor_fine :: "paxos_value set \<Rightarrow> nat \<Rightarrow> mem_storage acceptor \<Rightarrow> bool" where
  "acceptor_fine S i a \<longleftrightarrow> acceptor_reachable (int i) a \<and> acceptor_from S a"

definition proposer_fine :: "int \<Rightarrow> paxos_value set \<Rightarrow> proposer \<Rightarrow> bool" where
  "proposer_fine n S p \<longleftrightarrow> (\<exists>pid. proposer_reachable pid n p) \<and> proposer_from S p"

text \<open>A delivered message: a client's value, voted for by a majority with one ballot.\<close>

definition delivery_fine :: "int \<Rightarrow> system \<Rightarrow> paxos_accepted \<Rightarrow> bool" where
  "delivery_fine n s m \<longleftrightarrow> first_val m \<in> set (sy_offered s) \<and> majority_for n (votes s) (ac_iid m) (ack_ballot m)"

definition system_ok :: "nat \<Rightarrow> system \<Rightarrow> bool" where
  "system_ok n s \<longleftrightarrow>
     length (sy_acceptors s) = n \<and> (\<forall>i < n. acceptor_fine (set (sy_offered s)) i (sy_acceptors s ! i)) \<and>
     (\<forall>p \<in> set (sy_proposers s). proposer_fine (int n) (set (sy_offered s)) p) \<and>
     (\<forall>l \<in> set (sy_learners s). learner_fed (int n) s l) \<and>
     (\<forall>m \<in> set (sy_net s). msg_ok (int n) (set (sy_offered s)) m) \<and>
     (\<forall>v \<in> set (sy_offered s). exact v) \<and>
     (\<forall>(k, m) \<in> set (sy_delivered s). delivery_fine (int n) s m)"

lemma majority_mono:
  assumes "majority_for n R i b" "R \<subseteq> R'" "finite R'"
  shows "majority_for n R' i b"
proof -
  let ?f = "\<lambda>R. {int (unat (ack_aid m)) | m. m \<in> R \<and> ac_iid m = i \<and> ack_ballot m = b}"
  have "?f R' \<subseteq> (\<lambda>m. int (unat (ack_aid m))) ` R'" by blast
  then have "finite (?f R')" using assms(3) finite_subset by blast
  moreover have "?f R \<subseteq> ?f R'" using assms(2) by blast
  ultimately have "card (?f R) \<le> card (?f R')" by (rule card_mono)
  then show ?thesis using assms(1) unfolding majority_for_def by linarith
qed

lemma votes_finite [simp]: "finite (votes s)"
proof -
  have "PAXOS_ACCEPTED ` votes s \<subseteq> set (sy_net s)" by (auto simp: votes_def)
  then have "finite (PAXOS_ACCEPTED ` votes s)" using finite_subset by blast
  then show ?thesis by (rule finite_imageD) (simp add: inj_on_def)
qed

text \<open>Growing the network and the offered values keeps everything else fine.\<close>

lemma fine_mono:
  assumes "S \<subseteq> S'"
  shows "acceptor_fine S i a \<Longrightarrow> acceptor_fine S' i a" "proposer_fine n S p \<Longrightarrow> proposer_fine n S' p"
  using assms unfolding acceptor_fine_def proposer_fine_def acceptor_from_def proposer_from_def from_or_empty_def by blast+

lemma fed_mono: "votes s \<subseteq> votes s' \<Longrightarrow> learner_fed n s l \<Longrightarrow> learner_fed n s' l"
  unfolding learner_fed_def by blast

lemma delivery_mono:
  "votes s \<subseteq> votes s' \<Longrightarrow> set (sy_offered s) \<subseteq> set (sy_offered s') \<Longrightarrow> delivery_fine n s m \<Longrightarrow> delivery_fine n s' m"
  using majority_mono[OF _ _ votes_finite] unfolding delivery_fine_def by blast

lemma system_okD:
  assumes "system_ok n s"
  shows "length (sy_acceptors s) = n" "i < n \<Longrightarrow> acceptor_fine (set (sy_offered s)) i (sy_acceptors s ! i)"
    "p \<in> set (sy_proposers s) \<Longrightarrow> proposer_fine (int n) (set (sy_offered s)) p"
    "l \<in> set (sy_learners s) \<Longrightarrow> learner_fed (int n) s l"
    "m \<in> set (sy_net s) \<Longrightarrow> msg_ok (int n) (set (sy_offered s)) m" "\<forall>v \<in> set (sy_offered s). exact v"
    "(k, d) \<in> set (sy_delivered s) \<Longrightarrow> delivery_fine (int n) s d"
  using assms unfolding system_ok_def by blast+

lemma votes_sends [simp]: "votes s \<subseteq> votes (sends m s)" "sy_offered (sends m s) = sy_offered s"
  by (auto simp: votes_def sends_def split: option.splits)

lemma system_ok_sends:
  assumes "system_ok n s" "\<forall>x. m = Some x \<longrightarrow> msg_ok (int n) (set (sy_offered s)) x"
  shows "system_ok n (sends m s)"
proof -
  have "learner_fed (int n) (sends m s) l" if "l \<in> set (sy_learners s)" for l
    by (rule fed_mono[OF votes_sends(1) system_okD(4)[OF assms(1) that]])
  moreover have "delivery_fine (int n) (sends m s) d" if "(k, d) \<in> set (sy_delivered s)" for k d
    by (rule delivery_mono[OF votes_sends(1) _ system_okD(7)[OF assms(1) that]]) simp
  ultimately show ?thesis using assms by (auto simp: system_ok_def sends_def split: option.splits)
qed

section \<open>Steps of the system\<close>

lemma run_acceptor_ok:
  assumes ok: "system_ok n s" and n: "int n < 2 ^ 31" and e: "\<forall>e'. e = Some e' \<longrightarrow> aevent_from (set (sy_offered s)) e'"
  shows "\<exists>s'. run_acceptor i e s = Inr s' \<and> system_ok n s'"
proof (cases "\<exists>e'. e = Some e' \<and> i < n")
  case False
  then show ?thesis using ok system_okD(1)[OF ok] by (auto simp: run_acceptor_def split: option.splits)
next
  case True
  let ?S = "set (sy_offered s)" and ?a = "sy_acceptors s ! i"
  obtain e' where e': "e = Some e'" "i < n" using True by blast
  have fine: "acceptor_reachable (int i) ?a" "acceptor_from ?S ?a" using system_okD(2)[OF ok e'(2)] by (simp_all add: acceptor_fine_def)
  note inv = acceptor_reachable_inv[OF fine(1)]
  obtain a' m where st: "acceptor_step e' ?a = Inr (a', m)" "event_ok e'" "acceptor_from ?S a'"
    "\<forall>x. m = Some x \<longrightarrow> msg_ok (int n) ?S x"
    using acceptor_step_from[OF inv(1) _ _ n fine(2) _ system_okD(6)[OF ok], of e'] e e' inv(2) by auto
  have "acceptor_move ?a a'" by (rule move_msg[OF st(2,1)])
  then have "acceptor_reachable (int i) a'" using fine(1) unfolding acceptor_reachable_def by (meson rtranclp.rtrancl_into_rtrancl)
  then have "acceptor_fine ?S i a'" using st(3) by (simp add: acceptor_fine_def)
  then have "system_ok n (s\<lparr>sy_acceptors := (sy_acceptors s)[i := a']\<rparr>)"
    using ok e'(2) by (auto simp: system_ok_def nth_list_update learner_fed_def delivery_fine_def votes_def)
  from system_ok_sends[OF this, of m] show ?thesis
    using st(1,4) e' system_okD(1)[OF ok] by (simp add: run_acceptor_def)
qed

lemma run_proposer_ok:
  assumes ok: "system_ok n s"
    and e: "\<forall>e'. e = Some e' \<longrightarrow> j < length (sy_proposers s) \<longrightarrow> pevent_from (int n) (set (sy_offered s)) e' (sy_proposers s ! j)"
  shows "\<exists>s'. run_proposer j e s = Inr s' \<and> system_ok n s'"
proof (cases "\<exists>e'. e = Some e' \<and> j < length (sy_proposers s)")
  case False
  then show ?thesis using ok by (auto simp: run_proposer_def split: option.splits)
next
  case True
  let ?S = "set (sy_offered s)" and ?p = "sy_proposers s ! j"
  obtain e' where e': "e = Some e'" "j < length (sy_proposers s)" using True by blast
  obtain pid where fine: "proposer_reachable pid (int n) ?p" "proposer_from ?S ?p"
    using system_okD(3)[OF ok nth_mem[OF e'(2)]] by (auto simp: proposer_fine_def)
  note inv = proposer_reachable_ok[OF fine(1)]
  have ev: "pevent_from (int n) ?S e' ?p" using e e' by blast
  obtain p' m where st: "proposer_step e' ?p = Inr (p', m)" "proposer_from ?S p'" "\<forall>x. m = Some x \<longrightarrow> msg_ok (int n) ?S x"
    using proposer_step_from[OF _ _ fine(2) ev system_okD(6)[OF ok]] inv by auto
  have "proposer_reachable pid (int n) p'" using reach_step[OF fine(1) pevent_from_ok[OF ev] st(1)] inv by simp
  then have "proposer_fine (int n) ?S p'" using st(2) by (auto simp: proposer_fine_def)
  then have "system_ok n (s\<lparr>sy_proposers := (sy_proposers s)[j := p']\<rparr>)"
    using ok set_update_subset_insert[of "sy_proposers s" j p']
    by (auto simp: system_ok_def learner_fed_def delivery_fine_def votes_def)
  from system_ok_sends[OF this, of m] show ?thesis using st(1,3) e' by (simp add: run_proposer_def)
qed

lemma learner_step_fine:
  assumes ok: "system_ok n s" and l: "learner_fed (int n) s l" and e: "received e \<subseteq> votes s"
  shows "\<exists>l' out. learner_step e l = Inr (l', out) \<and> learner_fed (int n) s l' \<and>
    (\<forall>m. out = Some m \<longrightarrow> delivery_fine (int n) s m \<and> (\<exists>q \<in> votes s. m = accepted_clip q))"
proof -
  obtain R where R: "learner_reachable (int n) l R" "R \<subseteq> votes s" using l by (auto simp: learner_fed_def)
  have vote: "ack_for (int n) ack" "\<exists>v vs. ac_values ack = Some (v # vs) \<and> v \<in> set (sy_offered s)" if "ack \<in> votes s" for ack
    using system_okD(5)[OF ok, of "PAXOS_ACCEPTED ack"] that by (auto simp: votes_def)
  show ?thesis
  proof (cases e)
    case (LeAccepted ack)
    then obtain l' where "learner_receive_accepted l ack = Inr l'" "learner_reachable (int n) l' (insert ack R)"
      using receive_reachable[OF R(1) vote(1)] e by auto
    then show ?thesis using LeAccepted R(2) e by (auto simp: learner_fed_def)
  next
    case LeDeliver
    have "\<forall>m \<in> R. ac_values m \<noteq> None" using vote(2) R(2) by fastforce
    from delivery_step[OF R(1) this] show ?thesis
    proof
      assume "learner_deliver_next l = Inr (l, None)"
      then show ?thesis using LeDeliver l by simp
    next
      assume "\<exists>l' m. learner_deliver_next l = Inr (l', Some m) \<and> learner_reachable (int n) l' R \<and> ac_iid m = le_current_iid l \<and>
        le_current_iid l' = le_current_iid l + 1 \<and> m \<in> accepted_clip ` R \<and> majority_for (int n) R (ac_iid m) (ack_ballot m) \<and>
        aread (ac_values m) 0 = Inr (first_val m) \<and> (\<exists>a. paxos_accepted_destroy m = Inr a) \<and>
        kh_size (le_instances l') < kh_size (le_instances l)"
      then obtain l' q where d: "learner_deliver_next l = Inr (l', Some (accepted_clip q))" "learner_reachable (int n) l' R" "q \<in> R"
        "majority_for (int n) R (ac_iid q) (ack_ballot q)" by auto
      obtain v vs where v: "ac_values q = Some (v # vs)" "v \<in> set (sy_offered s)" using vote(2) d(3) R(2) by blast
      have "exact v" using system_okD(6)[OF ok] v(2) by blast
      then have "first_val (accepted_clip q) = v" using v(1) by (simp add: first_val_def)
      then have "delivery_fine (int n) s (accepted_clip q)"
        using v(2) majority_mono[OF d(4) R(2)] by (simp add: delivery_fine_def)
      then show ?thesis using LeDeliver d(1-3) R(2) by (auto simp: learner_fed_def)
    qed
  next
    case (LeSetId iid)
    have "learner_reachable (int n) (learner_set_instance_id l iid) R"
      using lreach_step[OF R(1), of "LeSetId iid" _ None] by simp
    then show ?thesis using LeSetId R(2) by (auto simp: learner_fed_def)
  qed
qed

lemma run_learner_ok:
  assumes ok: "system_ok n s" and e: "\<forall>e'. e = Some e' \<longrightarrow> received e' \<subseteq> votes s"
  shows "\<exists>s'. run_learner k e s = Inr s' \<and> system_ok n s'"
proof (cases "\<exists>e'. e = Some e' \<and> k < length (sy_learners s)")
  case False
  then show ?thesis using ok by (auto simp: run_learner_def split: option.splits)
next
  case True
  then obtain e' where e': "e = Some e'" "k < length (sy_learners s)" by blast
  obtain l' out where st: "learner_step e' (sy_learners s ! k) = Inr (l', out)" "learner_fed (int n) s l'"
    "\<forall>m. out = Some m \<longrightarrow> delivery_fine (int n) s m"
    using learner_step_fine[OF ok system_okD(4)[OF ok nth_mem[OF e'(2)]], of e'] e e'(1) by auto
  let ?s = "s\<lparr>sy_learners := (sy_learners s)[k := l'], sy_delivered := sy_delivered s @ (case out of None \<Rightarrow> [] | Some m \<Rightarrow> [(k, m)])\<rparr>"
  have "system_ok n ?s"
    using ok st(2,3) set_update_subset_insert[of "sy_learners s" k l']
    by (auto simp: system_ok_def learner_fed_def delivery_fine_def votes_def split: option.splits)
  then show ?thesis using st(1) e' by (simp add: run_learner_def)
qed

text \<open>The only step that needs something: a proposer opens an instance while it has numbers left.\<close>

fun step_ready :: "system_event \<Rightarrow> system \<Rightarrow> bool" where
  "step_ready (Open j now) s \<longleftrightarrow> (j < length (sy_proposers s) \<longrightarrow> po_next_prepare_iid (sy_proposers s ! j) + 1 \<noteq> 0)"
| "step_ready e s \<longleftrightarrow> True"

lemma net_msg_ok: "system_ok n s \<Longrightarrow> net_msg s k = Some m \<Longrightarrow> m \<in> set (sy_net s) \<and> msg_ok (int n) (set (sy_offered s)) m"
  using system_okD(5)[of n s] by (auto simp: net_msg_def split: if_splits)

lemma system_ok_offer:
  assumes "system_ok n s"
  shows "system_ok n (s\<lparr>sy_offered := sy_offered s @ [\<lparr>pv_len = int (length bs), pv_val = Some bs\<rparr>]\<rparr>)"
proof -
  let ?v = "\<lparr>pv_len = int (length bs), pv_val = Some bs\<rparr>"
  let ?s = "s\<lparr>sy_offered := sy_offered s @ [?v]\<rparr>"
  have sub: "set (sy_offered s) \<subseteq> set (sy_offered ?s)" by auto
  have "exact ?v" by (auto simp: exact_def)
  then show ?thesis
    using assms fine_mono[OF sub] msg_ok_mono[OF _ sub]
    unfolding system_ok_def by (auto simp: learner_fed_def delivery_fine_def votes_def)
qed

lemma system_step_ok:
  assumes ok: "system_ok n s" and n: "int n < 2 ^ 31" and e: "step_ready e s"
  shows "\<exists>s'. system_step e s = Inr s' \<and> system_ok n s'"
proof (cases e)
  case (Client j bs)
  then show ?thesis using run_proposer_ok[OF system_ok_offer[OF ok, of bs], of "Some (PePropose bs)" j] by simp
next
  case (ToAcceptor i k)
  have "aevent_from (set (sy_offered s)) e'" if b: "Option.bind (net_msg s k) at_acceptor = Some e'" for e'
  proof -
    obtain m where m: "net_msg s k = Some m" "at_acceptor m = Some e'" using b by (auto simp: bind_eq_Some_conv)
    then show ?thesis using net_msg_ok[OF ok m(1)] by (cases m) auto
  qed
  then show ?thesis using run_acceptor_ok[OF ok n] ToAcceptor by simp
next
  case (ToProposer j k now)
  have "pevent_from (int n) (set (sy_offered s)) e' p" if b: "Option.bind (net_msg s k) (at_proposer now) = Some e'" for e' p
  proof -
    obtain m where m: "net_msg s k = Some m" "at_proposer now m = Some e'" using b by (auto simp: bind_eq_Some_conv)
    then show ?thesis using net_msg_ok[OF ok m(1)] by (cases m) auto
  qed
  then show ?thesis using run_proposer_ok[OF ok] ToProposer by simp
next
  case (ToLearner l k)
  have "received e' \<subseteq> votes s" if b: "Option.bind (net_msg s k) at_learner = Some e'" for e'
  proof -
    obtain m where m: "net_msg s k = Some m" "at_learner m = Some e'" using b by (auto simp: bind_eq_Some_conv)
    then show ?thesis using net_msg_ok[OF ok m(1)] by (cases m) (auto simp: votes_def)
  qed
  then show ?thesis using run_learner_ok[OF ok] ToLearner by simp
qed (use e run_acceptor_ok[OF ok n] run_proposer_ok[OF ok] run_learner_ok[OF ok] in auto)

section \<open>Reachable systems\<close>

inductive system_reachable :: "nat \<Rightarrow> system \<Rightarrow> bool" for n where
  sys_new: "storage_backend cfg = PAXOS_MEM_STORAGE \<Longrightarrow> system_reachable n (system_new cfg n pids m)"
| sys_step: "system_reachable n s \<Longrightarrow> step_ready e s \<Longrightarrow> system_step e s = Inr s' \<Longrightarrow> system_reachable n s'"

lemma system_new_ok:
  assumes "storage_backend cfg = PAXOS_MEM_STORAGE"
  shows "system_ok n (system_new cfg n pids m)"
proof -
  have "acceptor_fine {} i (the (acceptor_new cfg 0 (int i)))" for i
  proof -
    obtain a where a: "acceptor_new cfg 0 (int i) = Some a" "mem_rel (int i) (0, Map.empty) a" using acceptor_new_mem[OF assms] by blast
    then have "acceptor_reachable (int i) a" using assms unfolding acceptor_reachable_def by blast
    then show ?thesis using a mem_relD(3)[OF a(2)] by (simp add: acceptor_fine_def acceptor_from_def)
  qed
  moreover have "proposer_fine (int n) {} (proposer_new pid (int n))" for pid
  proof -
    have "pending (proposer_new pid (int n)) = {#}" "adopted (po_prepare_instances (proposer_new pid (int n))) = {}"
      "adopted (po_accept_instances (proposer_new pid (int n))) = {}"
      using carray_new_ok[of 128, where 'a = paxos_value]
      by (simp_all add: pending_def proposer_new_def adopted_def map_values_def kh.init_lookup)
    then show ?thesis using reach_new[of "int n" pid] by (auto simp: proposer_fine_def proposer_from_def)
  qed
  moreover have "learner_fed (int n) s (learner_new cfg (int n))" for s
    using lreach_new[of "int n" cfg] by (auto simp: learner_fed_def)
  ultimately show ?thesis by (auto simp: system_ok_def system_new_def)
qed

lemma system_reachable_ok: "system_reachable n s \<Longrightarrow> int n < 2 ^ 31 \<Longrightarrow> system_ok n s"
proof (induction rule: system_reachable.induct)
  case (sys_new cfg pids m)
  then show ?case using system_new_ok by blast
next
  case (sys_step s e s')
  then show ?case using system_step_ok[of n s e] by auto
qed


text \<open>
  C4: validity. Whatever a learner of the system delivers is a value that a client submitted, byte by byte,
  and a majority of the acceptors voted for the delivered instance with the ballot of the delivered
  message.
\<close>

theorem delivered_was_submitted:
  assumes "system_reachable n s" "int n < 2 ^ 31" "(k, m) \<in> set (sy_delivered s)"
  shows "first_val m \<in> set (sy_offered s) \<and> majority_for (int n) {ack. PAXOS_ACCEPTED ack \<in> set (sy_net s)} (ac_iid m) (ack_ballot m)"
  using system_okD(7)[OF system_reachable_ok[OF assms(1,2)] assms(3)] by (simp add: delivery_fine_def votes_def)

text \<open>A run in which every step is ready and returns.\<close>

fun ready_run :: "system_event list \<Rightarrow> system \<Rightarrow> bool" where
  "ready_run [] s \<longleftrightarrow> True"
| "ready_run (e # es) s \<longleftrightarrow> step_ready e s \<and> (case system_step e s of Inl _ \<Rightarrow> False | Inr s' \<Rightarrow> ready_run es s')"

lemma ready_run_reachable:
  "system_reachable n s \<Longrightarrow> ready_run es s \<Longrightarrow> \<exists>s'. system_run es s = Inr s' \<and> system_reachable n s'"
proof (induction es arbitrary: s)
  case Nil
  then show ?case by simp
next
  case (Cons e es)
  then obtain s1 where "system_step e s = Inr s1" "ready_run es s1" "step_ready e s" by (auto split: sum.splits)
  then show ?case using Cons.IH[of s1] sys_step[OF Cons.prems(1), of e s1] by auto
qed

text \<open>
  Three acceptors, two proposers and two learners. The first proposer gets its value \<open>[1]\<close> accepted by
  acceptors 0 and 1 in instance 1, and the first learner delivers it. Then the second proposer opens the
  same instance with a higher ballot, gets promises of acceptors 0 and 1, and its own value \<open>[2]\<close> accepted.
\<close>

definition first_round :: "system_event list" where
  "first_round = [Client 0 [1], Open 0 demo_time, ToAcceptor 0 0, ToAcceptor 1 0, ToProposer 0 1 demo_time,
     ToProposer 0 2 demo_time, Accept 0, ToAcceptor 0 3, ToAcceptor 1 3, ToLearner 0 4, ToLearner 0 5, Deliver 0]"

definition second_round :: "system_event list" where
  "second_round = [Client 1 [2], Open 1 demo_time, ToAcceptor 0 6, ToAcceptor 1 6, ToProposer 1 7 demo_time,
     ToProposer 1 8 demo_time, Accept 1, ToAcceptor 0 9, ToAcceptor 1 9, ToLearner 1 10, ToLearner 1 11, Deliver 1]"

definition demo_system :: system where
  "demo_system = system_new paxos_config_default 3 [1, 2] 2"

lemma demo_system_reachable: "system_reachable 3 demo_system"
  unfolding demo_system_def by (rule sys_new) (simp add: paxos_config_default_def)

definition deliveries :: "system res \<Rightarrow> (nat \<times> iid_t \<times> paxos_value) list" where
  "deliveries r = (case r of Inl _ \<Rightarrow> [] | Inr s \<Rightarrow> map (\<lambda>(k, m). (k, ac_iid m, first_val m)) (sy_delivered s))"

lemma first_round_runs:
  "ready_run first_round demo_system"
  "deliveries (system_run first_round demo_system) = [(0, 1, \<lparr>pv_len = 1, pv_val = Some [1]\<rparr>)]"
  by code_simp+

lemma both_rounds_run:
  "ready_run (first_round @ second_round) demo_system"
  "deliveries (system_run (first_round @ second_round) demo_system) =
     [(0, 1, \<lparr>pv_len = 1, pv_val = Some [1]\<rparr>), (1, 1, \<lparr>pv_len = 1, pv_val = Some [2]\<rparr>)]"
  by code_simp+


theorem delivered_was_submitted_witness:
  "\<exists>s k m. system_run first_round demo_system = Inr s \<and> (k, m) \<in> set (sy_delivered s) \<and> first_val m \<in> set (sy_offered s)"
proof -
  obtain s where s: "system_run first_round demo_system = Inr s" "system_reachable 3 s"
    using ready_run_reachable[OF demo_system_reachable first_round_runs(1)] by blast
  then obtain k m where m: "(k, m) \<in> set (sy_delivered s)"
    using first_round_runs(2) by (cases "sy_delivered s") (auto simp: deliveries_def)
  show ?thesis using delivered_was_submitted[OF s(2) _ m] s(1) m by auto
qed


end
