(* ===== verification/System_Agreement.thy ===== *)
theory System_Agreement
  imports System_Props
begin

text \<open>
  Agreement when there is one proposer. A single proposer only ever uses its first ballot, sends at most
  one accept request for an instance, and so every vote for an instance is a vote for the same value.
\<close>

section \<open>The proposer\<close>

text \<open>All instances have the ballot \<open>B\<close>.\<close>

definition one_ballot :: "ballot_t \<Rightarrow> proposer \<Rightarrow> bool" where
  "one_ballot B p \<longleftrightarrow> proposer_next_ballot (po_id p) 0 = B \<and>
     (\<forall>i inst. kh_lookup (po_prepare_instances p) i = Some inst \<longrightarrow> pi_ballot inst = B) \<and>
     (\<forall>i inst. kh_lookup (po_accept_instances p) i = Some inst \<longrightarrow> pi_ballot inst = B)"

text \<open>Instances enter phase 1 once, with a number above all earlier ones.\<close>

definition advances :: "proposer \<Rightarrow> proposer \<Rightarrow> bool" where
  "advances p p' \<longleftrightarrow> po_next_prepare_iid p \<le> po_next_prepare_iid p' \<and>
     (\<forall>i \<in> dom (kh_lookup (po_prepare_instances p')). i \<in> dom (kh_lookup (po_prepare_instances p)) \<or> po_next_prepare_iid p < i)"

fun ballot_of :: "ballot_t \<Rightarrow> paxos_message \<Rightarrow> bool" where
  "ballot_of B (PAXOS_PREPARE req) \<longleftrightarrow> pp_ballot req = B"
| "ballot_of B (PAXOS_PROMISE ack) \<longleftrightarrow> (\<forall>b \<in> set (the (pr_ballots ack)). b = B)"
| "ballot_of B (PAXOS_ACCEPT req) \<longleftrightarrow> pa_ballot req = B"
| "ballot_of B (PAXOS_PREEMPTED ack) \<longleftrightarrow> pe_ballot ack = B"
| "ballot_of B m \<longleftrightarrow> True"

fun event_ballot :: "ballot_t \<Rightarrow> proposer_event \<Rightarrow> bool" where
  "event_ballot B (PePromise now ack) \<longleftrightarrow> ballot_of B (PAXOS_PROMISE ack)"
| "event_ballot B (PePreempted now ack) \<longleftrightarrow> ballot_of B (PAXOS_PREEMPTED ack)"
| "event_ballot B e \<longleftrightarrow> True"

lemma kept_dom: "kept h h' \<Longrightarrow> i \<in> dom (kh_lookup h') \<Longrightarrow> i \<in> dom (kh_lookup h)"
  unfolding kept_def by blast

lemma kept_ballot:
  "kept h h' \<Longrightarrow> \<forall>i inst. kh_lookup h i = Some inst \<longrightarrow> pi_ballot inst = B \<Longrightarrow> \<forall>i inst. kh_lookup h' i = Some inst \<longrightarrow> pi_ballot inst = B"
  unfolding kept_def by metis

lemma one_ballot_kept:
  assumes "one_ballot B p" "po_id p' = po_id p" "kept (po_prepare_instances p) (po_prepare_instances p')"
    "kept (po_accept_instances p) (po_accept_instances p')" "po_next_prepare_iid p \<le> po_next_prepare_iid p'"
  shows "one_ballot B p' \<and> advances p p'"
proof -
  have o: "\<forall>i inst. kh_lookup (po_prepare_instances p) i = Some inst \<longrightarrow> pi_ballot inst = B"
    "\<forall>i inst. kh_lookup (po_accept_instances p) i = Some inst \<longrightarrow> pi_ballot inst = B" "proposer_next_ballot (po_id p) 0 = B"
    using assms(1) by (simp_all add: one_ballot_def)
  have "one_ballot B p'" unfolding one_ballot_def
    using kept_ballot[OF assms(3) o(1)] kept_ballot[OF assms(4) o(2)] o(3) assms(2) by simp
  moreover have "advances p p'" unfolding advances_def using kept_dom[OF assms(3)] assms(5) by blast
  ultimately show ?thesis by blast
qed

lemma promise_value_ballot: "promise_value ack j inst = Inr inst' \<Longrightarrow> pi_ballot inst' = pi_ballot inst"
  by (auto simp: promise_value_def bind_res_Inr_iff split: if_splits)

lemma promise_loop_ballot:
  assumes "\<forall>b \<in> set (the (pr_ballots ack)). b = pi_ballot inst" "promise_loop now pid ack js (inst, None) = Inr (inst', out)"
  shows "pi_ballot inst' = pi_ballot inst \<and> out = None"
  using assms
proof (induction js arbitrary: inst)
  case Nil
  then show ?case by simp
next
  case (Cons j js)
  obtain inst1 out1 where e: "promise_entry now pid ack j (inst, None) = Inr (inst1, out1)"
    "promise_loop now pid ack js (inst1, out1) = Inr (inst', out)"
    using Cons.prems(2) by (auto simp: bind_res_Inr_iff)
  obtain b where b: "aread (pr_ballots ack) j = Inr b" using e(1) by (auto simp: promise_entry_def bind_res_Inr_iff)
  then have "b = pi_ballot inst" using Cons.prems(1) by (cases "pr_ballots ack") (auto simp: aread_def split: if_splits)
  then have "pi_ballot inst1 = pi_ballot inst" "out1 = None"
    using e(1) b by (auto simp: promise_entry_def bind_res_Inr_iff dest!: promise_value_ballot)
  with Cons.IH[of inst1] Cons.prems(1) e(2) show ?case by simp
qed

lemma promise_one_ballot:
  assumes p: "proposer_ok p" "one_ballot B p" and ack: "ballot_of B (PAXOS_PROMISE ack)"
    and run: "proposer_receive_promise now p ack = Inr (p', out)"
  shows "one_ballot B p' \<and> advances p p' \<and> out = None"
proof (cases "kh_lookup (po_prepare_instances p) (pr_iid ack)")
  case None
  then show ?thesis using run p(2) by (auto simp: proposer_receive_promise_def advances_def)
next
  case (Some inst)
  let ?h = "po_prepare_instances p"
  have B: "pi_ballot inst = B" using p(2) Some by (simp add: one_ballot_def)
  obtain inst' where l: "promise_loop now (po_id p) ack [0..<unat (pr_n_aids ack)] (inst, None) = Inr (inst', out)"
    "p' = p\<lparr>po_prepare_instances := kh_write ?h (pr_iid ack) inst'\<rparr>"
    using run Some by (auto simp: proposer_receive_promise_def bind_res_Inr_iff)
  have f: "pi_ballot inst' = B" "out = None" using promise_loop_ballot[OF _ l(1)] ack B by simp_all
  have "kh_lookup (kh_write ?h (pr_iid ack) inst') = (kh_lookup ?h)(pr_iid ack \<mapsto> inst')"
    by (rule kh.update_lookup[OF table_okD(1)[OF proposer_okD(4)[OF p(1)]] Some])
  then show ?thesis using p(2) l(2) f Some by (auto simp: one_ballot_def advances_def)
qed

text \<open>
  One step: the ballots stay \<open>B\<close>, and an accept request is for an instance that leaves phase 1 for good.
\<close>

lemma one_ballot_step:
  assumes p: "proposer_ok p" "po_acceptors p = n" "one_ballot B p" and e: "pevent_from n S e p" "event_ballot B e"
    and run: "proposer_step e p = Inr (p', m)"
  shows "one_ballot B p' \<and> advances p p' \<and>
    (\<forall>x. m = Some x \<longrightarrow> ballot_of B x \<and> (\<forall>a. x = PAXOS_ACCEPT a \<longrightarrow> pa_iid a \<in> dom (kh_lookup (po_prepare_instances p)) \<and>
       pa_iid a \<notin> dom (kh_lookup (po_prepare_instances p')) \<and> pa_iid a \<le> po_next_prepare_iid p'))"
proof (cases e)
  case (PePropose bs)
  then show ?thesis using run p(3) by (auto simp: proposer_propose_def bind_res_Inr_iff one_ballot_def advances_def)
next
  case (PeSetId iid)
  then have r: "proposer_set_instance_id p iid = Inr p'" "m = None" using run by (auto simp: bind_res_Inr_iff)
  have "po_id p' = po_id p" "po_next_prepare_iid p \<le> po_next_prepare_iid p'"
    using set_instance_id_ok[OF p(1), of iid] r(1) by (auto simp: keeps_def)
  then show ?thesis using one_ballot_kept[OF p(3) _ set_id_tables[OF p(1) r(1)]] r(2) by simp
next
  case (PePrepare now)
  then obtain q where q: "proposer_prepare now p = Inr (p', q)" "m = Some (PAXOS_PREPARE q)" using run by (auto simp: bind_res_Inr_iff)
  have room: "po_next_prepare_iid p + 1 \<noteq> 0" using e(1) PePrepare by simp
  obtain inst where r: "q = prepare_message (po_id p) inst" "pi_ballot inst = B" "po_id p' = po_id p"
    "po_next_prepare_iid p < po_next_prepare_iid p + 1" "po_next_prepare_iid p' = po_next_prepare_iid p + 1"
    "kh_lookup (po_prepare_instances p') = (kh_lookup (po_prepare_instances p))(po_next_prepare_iid p + 1 \<mapsto> inst)"
    "po_accept_instances p' = po_accept_instances p"
    using prepare_ok[OF p(1) room, of now] q(1) p(3) by (auto simp: keeps_def one_ballot_def)
  then have "one_ballot B p'" "advances p p'" using p(3) by (auto simp: one_ballot_def advances_def intro: less_imp_le)
  then show ?thesis using q(2) r(1,2) by (simp add: prepare_message_def)
next
  case (PePromise now ack)
  then obtain out where r: "proposer_receive_promise now p ack = Inr (p', out)" "m = map_option PAXOS_PREPARE out"
    using run by (auto simp: bind_res_Inr_iff)
  from promise_one_ballot[OF p(1,3) _ r(1)] show ?thesis using e(2) PePromise r(2) by simp
next
  case PeAccept
  then obtain out where r: "proposer_accept p = Inr (p', out)" "m = map_option PAXOS_ACCEPT out"
    using run by (auto simp: bind_res_Inr_iff)
  note ok = proposer_accept_ok[OF p(1)]
  have next': "po_id p' = po_id p" "po_next_prepare_iid p' = po_next_prepare_iid p" using ok r(1) by (auto simp: keeps_def)
  show ?thesis
  proof (cases out)
    case None
    then show ?thesis using one_ballot_kept[OF p(3) next'(1) accept_none(1)[OF p(1)]] accept_none(2)[OF p(1)] next' r by simp
  next
    case (Some a)
    then obtain inst where i: "kh_lookup (po_prepare_instances p) (pa_iid a) = Some inst" "pa_ballot a = pi_ballot inst"
      "kh_lookup (po_prepare_instances p') = (kh_lookup (po_prepare_instances p))(pa_iid a := None)"
      "kh_lookup (po_accept_instances p') = (kh_lookup (po_accept_instances p))(pa_iid a \<mapsto> cleared (taken p inst))"
      using ok r(1) by auto
    have "pa_iid a \<le> po_next_prepare_iid p" using table_okD(3)[OF proposer_okD(4)[OF p(1)] i(1)] .
    moreover have "pi_ballot (cleared (taken p inst)) = pi_ballot inst" by (simp add: cleared_def taken_def)
    ultimately show ?thesis using Some r(2) p(3) i next' by (auto simp: one_ballot_def advances_def)
  qed
next
  case (PeAccepted ack)
  then obtain rv where r: "proposer_receive_accepted p ack = Inr (p', rv)" "m = None" using run by (auto simp: bind_res_Inr_iff)
  have "accepted_for (po_acceptors p) ack" using e(1) PeAccepted p(2) by (simp add: ack_for_accepted)
  then have "po_prepare_instances p' = po_prepare_instances p" "po_id p' = po_id p" "po_next_prepare_iid p' = po_next_prepare_iid p"
    using receive_accepted_ok[OF p(1), of ack] r(1) by (auto simp: keeps_def)
  then show ?thesis using one_ballot_kept[OF p(3) _ _ receive_accepted_table[OF p(1) r(1)]] r(2) by simp
next
  case (PePreempted now ack)
  then obtain out where r: "proposer_receive_preempted now p ack = Inr (p', out)" "m = map_option PAXOS_PREPARE out"
    using run by (auto simp: bind_res_Inr_iff)
  have "pe_ballot ack = B" using e(2) PePreempted by simp
  then have "out = None \<and> p' = p" using r(1) p(3) by (auto simp: proposer_receive_preempted_def one_ballot_def split: option.splits)
  then show ?thesis using r(2) p(3) by (simp add: advances_def)
qed (use e(1) in simp_all)

section \<open>Acceptors\<close>

text \<open>All records have the ballot \<open>B\<close>, and their values were requested: \<open>Q i v\<close>.\<close>

definition acceptor_one :: "ballot_t \<Rightarrow> (iid_t \<Rightarrow> paxos_value \<Rightarrow> bool) \<Rightarrow> mem_storage acceptor \<Rightarrow> bool" where
  "acceptor_one B Q a \<longleftrightarrow> (\<forall>i r. acceptor_recs a i = Some r \<longrightarrow> promised r = B \<and>
     (\<forall>v vs. ac_values r = Some (v # vs) \<longrightarrow> 0 < pv_len v \<longrightarrow> Q i v))"

fun aevent_one :: "ballot_t \<Rightarrow> (iid_t \<Rightarrow> paxos_value \<Rightarrow> bool) \<Rightarrow> acceptor_event \<Rightarrow> bool" where
  "aevent_one B Q (RecvPrepare isrc req) \<longleftrightarrow> pp_ballot req = B"
| "aevent_one B Q (RecvAccept req) \<longleftrightarrow> pa_ballot req = B \<and> Q (pa_iid req) (pa_value req) \<and> exact (pa_value req)"
| "aevent_one B Q e \<longleftrightarrow> True"

fun answer_one :: "ballot_t \<Rightarrow> (iid_t \<Rightarrow> paxos_value \<Rightarrow> bool) \<Rightarrow> paxos_message \<Rightarrow> bool" where
  "answer_one B Q (PAXOS_ACCEPT req) \<longleftrightarrow> False"
| "answer_one B Q (PAXOS_ACCEPTED ack) \<longleftrightarrow> (\<exists>v vs. ac_values ack = Some (v # vs) \<and> Q (ac_iid ack) v)"
| "answer_one B Q m \<longleftrightarrow> ballot_of B m"

lemma exact_value_clip: "exact v \<Longrightarrow> 0 < pv_len (value_clip v) \<Longrightarrow> value_clip v = v"
  using exact_props(3)[of v] by auto

lemma acceptor_one_step:
  assumes a: "mem_inv a" "acceptor_one B Q a" and e: "aevent_one B Q e" and run: "acceptor_step e a = Inr (a', m)"
  shows "acceptor_one B Q a' \<and> (\<forall>x. m = Some x \<longrightarrow> answer_one B Q x)"
proof -
  let ?t = "ar_trim_iid a" and ?R = "acceptor_recs a" and ?aid = "ar_id a"
  have ok: "event_ok e" using e by (cases e) auto
  have st: "m = snd (abs_step ?aid e (?t, ?R))" "mem_rel ?aid (fst (abs_step ?aid e (?t, ?R))) a'"
    using mem_step[OF a(1)[unfolded mem_inv_def] ok] run by auto
  have recs: "acceptor_recs a' = snd (fst (abs_step ?aid e (?t, ?R)))" using mem_relD(3)[OF st(2)] .
  have old: "promised r = B" "\<forall>v vs. ac_values r = Some (v # vs) \<longrightarrow> 0 < pv_len v \<longrightarrow> Q i v" if "?R i = Some r" for i r
    using a(2) that by (auto simp: acceptor_one_def)
  show ?thesis
  proof (cases e)
    case (RecvPrepare isrc req)
    let ?r = "prepare_result isrc ?aid req (?R (pp_iid req))"
    have r: "promised ?r = B" "\<forall>v vs. ac_values ?r = Some (v # vs) \<longrightarrow> 0 < pv_len v \<longrightarrow> Q (pp_iid req) v"
      using old[of "pp_iid req"] e RecvPrepare by (auto simp: prepare_result_def prepared_record_props split: option.splits)
    have one: "acceptor_one B Q a'"
      using r old recs RecvPrepare by (auto simp: acceptor_one_def Let_def split: if_splits)
    have "answer_one B Q x" if "m = Some x" for x
      using that st(1) RecvPrepare r(1) by (auto simp: Let_def promise_of_def split: if_splits)
    with one show ?thesis by blast
  next
    case (RecvAccept req)
    then have v: "exact (pa_value req)" "Q (pa_iid req) (pa_value req)" "pa_ballot req = B" using e by simp_all
    let ?new = "record_clip (accepted_record ?aid req)"
    have vals: "ac_values (accepted_record ?aid req) = Some [pa_value req]" using v(1) by (simp add: accepted_record_def)
    have new: "promised ?new = B" "\<forall>w ws. ac_values ?new = Some (w # ws) \<longrightarrow> 0 < pv_len w \<longrightarrow> Q (pa_iid req) w"
      using accepted_record_props(3)[of req ?aid] vals v exact_value_clip[OF v(1)] by (auto simp: record_clip_def)
    have one: "acceptor_one B Q a'"
      using new old recs RecvAccept by (auto simp: acceptor_one_def accept_result_def Let_def split: if_splits option.splits)
    have "answer_one B Q x" if "m = Some x" for x
      using that st(1) RecvAccept old[of "pa_iid req"] vals v accepted_record_props(4)[of req ?aid]
      by (auto simp: accept_result_def Let_def split: if_splits option.splits)
    with one show ?thesis by blast
  next
    case (RecvRepeat iid)
    have "answer_one B Q x" if x: "m = Some x" for x
    proof -
      obtain r vs where r: "?R iid = Some r" "x = PAXOS_ACCEPTED r" "ac_values r = Some vs" "0 < pv_len (hd vs)"
        using x st(1) RecvRepeat by (auto simp: repeat_result_def split: option.splits if_splits)
      then obtain w ws where w: "vs = w # ws"
        using mem_invD(3)[OF a(1) r(1)] unat_u32_pos[of "ac_n_aids r"] by (cases vs) (auto simp: accepted_ok_def)
      have "ac_iid r = iid" using ms.held_record(3)[OF mem_invD(1)[OF a(1)] r(1)] .
      then show ?thesis using r w old[OF r(1)] by auto
    qed
    then show ?thesis using RecvRepeat recs a(2) by (auto simp: acceptor_one_def)
  next
    case (RecvTrim tr)
    then show ?thesis using recs st(1) a(2) by (auto simp: acceptor_one_def split: if_splits)
  qed
qed

section \<open>The system\<close>

definition requested :: "system \<Rightarrow> iid_t \<Rightarrow> paxos_value \<Rightarrow> bool" where
  "requested s i v \<longleftrightarrow> (\<exists>a. PAXOS_ACCEPT a \<in> set (sy_net s) \<and> pa_iid a = i \<and> pa_value a = v)"

text \<open>The messages of the network, against the proposer \<open>p\<close>.\<close>

definition net_one :: "ballot_t \<Rightarrow> proposer \<Rightarrow> system \<Rightarrow> bool" where
  "net_one B p s \<longleftrightarrow> (\<forall>m \<in> set (sy_net s). ballot_of B m) \<and>
     (\<forall>a. PAXOS_ACCEPT a \<in> set (sy_net s) \<longrightarrow> pa_iid a \<le> po_next_prepare_iid p \<and> pa_iid a \<notin> dom (kh_lookup (po_prepare_instances p))) \<and>
     (\<forall>a a'. PAXOS_ACCEPT a \<in> set (sy_net s) \<longrightarrow> PAXOS_ACCEPT a' \<in> set (sy_net s) \<longrightarrow> pa_iid a = pa_iid a' \<longrightarrow> pa_value a = pa_value a') \<and>
     (\<forall>ack. PAXOS_ACCEPTED ack \<in> set (sy_net s) \<longrightarrow> (\<exists>v vs. ac_values ack = Some (v # vs) \<and> requested s (ac_iid ack) v))"

definition solo :: "ballot_t \<Rightarrow> system \<Rightarrow> bool" where
  "solo B s \<longleftrightarrow> (\<exists>p. sy_proposers s = [p] \<and> one_ballot B p \<and> net_one B p s) \<and>
     (\<forall>a \<in> set (sy_acceptors s). acceptor_one B (requested s) a) \<and>
     (\<forall>(k, m) \<in> set (sy_delivered s). requested s (ac_iid m) (first_val m))"

lemma requested_same [simp]:
  "requested (s\<lparr>sy_acceptors := x\<rparr>) = requested s" "requested (s\<lparr>sy_proposers := y\<rparr>) = requested s"
  "requested (s\<lparr>sy_offered := z\<rparr>) = requested s" "requested (s\<lparr>sy_learners := l, sy_delivered := d\<rparr>) = requested s"
  by (simp_all add: requested_def fun_eq_iff)

lemma net_one_same [simp]:
  "net_one B p (s\<lparr>sy_acceptors := x\<rparr>) = net_one B p s" "net_one B p (s\<lparr>sy_proposers := y\<rparr>) = net_one B p s"
  "net_one B p (s\<lparr>sy_offered := z\<rparr>) = net_one B p s" "net_one B p (s\<lparr>sy_learners := l, sy_delivered := d\<rparr>) = net_one B p s"
  by (simp_all add: net_one_def)

lemma acceptor_one_mono: "(\<And>i v. Q i v \<Longrightarrow> Q' i v) \<Longrightarrow> acceptor_one B Q a \<Longrightarrow> acceptor_one B Q' a"
  unfolding acceptor_one_def by blast

text \<open>An answer of an acceptor joins the network.\<close>

lemma solo_answer:
  assumes "solo B s" "\<forall>x. m = Some x \<longrightarrow> answer_one B (requested s) x"
  shows "solo B (sends m s)"
proof (cases m)
  case None
  then show ?thesis using assms(1) by (simp add: sends_def)
next
  case (Some x)
  have net: "set (sy_net (sends m s)) = insert x (set (sy_net s))" by (simp add: sends_def Some)
  obtain p where p: "sy_proposers s = [p]" "one_ballot B p" "net_one B p s" using assms(1) by (auto simp: solo_def)
  have x: "answer_one B (requested s) x" using assms(2) Some by simp
  then have nx: "x \<noteq> PAXOS_ACCEPT a" "ballot_of B x" for a by (cases x; auto)+
  have req: "requested (sends m s) = requested s" using nx(1) by (auto simp: requested_def net fun_eq_iff)
  have acc: "PAXOS_ACCEPT a \<in> set (sy_net (sends m s)) \<longleftrightarrow> PAXOS_ACCEPT a \<in> set (sy_net s)" for a
    unfolding net using nx(1) by blast
  have vote: "\<exists>v vs. ac_values ack = Some (v # vs) \<and> requested s (ac_iid ack) v" if "PAXOS_ACCEPTED ack \<in> set (sy_net (sends m s))" for ack
  proof (cases "x = PAXOS_ACCEPTED ack")
    case True
    then show ?thesis using x by simp
  next
    case False
    then show ?thesis using that p(3) unfolding net net_one_def by blast
  qed
  note old = p(3)[unfolded net_one_def]
  have bal: "\<forall>y \<in> set (sy_net (sends m s)). ballot_of B y" using conjunct1[OF old] nx(2) unfolding net by blast
  have "net_one B p (sends m s)"
    unfolding net_one_def acc req
    by (intro conjI bal conjunct1[OF conjunct2[OF old]] conjunct1[OF conjunct2[OF conjunct2[OF old]]] allI impI vote)
  then show ?thesis using assms(1) p req by (auto simp: solo_def sends_def)
qed

text \<open>A message of the proposer joins the network, and the proposer moves on.\<close>

lemma solo_request:
  assumes s: "solo B s" "sy_proposers s = [p]" and p': "one_ballot B p'" "advances p p'"
    and m: "\<forall>x. m = Some x \<longrightarrow> ballot_of B x \<and> (\<forall>ack. x \<noteq> PAXOS_ACCEPTED ack) \<and>
      (\<forall>a. x = PAXOS_ACCEPT a \<longrightarrow> pa_iid a \<in> dom (kh_lookup (po_prepare_instances p)) \<and>
        pa_iid a \<notin> dom (kh_lookup (po_prepare_instances p')) \<and> pa_iid a \<le> po_next_prepare_iid p')"
  shows "solo B (sends m (s\<lparr>sy_proposers := [p']\<rparr>))"
proof -
  let ?s = "sends m (s\<lparr>sy_proposers := [p']\<rparr>)" and ?new = "case m of None \<Rightarrow> {} | Some x \<Rightarrow> {x}"
  have net: "set (sy_net ?s) = set (sy_net s) \<union> ?new" by (auto simp: sends_def split: option.splits)
  have one: "net_one B p s" using s by (auto simp: solo_def)
  have old: "pa_iid a \<le> po_next_prepare_iid p \<and> pa_iid a \<notin> dom (kh_lookup (po_prepare_instances p))" if "PAXOS_ACCEPT a \<in> set (sy_net s)" for a
    using one that unfolding net_one_def by blast
  have old': "pa_iid a \<le> po_next_prepare_iid p' \<and> pa_iid a \<notin> dom (kh_lookup (po_prepare_instances p'))" if "PAXOS_ACCEPT a \<in> set (sy_net s)" for a
    using old[OF that] p'(2) unfolding advances_def by (meson leD order.trans)
  have new: "ballot_of B x" "x \<noteq> PAXOS_ACCEPTED ack" if "x \<in> ?new" for x ack using m that by (auto split: option.splits)
  have acc: "pa_iid a \<in> dom (kh_lookup (po_prepare_instances p))" "pa_iid a \<notin> dom (kh_lookup (po_prepare_instances p'))"
    "pa_iid a \<le> po_next_prepare_iid p'" if "PAXOS_ACCEPT a \<in> ?new" for a
    using m that by (auto split: option.splits)
  have req: "requested ?s i v" if "requested s i v" for i v using that net by (auto simp: requested_def)
  have same: "pa_value a = pa_value a'" if "PAXOS_ACCEPT a \<in> set (sy_net ?s)" "PAXOS_ACCEPT a' \<in> set (sy_net ?s)" "pa_iid a = pa_iid a'" for a a'
  proof -
    have "a = a'" if "PAXOS_ACCEPT a \<in> ?new" "PAXOS_ACCEPT a' \<in> ?new" using that by (auto split: option.splits)
    moreover have "pa_value a = pa_value a'" if "PAXOS_ACCEPT a \<in> set (sy_net s)" "PAXOS_ACCEPT a' \<in> set (sy_net s)"
      using one that \<open>pa_iid a = pa_iid a'\<close> unfolding net_one_def by blast
    ultimately show ?thesis using that old acc(1) unfolding net by (metis Un_iff)
  qed
  have "net_one B p' ?s"
    unfolding net_one_def
  proof (intro conjI allI impI ballI)
    fix x assume "x \<in> set (sy_net ?s)"
    then show "ballot_of B x" using one new(1) unfolding net net_one_def by blast
  next
    fix a assume "PAXOS_ACCEPT a \<in> set (sy_net ?s)"
    then show "pa_iid a \<le> po_next_prepare_iid p'" "pa_iid a \<notin> dom (kh_lookup (po_prepare_instances p'))"
      using old' acc(2,3) unfolding net by blast+
  next
    fix a a' assume "PAXOS_ACCEPT a \<in> set (sy_net ?s)" "PAXOS_ACCEPT a' \<in> set (sy_net ?s)" "pa_iid a = pa_iid a'"
    then show "pa_value a = pa_value a'" by (rule same)
  next
    fix ack assume "PAXOS_ACCEPTED ack \<in> set (sy_net ?s)"
    then have "PAXOS_ACCEPTED ack \<in> set (sy_net s)" using new(2) unfolding net by blast
    then show "\<exists>v vs. ac_values ack = Some (v # vs) \<and> requested ?s (ac_iid ack) v" using one req unfolding net_one_def by blast
  qed
  moreover have "acceptor_one B (requested ?s) a" if "a \<in> set (sy_acceptors s)" for a
    using that s(1) acceptor_one_mono[of "requested s" "requested ?s" B a] req by (auto simp: solo_def)
  moreover have "requested ?s (ac_iid d) (first_val d)" if "(k, d) \<in> set (sy_delivered s)" for k d
    using that s(1) req by (auto simp: solo_def)
  ultimately show ?thesis using p'(1) by (auto simp: solo_def sends_def split: option.splits)
qed

section \<open>Steps\<close>

lemma run_acceptor_solo:
  assumes ok: "system_ok n s" and s: "solo B s" and e: "\<forall>e'. e = Some e' \<longrightarrow> aevent_one B (requested s) e'"
    and run: "run_acceptor i e s = Inr s'"
  shows "solo B s'"
proof (cases "\<exists>e'. e = Some e' \<and> i < n")
  case False
  then have "s' = s" using run system_okD(1)[OF ok] by (auto simp: run_acceptor_def split: option.splits)
  then show ?thesis using s by simp
next
  case True
  then obtain e' where e': "e = Some e'" "i < n" by blast
  have i: "i < length (sy_acceptors s)" using e'(2) system_okD(1)[OF ok] by simp
  obtain a' m where r: "acceptor_step e' (sy_acceptors s ! i) = Inr (a', m)" "s' = sends m (s\<lparr>sy_acceptors := (sy_acceptors s)[i := a']\<rparr>)"
    using run e' i by (auto simp: run_acceptor_def bind_res_Inr_iff)
  have inv: "mem_inv (sy_acceptors s ! i)"
    using system_okD(2)[OF ok e'(2)] acceptor_reachable_inv(1) by (auto simp: acceptor_fine_def)
  have "acceptor_one B (requested s) (sy_acceptors s ! i)" using s nth_mem[OF i] by (auto simp: solo_def)
  from acceptor_one_step[OF inv this _ r(1)] e e'(1)
  have st: "acceptor_one B (requested s) a'" "\<forall>x. m = Some x \<longrightarrow> answer_one B (requested s) x" by simp_all
  have "solo B (s\<lparr>sy_acceptors := (sy_acceptors s)[i := a']\<rparr>)"
    using s st(1) set_update_subset_insert[of "sy_acceptors s" i a'] by (auto simp: solo_def)
  from solo_answer[OF this, of m] show ?thesis using st(2) r(2) by simp
qed

lemma proposer_sends: "proposer_step e p = Inr (p', Some x) \<Longrightarrow> x \<noteq> PAXOS_ACCEPTED ack"
  by (cases e) (auto simp: bind_res_Inr_iff split: prod.splits)

lemma run_proposer_solo:
  assumes ok: "system_ok n s" and s: "solo B s"
    and e: "\<forall>e' p. e = Some e' \<longrightarrow> j = 0 \<longrightarrow> sy_proposers s = [p] \<longrightarrow> pevent_from (int n) S e' p \<and> event_ballot B e'"
    and run: "run_proposer j e s = Inr s'"
  shows "solo B s'"
proof (cases "\<exists>e'. e = Some e' \<and> j = 0")
  case False
  then have "s' = s" using run s by (auto simp: run_proposer_def solo_def split: option.splits if_splits)
  then show ?thesis using s by simp
next
  case True
  obtain p where p: "sy_proposers s = [p]" "one_ballot B p" using s by (auto simp: solo_def)
  obtain e' where e': "e = Some e'" "j = 0" using True by blast
  have ev: "pevent_from (int n) S e' p" "event_ballot B e'" using e e' p(1) by blast+
  obtain pid where "proposer_reachable pid (int n) p" using system_okD(3)[OF ok, of p] p(1) by (auto simp: proposer_fine_def)
  note inv = proposer_reachable_ok[OF this]
  obtain p' m where r: "proposer_step e' p = Inr (p', m)" "s' = sends m (s\<lparr>sy_proposers := [p']\<rparr>)"
    using run e' p(1) by (auto simp: run_proposer_def bind_res_Inr_iff)
  from one_ballot_step[OF conjunct1[OF inv] _ p(2) ev r(1)] inv
  have "one_ballot B p'" "advances p p'" "\<forall>x. m = Some x \<longrightarrow> ballot_of B x \<and> (\<forall>a. x = PAXOS_ACCEPT a \<longrightarrow>
      pa_iid a \<in> dom (kh_lookup (po_prepare_instances p)) \<and> pa_iid a \<notin> dom (kh_lookup (po_prepare_instances p')) \<and>
      pa_iid a \<le> po_next_prepare_iid p')" by simp_all
  then show ?thesis unfolding r(2) using proposer_sends r(1) by (intro solo_request[OF s p(1)]) blast+
qed

lemma run_learner_solo:
  assumes ok: "system_ok n s" and s: "solo B s" and e: "\<forall>e'. e = Some e' \<longrightarrow> received e' \<subseteq> votes s"
    and run: "run_learner k e s = Inr s'"
  shows "solo B s'"
proof (cases "\<exists>e'. e = Some e' \<and> k < length (sy_learners s)")
  case False
  then have "s' = s" using run by (auto simp: run_learner_def split: option.splits if_splits)
  then show ?thesis using s by simp
next
  case True
  then obtain e' where e': "e = Some e'" "k < length (sy_learners s)" by blast
  obtain l' out where st: "learner_step e' (sy_learners s ! k) = Inr (l', out)" "\<forall>m. out = Some m \<longrightarrow> (\<exists>q \<in> votes s. m = accepted_clip q)"
    using learner_step_fine[OF ok system_okD(4)[OF ok nth_mem[OF e'(2)]], of e'] e e'(1) by auto
  then have s': "s' = s\<lparr>sy_learners := (sy_learners s)[k := l'], sy_delivered := sy_delivered s @ (case out of None \<Rightarrow> [] | Some m \<Rightarrow> [(k, m)])\<rparr>"
    using run e' by (simp add: run_learner_def)
  have "requested s (ac_iid m) (first_val m)" if o: "out = Some m" for m
  proof -
    obtain q where q: "PAXOS_ACCEPTED q \<in> set (sy_net s)" "m = accepted_clip q" using st(2) o by (auto simp: votes_def)
    obtain v vs where v: "ac_values q = Some (v # vs)" "requested s (ac_iid q) v" using s q(1) by (auto simp: solo_def net_one_def)
    have "exact v" using system_okD(5)[OF ok q(1)] system_okD(6)[OF ok] v(1) by auto
    then show ?thesis using v q(2) by (simp add: first_val_def)
  qed
  then show ?thesis using s unfolding s' by (auto simp: solo_def split: option.splits)
qed

lemma solo_step:
  assumes ok: "system_ok n s" and s: "solo B s" and e: "step_ready e s" and run: "system_step e s = Inr s'"
  shows "solo B s'"
proof -
  let ?S = "set (sy_offered s)"
  have bal: "ballot_of B m" if "net_msg s k = Some m" for k m
    using net_msg_ok[OF ok that] s by (auto simp: solo_def net_one_def)
  have req: "pa_ballot a = B \<and> requested s (pa_iid a) (pa_value a) \<and> exact (pa_value a)" if "net_msg s k = Some (PAXOS_ACCEPT a)" for k a
    using net_msg_ok[OF ok that] bal[OF that] system_okD(6)[OF ok] by (auto simp: requested_def)
  have acc: "solo B s'" if "run_acceptor i x s = Inr s'" "\<forall>e'. x = Some e' \<longrightarrow> aevent_one B (requested s) e'" for i x
    using run_acceptor_solo[OF ok s that(2,1)] .
  have pro: "solo B s'" if "run_proposer j x s = Inr s'"
    "\<forall>e' p. x = Some e' \<longrightarrow> j = 0 \<longrightarrow> sy_proposers s = [p] \<longrightarrow> pevent_from (int n) ?S e' p \<and> event_ballot B e'" for j x
    using run_proposer_solo[OF ok s that(2,1)] .
  have lea: "solo B s'" if "run_learner k x s = Inr s'" "\<forall>e'. x = Some e' \<longrightarrow> received e' \<subseteq> votes s" for k x
    using run_learner_solo[OF ok s that(2,1)] .
  show ?thesis
  proof (cases e)
    case (Client j bs)
    let ?s = "s\<lparr>sy_offered := sy_offered s @ [\<lparr>pv_len = int (length bs), pv_val = Some bs\<rparr>]\<rparr>"
    have "solo B ?s" using s by (auto simp: solo_def)
    then show ?thesis
      using run_proposer_solo[OF system_ok_offer[OF ok], where e = "Some (PePropose bs)" and j = j and S = "set (sy_offered ?s)"] run Client by simp
  next
    case (Open j now)
    then have "\<forall>p. j = 0 \<longrightarrow> sy_proposers s = [p] \<longrightarrow> po_next_prepare_iid p + 1 \<noteq> 0"
      using e by auto
    then show ?thesis using run Open pro[of j "Some (PePrepare now)"] by simp
  next
    case (ToAcceptor i k)
    then show ?thesis using run
      by (intro acc[of i "Option.bind (net_msg s k) at_acceptor"]) (auto simp: bind_eq_Some_conv elim!: at_acceptor.elims dest!: req dest: bal)
  next
    case (ToProposer j k now)
    then show ?thesis using run bal net_msg_ok[OF ok]
      by (intro pro[of j "Option.bind (net_msg s k) (at_proposer now)"]) (fastforce simp: bind_eq_Some_conv elim!: at_proposer.elims)+
  next
    case (ToLearner l k)
    then show ?thesis using run net_msg_ok[OF ok]
      by (intro lea[of l "Option.bind (net_msg s k) at_learner"]) (auto simp: bind_eq_Some_conv votes_def elim!: at_learner.elims)
  next
    case (Accept j)
    then show ?thesis using run pro[of j "Some PeAccept"] by simp
  next
    case (ProposerAt j iid)
    then show ?thesis using run pro[of j "Some (PeSetId iid)"] by simp
  next
    case (Repeat i iid)
    then show ?thesis using run acc[of i "Some (RecvRepeat iid)"] by simp
  next
    case (Trim i iid)
    then show ?thesis using run acc[of i "Some (RecvTrim \<lparr>tr_iid = iid\<rparr>)"] by simp
  next
    case (Deliver k)
    then show ?thesis using run lea[of k "Some LeDeliver"] by simp
  next
    case (LearnerAt k iid)
    then show ?thesis using run lea[of k "Some (LeSetId iid)"] by simp
  qed
qed

section \<open>Agreement\<close>

lemma solo_new:
  assumes "storage_backend cfg = PAXOS_MEM_STORAGE"
  shows "solo (proposer_next_ballot pid 0) (system_new cfg n [pid] m)"
proof -
  have "acceptor_recs (the (acceptor_new cfg 0 (int i))) = Map.empty" for i
    using acceptor_new_mem[OF assms, of 0 "int i"] mem_relD(3) by fastforce
  then show ?thesis
    by (auto simp: solo_def system_new_def one_ballot_def net_one_def proposer_new_def kh.init_lookup acceptor_one_def)
qed

lemma proposers_fixed: "system_step e s = Inr s' \<Longrightarrow> length (sy_proposers s') = length (sy_proposers s)"
  by (cases e) (auto simp: run_proposer_def run_acceptor_def run_learner_def sends_def bind_res_Inr_iff split: option.splits if_splits)

lemma system_run_proposers: "system_run es s = Inr s' \<Longrightarrow> length (sy_proposers s') = length (sy_proposers s)"
  by (induction es arbitrary: s) (auto simp: bind_res_Inr_iff dest: proposers_fixed)

lemma solo_reachable:
  "system_reachable n s \<Longrightarrow> int n < 2 ^ 31 \<Longrightarrow> length (sy_proposers s) = 1 \<Longrightarrow> \<exists>B. solo B s"
proof (induction rule: system_reachable.induct)
  case (sys_new cfg pids m)
  then obtain pid where "pids = [pid]" by (auto simp: system_new_def length_Suc_conv)
  then show ?case using solo_new[OF sys_new(1)] by blast
next
  case (sys_step s e s')
  then obtain B where "solo B s" using proposers_fixed by metis
  then show ?case using solo_step[OF system_reachable_ok[OF sys_step.hyps(1) sys_step.prems(1)]] sys_step.hyps by blast
qed

lemma single_proposer_agrees:
  assumes "system_reachable n s" "int n < 2 ^ 31" "length (sy_proposers s) = 1"
    and "(k, m) \<in> set (sy_delivered s)" "(k', m') \<in> set (sy_delivered s)" "ac_iid m = ac_iid m'"
  shows "first_val m = first_val m'"
proof -
  obtain B p where s: "solo B s" "net_one B p s" using solo_reachable[OF assms(1-3)] by (auto simp: solo_def)
  have "requested s (ac_iid m) (first_val m)" "requested s (ac_iid m') (first_val m')" using s(1) assms(4,5) by (auto simp: solo_def)
  then obtain a a' where a: "PAXOS_ACCEPT a \<in> set (sy_net s)" "PAXOS_ACCEPT a' \<in> set (sy_net s)" "pa_iid a = pa_iid a'"
    "pa_value a = first_val m" "pa_value a' = first_val m'"
    using assms(6) by (auto simp: requested_def)
  have "pa_value a = pa_value a'" using s(2) a(1-3) unfolding net_one_def by blast
  then show ?thesis using a(4,5) by simp
qed

text \<open>
  C6: agreement under a single proposer. In every run of a system with one proposer, any number of
  acceptors below \<open>2^31\<close> and any number of learners, over a network that may delay, reorder, lose and duplicate
  messages, learners that deliver the same instance deliver the same value; so does one learner that
  was set back and delivers an instance again.
\<close>

theorem agreement_single_proposer:
  assumes "system_reachable n s" "int n < 2 ^ 31" "length (sy_proposers s) = 1"
    and "(k, m) \<in> set (sy_delivered s)" "(k', m') \<in> set (sy_delivered s)" "ac_iid m = ac_iid m'"
  shows "first_val m = first_val m'"
  using assms by (rule single_proposer_agrees)

definition solo_system :: system where
  "solo_system = system_new paxos_config_default 3 [1] 2"

lemma solo_round:
  "ready_run (first_round @ [ToLearner 1 5, ToLearner 1 4, Deliver 1]) solo_system"
  "deliveries (system_run (first_round @ [ToLearner 1 5, ToLearner 1 4, Deliver 1]) solo_system) =
     [(0, 1, \<lparr>pv_len = 1, pv_val = Some [1]\<rparr>), (1, 1, \<lparr>pv_len = 1, pv_val = Some [1]\<rparr>)]"
  by code_simp+

theorem agreement_single_proposer_witness:
  "\<exists>s m m'. system_run (first_round @ [ToLearner 1 5, ToLearner 1 4, Deliver 1]) solo_system = Inr s \<and>
     (0, m) \<in> set (sy_delivered s) \<and> (1, m') \<in> set (sy_delivered s) \<and> first_val m = first_val m'"
proof -
  have new: "system_reachable 3 solo_system" unfolding solo_system_def by (rule sys_new) (simp add: paxos_config_default_def)
  obtain s where s: "system_run (first_round @ [ToLearner 1 5, ToLearner 1 4, Deliver 1]) solo_system = Inr s" "system_reachable 3 s"
    using ready_run_reachable[OF new solo_round(1)] by blast
  obtain m m' where m: "(0, m) \<in> set (sy_delivered s)" "(1, m') \<in> set (sy_delivered s)" "ac_iid m = ac_iid m'"
    using solo_round(2) s(1) by (auto simp: deliveries_def map_eq_Cons_conv)
  have "length (sy_proposers s) = 1" using s(1) system_run_proposers[of _ solo_system s] by (simp add: solo_system_def system_new_def)
  from agreement_single_proposer[OF s(2) _ this m] show ?thesis using s(1) m by auto
qed

end
