(* ===== verification/Wire_Roundtrip.thy ===== *)
theory Wire_Roundtrip
  imports Wire
begin

text \<open>
  Round trips of the wire format: what packing and unpacking a well-formed message gives back, and
  that the receiver takes exactly one message off a byte stream for each message sent.
\<close>

section \<open>Scalars\<close>

fun obj_of :: "pack_call \<Rightarrow> msgpack_object" where
  "obj_of (PackInt x) = ObjInt (ucast x)"
| "obj_of (PackBin bs) = ObjBin bs"
| "obj_of (PackArray n) = ObjOther"

fun is_scalar :: "pack_call \<Rightarrow> bool" where
  "is_scalar (PackInt x) = True"
| "is_scalar (PackBin bs) = (length bs < 2 ^ 31)"
| "is_scalar (PackArray n) = False"

lemma ucast_up_down [simp]: "ucast (ucast (x :: u32) :: 64 word) = x"
  by (rule bit_word_eqI) (simp add: bit_simps)

lemma obj_at [simp]: "i < length xs \<Longrightarrow> MSGPACK_OBJECT_AT (ObjArray xs) i = Inr (xs ! i)"
  by (simp add: MSGPACK_OBJECT_AT_def)

lemma uint32_at [simp]:
  "i < length xs \<Longrightarrow> xs ! i = ObjInt w \<Longrightarrow> msgpack_unpack_uint32_at (ObjArray xs) i = Inr (ucast w, i + 1)"
  by (simp add: msgpack_unpack_uint32_at_def)

lemma unpack_u32s_at:
  "unpack_u32s (ObjArray (pre @ map obj_of (pack_u32s xs) @ post)) (length pre) (length xs) = Inr (xs, length pre + length xs)"
proof (induction xs arbitrary: pre)
  case (Cons x xs)
  from Cons.IH[of "pre @ [ObjInt (ucast x)]"] show ?case by (simp add: pack_u32s_def nth_append)
qed simp

lemma unpack_u32s_from:
  assumes "objs = pre @ map obj_of (pack_u32s xs) @ post" "length pre = i" "length xs = n"
  shows "unpack_u32s (ObjArray objs) i n = Inr (xs, i + n)"
  using unpack_u32s_at[of pre xs post] assms by simp

section \<open>Values\<close>

definition value_small :: "paxos_value \<Rightarrow> bool" where
  "value_small v \<longleftrightarrow> value_ok v \<and> pv_len v + 16 < 2 ^ 31"

text \<open>What arrives for a value: the bytes it owns and 16 spare zeros; an empty value has no buffer.\<close>

definition value_bytes :: "paxos_value \<Rightarrow> u8 list" where
  "value_bytes v = (if pv_len v = 0 then [] else take (nat (pv_len v)) (the (pv_val v)))"

definition wire_value :: "paxos_value \<Rightarrow> paxos_value" where
  "wire_value v = (if pv_len v = 0 then value_zero else \<lparr>pv_len = pv_len v, pv_val = Some (value_bytes v @ replicate 16 0)\<rparr>)"

lemma wire_value_bytes: "value_ok v \<Longrightarrow> value_bytes (wire_value v) = value_bytes v \<and> pv_len (wire_value v) = pv_len v"
  by (auto simp: wire_value_def value_bytes_def value_zero_def value_ok_cases)

lemma int_of_len: "n < 2 ^ 31 \<Longrightarrow> int_of_u32 (of_nat n) = int n"
  by (simp add: int_of_u32_def signed_of_nat signed_take_bit_int_eq_self)

lemma pack_value_ok:
  assumes "value_small v"
  shows "msgpack_pack_paxos_value v = Inr [PackBin (value_bytes v)]" "int (length (value_bytes v)) = pv_len v"
proof -
  have ok: "value_ok v" using assms by (simp add: value_small_def)
  show "int (length (value_bytes v)) = pv_len v" using ok by (auto simp: value_ok_cases value_bytes_def)
  show "msgpack_pack_paxos_value v = Inr [PackBin (value_bytes v)]"
    using ok by (auto simp: value_ok_cases msgpack_pack_paxos_value_def msgpack_pack_string_def copy_bytes_def
        value_bytes_def acopy_def nat_le_iff split: option.splits)
qed

lemma value_at:
  assumes "value_small v" "i < length xs" "xs ! i = ObjBin (value_bytes v)"
  shows "msgpack_unpack_paxos_value_at (ObjArray xs) i = Inr (wire_value v, i + 1)"
proof -
  let ?b = "value_bytes v"
  have len: "int (length ?b) = pv_len v" by (rule pack_value_ok(2)[OF assms(1)])
  have lt: "int (length ?b) + 16 < 2 ^ 31" using assms(1) len by (simp add: value_small_def)
  then have i: "int_of_u32 (of_nat (length ?b)) = int (length ?b)" by (intro int_of_len) simp
  show ?thesis
  proof (cases "pv_len v = 0")
    case True
    then have "?b = []" by (simp add: value_bytes_def)
    then show ?thesis using assms(2,3) True i
      by (simp add: msgpack_unpack_paxos_value_at_def msgpack_unpack_string_at_def wire_value_def value_zero_def)
  next
    case False
    then have "0 < length ?b" using len by auto
    moreover have "nat (pv_len v) = length ?b" using len by simp
    ultimately show ?thesis using assms(2,3) False i lt len
      by (simp add: msgpack_unpack_paxos_value_at_def msgpack_unpack_string_at_def wire_value_def not_le Let_def)
  qed
qed

lemma pack_values_ok:
  "\<forall>v \<in> set vs. value_small v \<Longrightarrow> pack_values vs = Inr (map (\<lambda>v. PackBin (value_bytes v)) vs)"
  by (induction vs) (simp_all add: pack_value_ok(1))

lemma unpack_values_at:
  assumes "\<forall>v \<in> set vs. value_small v"
  shows "unpack_values (ObjArray (pre @ map (\<lambda>v. ObjBin (value_bytes v)) vs @ post)) (length pre) (length vs) =
    Inr (map wire_value vs, length pre + length vs)"
  using assms
proof (induction vs arbitrary: pre)
  case (Cons v vs)
  have "msgpack_unpack_paxos_value_at (ObjArray (pre @ map (\<lambda>v. ObjBin (value_bytes v)) (v # vs) @ post)) (length pre) =
      Inr (wire_value v, length pre + 1)"
    using Cons.prems by (intro value_at) (simp_all add: nth_append)
  with Cons.IH[of "pre @ [ObjBin (value_bytes v)]"] Cons.prems show ?case by simp
qed simp

lemma unpack_values_from:
  assumes "\<forall>v \<in> set vs. value_small v" "objs = pre @ map (\<lambda>v. ObjBin (value_bytes v)) vs @ post" "length pre = i" "length vs = n"
  shows "unpack_values (ObjArray objs) i n = Inr (map wire_value vs, i + n)"
  using unpack_values_at[OF assms(1), of pre post] assms(2-4) by simp

section \<open>Messages\<close>

fun wire_ok :: "paxos_message \<Rightarrow> bool" where
  "wire_ok (PAXOS_PROMISE v) = (promise_ok v \<and> value_small (pr_value_0 v) \<and> (\<forall>x \<in> set (the (pr_values v)). value_small x) \<and>
     pr_n_aids v < 2 ^ 29)"
| "wire_ok (PAXOS_ACCEPT v) = value_small (pa_value v)"
| "wire_ok (PAXOS_ACCEPTED v) = (accepted_ok v \<and> (\<forall>x \<in> set (case ac_values v of None \<Rightarrow> [] | Some vs \<Rightarrow> vs). value_small x) \<and>
     ac_n_aids v < 2 ^ 29)"
| "wire_ok (PAXOS_CLIENT_VALUE v) = value_small (cv_value v)"
| "wire_ok m = True"

text \<open>
  What arrives: values are re-buffered; an accepted message loses its source and its scalar ballots
  and value, whose places keep what the receiver's buffer \<open>old\<close> held.
\<close>

fun wire_image :: "paxos_accepted \<Rightarrow> paxos_message \<Rightarrow> paxos_message" where
  "wire_image old (PAXOS_PROMISE v) = PAXOS_PROMISE (v\<lparr>pr_value_0 := wire_value (pr_value_0 v),
     pr_values := map_option (map wire_value) (pr_values v)\<rparr>)"
| "wire_image old (PAXOS_ACCEPT v) = PAXOS_ACCEPT (v\<lparr>pa_value := wire_value (pa_value v)\<rparr>)"
| "wire_image old (PAXOS_ACCEPTED v) = PAXOS_ACCEPTED (v\<lparr>ac_src := -1, ac_ballot_0 := ac_ballot_0 old,
     ac_value_ballot_0 := ac_value_ballot_0 old, ac_value_0 := value_zero,
     ac_values := map_option (map wire_value) (ac_values v)\<rparr>)"
| "wire_image old (PAXOS_CLIENT_VALUE v) = PAXOS_CLIENT_VALUE \<lparr>cv_value = wire_value (cv_value v)\<rparr>"
| "wire_image old m = m"

definition travels :: "paxos_message \<Rightarrow> pack_call list \<Rightarrow> bool" where
  "travels m cs \<longleftrightarrow> msgpack_pack_paxos_message m = Inr (PackArray (of_nat (length cs)) # cs) \<and>
     length cs < 2 ^ 32 \<and> (\<forall>c \<in> set cs. is_scalar c) \<and>
     (\<forall>old. msgpack_unpack_paxos_message (ObjArray (map obj_of cs)) old = Inr (wire_image old m))"

lemma travels_plain:
  "travels (PAXOS_PREPARE v) [PackInt 0, PackInt (pp_src v), PackInt (pp_iid v), PackInt (pp_ballot v)]"
  "travels (PAXOS_PREEMPTED e) [PackInt 4, PackInt (pe_aid e), PackInt (pe_iid e), PackInt (pe_ballot e)]"
  "travels (PAXOS_REPEAT r) [PackInt 5, PackInt (rp_from r), PackInt (rp_to r)]"
  "travels (PAXOS_TRIM t) [PackInt 6, PackInt (tr_iid t)]"
  "travels (PAXOS_ACCEPTOR_STATE s) [PackInt 7, PackInt (as_aid s), PackInt (as_trim_iid s)]"
  by (simp_all add: travels_def msgpack_unpack_paxos_message_def
      msgpack_pack_paxos_prepare_def msgpack_unpack_paxos_prepare_def
      msgpack_pack_paxos_preempted_def msgpack_unpack_paxos_preempted_def
      msgpack_pack_paxos_repeat_def msgpack_unpack_paxos_repeat_def
      msgpack_pack_paxos_trim_def msgpack_unpack_paxos_trim_def
      msgpack_pack_paxos_acceptor_state_def msgpack_unpack_paxos_acceptor_state_def)

lemma value_scalar: "value_small v \<Longrightarrow> is_scalar (PackBin (value_bytes v))"
  using pack_value_ok(2)[of v] by (simp add: value_small_def)

lemma travels_valued:
  "value_small (pa_value v) \<Longrightarrow>
     travels (PAXOS_ACCEPT v) [PackInt 2, PackInt (pa_src v), PackInt (pa_iid v), PackInt (pa_ballot v), PackBin (value_bytes (pa_value v))]"
  "value_small (cv_value c) \<Longrightarrow> travels (PAXOS_CLIENT_VALUE c) [PackInt 8, PackBin (value_bytes (cv_value c))]"
  using value_scalar[of "pa_value v"] value_scalar[of "cv_value c"]
  by (simp_all add: travels_def msgpack_unpack_paxos_message_def pack_value_ok(1) value_at
      msgpack_pack_paxos_accept_def msgpack_unpack_paxos_accept_def
      msgpack_pack_paxos_client_value_def msgpack_unpack_paxos_client_value_def)

lemma pack_u32s_simps [simp]: "length (pack_u32s xs) = length xs" "c \<in> set (pack_u32s xs) \<Longrightarrow> is_scalar c"
  by (auto simp: pack_u32s_def)

lemma small_count: "(n :: u32) < 2 ^ 29 \<Longrightarrow> unat n < 2 ^ 29"
  by (simp add: word_less_nat_alt)

lemma acopy_all: "length xs = n \<Longrightarrow> acopy (Some xs) n = Inr xs"
  by auto

lemma travels_promise:
  assumes "wire_ok (PAXOS_PROMISE v)"
  shows "\<exists>cs. travels (PAXOS_PROMISE v) cs"
proof -
  let ?n = "unat (pr_n_aids v)"
  obtain as vs bs ws where m: "pr_aids v = Some as" "pr_values v = Some vs" "pr_ballots v = Some bs" "pr_value_ballots v = Some ws"
    "length as = ?n" "length vs = ?n" "length bs = ?n" "length ws = ?n"
    using assms by (auto simp: promise_ok_def arr_len_iff)
  have small: "value_small (pr_value_0 v)" "\<forall>x \<in> set vs. value_small x" "?n < 2 ^ 29"
    using assms m(2) small_count by auto
  let ?cs = "[PackInt 1, PackInt (pr_src v), PackInt (pr_iid v), PackInt (pr_ballot_0 v), PackInt (pr_value_ballot_0 v),
    PackInt (pr_n_aids v), PackBin (value_bytes (pr_value_0 v))] @ pack_u32s as @ map (\<lambda>v. PackBin (value_bytes v)) vs @
    pack_u32s bs @ pack_u32s ws"
  have len: "length ?cs = 7 + ?n + ?n + ?n + ?n" using m by simp
  have cnt: "of_nat (length ?cs) = 7 + pr_n_aids v + pr_n_aids v + pr_n_aids v + pr_n_aids v" unfolding len by simp
  have cp: "acopy (pr_aids v) ?n = Inr as" "acopy (pr_values v) ?n = Inr vs" "acopy (pr_ballots v) ?n = Inr bs"
    "acopy (pr_value_ballots v) ?n = Inr ws" using m by (simp_all add: acopy_all)
  have pack: "msgpack_pack_paxos_message (PAXOS_PROMISE v) = Inr (PackArray (of_nat (length ?cs)) # ?cs)"
    unfolding cnt by (simp add: msgpack_pack_paxos_promise_def cp pack_value_ok(1)[OF small(1)] pack_values_ok[OF small(2)] Let_def)
  let ?h = "[ObjInt 1, ObjInt (ucast (pr_src v)), ObjInt (ucast (pr_iid v)), ObjInt (ucast (pr_ballot_0 v)),
    ObjInt (ucast (pr_value_ballot_0 v)), ObjInt (ucast (pr_n_aids v)), ObjBin (value_bytes (pr_value_0 v))]"
  let ?a = "map obj_of (pack_u32s as)" and ?v = "map (\<lambda>v. ObjBin (value_bytes v)) vs"
    and ?b = "map obj_of (pack_u32s bs)" and ?w = "map obj_of (pack_u32s ws)"
  have objs: "map obj_of ?cs = ?h @ ?a @ ?v @ ?b @ ?w" by (simp add: comp_def)
  let ?o = "ObjArray (?h @ ?a @ ?v @ ?b @ ?w)"
  have r1: "unpack_u32s ?o 7 ?n = Inr (as, 7 + ?n)"
    by (rule unpack_u32s_from[of _ ?h as "?v @ ?b @ ?w"]) (simp_all add: m(5))
  have r2: "unpack_values ?o (7 + ?n) ?n = Inr (map wire_value vs, 7 + ?n + ?n)"
    by (rule unpack_values_from[OF small(2), of _ "?h @ ?a" "?b @ ?w"]) (simp_all add: m(5,6))
  have r3: "unpack_u32s ?o (7 + ?n + ?n) ?n = Inr (bs, 7 + ?n + ?n + ?n)"
    by (rule unpack_u32s_from[of _ "?h @ ?a @ ?v" bs "?w"]) (simp_all add: m(5-7))
  have r4: "unpack_u32s ?o (7 + ?n + ?n + ?n) ?n = Inr (ws, 7 + ?n + ?n + ?n + ?n)"
    by (rule unpack_u32s_from[of _ "?h @ ?a @ ?v @ ?b" ws "[]"]) (simp_all add: m(5-8))
  have v0: "msgpack_unpack_paxos_value_at ?o 6 = Inr (wire_value (pr_value_0 v), 7)"
    using value_at[OF small(1), of 6 "?h @ ?a @ ?v @ ?b @ ?w"] by simp
  have fields: "msgpack_unpack_uint32_at ?o 1 = Inr (pr_src v, 2)" "msgpack_unpack_uint32_at ?o 2 = Inr (pr_iid v, 3)"
    "msgpack_unpack_uint32_at ?o 3 = Inr (pr_ballot_0 v, 4)" "msgpack_unpack_uint32_at ?o 4 = Inr (pr_value_ballot_0 v, 5)"
    "msgpack_unpack_uint32_at ?o 5 = Inr (pr_n_aids v, 6)"
    by (simp_all add: eval_nat_numeral)
  have unpack: "msgpack_unpack_paxos_promise ?o =
      Inr (v\<lparr>pr_value_0 := wire_value (pr_value_0 v), pr_values := Some (map wire_value vs)\<rparr>)"
    unfolding msgpack_unpack_paxos_promise_def
    by (simp only: fields bind_res.simps prod.case v0 r1 r2 r3 r4) (simp add: m(1-4))
  have "\<forall>c \<in> set ?cs. is_scalar c" using small value_scalar by auto
  moreover have "length ?cs < 2 ^ 32" unfolding len using small(3) by simp
  moreover have "msgpack_unpack_paxos_message (ObjArray (map obj_of ?cs)) old = Inr (wire_image old (PAXOS_PROMISE v))" for old
    unfolding objs msgpack_unpack_paxos_message_def using unpack m(2) by simp
  ultimately show ?thesis using pack unfolding travels_def by blast
qed

lemma travels_accepted:
  assumes "wire_ok (PAXOS_ACCEPTED v)"
  shows "\<exists>cs. travels (PAXOS_ACCEPTED v) cs"
proof -
  let ?n = "unat (ac_n_aids v)"
  obtain as bs ws where m: "ac_aids v = Some as" "ac_ballots v = Some bs" "ac_value_ballots v = Some ws"
    "length as = ?n" "length bs = ?n" "length ws = ?n" "0 < ac_n_aids v"
    using assms by (auto simp: accepted_ok_def arr_len_iff)
  define vs where "vs = (case ac_values v of None \<Rightarrow> [] | Some vs \<Rightarrow> vs)"
  define nv where "nv = (if ac_values v = None then 0 else ac_n_aids v)"
  define fl where "fl = (if ac_values v = None then 0 else 1 :: u32)"
  have lv: "length vs = unat nv" using assms by (auto simp: accepted_ok_def vs_def nv_def split: option.splits)
  have small: "\<forall>x \<in> set vs. value_small x" "?n < 2 ^ 29" using assms small_count by (auto simp: vs_def)
  have nv: "unat nv < 2 ^ 29" using small(2) by (simp add: nv_def)
  let ?cs = "[PackInt 3, PackInt 0, PackInt (ac_iid v), PackInt (ac_n_aids v), PackInt 1, PackInt fl] @ pack_u32s as @
    map (\<lambda>v. PackBin (value_bytes v)) vs @ pack_u32s bs @ pack_u32s ws"
  have len: "length ?cs = 6 + ?n * 3 + unat nv" using m lv by simp
  have cnt: "of_nat (length ?cs) = 6 + ac_n_aids v * 3 + nv" unfolding len by simp
  have cp: "acopy (ac_aids v) ?n = Inr as" "acopy_or_zeros (ac_ballots v) ?n = Inr bs" "acopy_or_zeros (ac_value_ballots v) ?n = Inr ws"
    using m by (simp_all add: acopy_all acopy_or_zeros_def)
  have vp: "(if ac_values v \<noteq> None \<and> 0 < ac_n_aids v then bind_res (acopy (ac_values v) ?n) pack_values else Inr []) =
      Inr (map (\<lambda>v. PackBin (value_bytes v)) vs)"
    using m(7) lv pack_values_ok[OF small(1)] by (auto simp: vs_def nv_def acopy_all)
  have pack: "msgpack_pack_paxos_message (PAXOS_ACCEPTED v) = Inr (PackArray (of_nat (length ?cs)) # ?cs)"
    unfolding cnt using vp m(1,7) cp
    by (cases "ac_values v") (simp_all add: msgpack_pack_paxos_accepted_def nv_def fl_def Let_def)
  let ?h = "[ObjInt 3, ObjInt 0, ObjInt (ucast (ac_iid v)), ObjInt (ucast (ac_n_aids v)), ObjInt 1, ObjInt (ucast fl)]"
  let ?a = "map obj_of (pack_u32s as)" and ?v = "map (\<lambda>v. ObjBin (value_bytes v)) vs"
    and ?b = "map obj_of (pack_u32s bs)" and ?w = "map obj_of (pack_u32s ws)"
  have objs: "map obj_of ?cs = ?h @ ?a @ ?v @ ?b @ ?w" by (simp add: comp_def)
  let ?o = "ObjArray (?h @ ?a @ ?v @ ?b @ ?w)"
  have r1: "unpack_u32s ?o 6 ?n = Inr (as, 6 + ?n)"
    by (rule unpack_u32s_from[of _ ?h as "?v @ ?b @ ?w"]) (simp_all add: m(4))
  have r2: "unpack_values ?o (6 + ?n) (unat nv) = Inr (map wire_value vs, 6 + ?n + unat nv)"
    by (rule unpack_values_from[OF small(1), of _ "?h @ ?a" "?b @ ?w"]) (simp_all add: m(4) lv)
  have r3: "unpack_u32s ?o (6 + ?n + unat nv) ?n = Inr (bs, 6 + ?n + unat nv + ?n)"
    by (rule unpack_u32s_from[of _ "?h @ ?a @ ?v" bs "?w"]) (simp_all add: m(4,5) lv)
  have r4: "unpack_u32s ?o (6 + ?n + unat nv + ?n) ?n = Inr (ws, 6 + ?n + unat nv + ?n + ?n)"
    by (rule unpack_u32s_from[of _ "?h @ ?a @ ?v @ ?b" ws "[]"]) (simp_all add: m(4-6) lv)
  have fields: "msgpack_unpack_uint32_at ?o 1 = Inr (0, 2)" "msgpack_unpack_uint32_at ?o 2 = Inr (ac_iid v, 3)"
    "msgpack_unpack_uint32_at ?o 3 = Inr (ac_n_aids v, 4)" "msgpack_unpack_uint32_at ?o 4 = Inr (1, 5)"
    "msgpack_unpack_uint32_at ?o 5 = Inr (fl, 6)"
    by (simp_all add: eval_nat_numeral)
  have vals: "(if fl \<noteq> 0 then bind_res (unpack_values ?o (6 + ?n) ?n) (\<lambda>(xs, i). Inr (Some xs, i)) else Inr (None, 6 + ?n)) =
      Inr (map_option (map wire_value) (ac_values v), 6 + ?n + unat nv)"
    using r2 by (cases "ac_values v") (auto simp: fl_def nv_def vs_def)
  have unpack: "msgpack_unpack_paxos_accepted ?o old =
      Inr (v\<lparr>ac_src := -1, ac_ballot_0 := ac_ballot_0 old, ac_value_ballot_0 := ac_value_ballot_0 old, ac_value_0 := value_zero,
             ac_values := map_option (map wire_value) (ac_values v)\<rparr>)" for old
    unfolding msgpack_unpack_paxos_accepted_def
    by (simp only: fields bind_res.simps prod.case r1 vals r3 r4 one_neq_zero not_False_eq_True if_True) (simp add: m(1-3))
  have "\<forall>c \<in> set ?cs. is_scalar c" using small value_scalar by auto
  moreover have "length ?cs < 2 ^ 32" unfolding len using small(2) nv by simp
  moreover have "msgpack_unpack_paxos_message (ObjArray (map obj_of ?cs)) old = Inr (wire_image old (PAXOS_ACCEPTED v))" for old
    unfolding objs msgpack_unpack_paxos_message_def using unpack by simp
  ultimately show ?thesis using pack unfolding travels_def by blast
qed

lemma travels_ex:
  assumes "wire_ok m"
  shows "\<exists>cs. travels m cs"
proof (cases m)
  case (PAXOS_PROMISE v)
  then show ?thesis using travels_promise assms by simp
next
  case (PAXOS_ACCEPTED v)
  then show ?thesis using travels_accepted assms by simp
next
  case (PAXOS_ACCEPT v)
  then show ?thesis using travels_valued(1)[of v] assms by auto
next
  case (PAXOS_CLIENT_VALUE v)
  then show ?thesis using travels_valued(2)[of v] assms by auto
qed (use travels_plain in blast)+


lemma message_packs: "wire_ok m \<Longrightarrow> \<exists>cs. msgpack_pack_paxos_message m = Inr cs"
  using travels_ex unfolding travels_def by blast

section \<open>A byte stream of messages\<close>

text \<open>
  What the code relies on of the MessagePack library: the decoder takes exactly the bytes the encoder
  wrote for an array of integers and binary strings, whatever follows them, reports success (a positive
  code) and returns the elements.
\<close>

definition msgpack_codec :: "(pack_call list \<Rightarrow> u8 list) \<Rightarrow> unpacker \<Rightarrow> bool" where
  "msgpack_codec enc unpack_next \<longleftrightarrow>
     (\<forall>cs rest. (\<forall>c \<in> set cs. is_scalar c) \<longrightarrow> length cs < 2 ^ 32 \<longrightarrow>
        enc (PackArray (of_nat (length cs)) # cs) \<noteq> [] \<and>
        (\<exists>rc > 0. unpack_next (enc (PackArray (of_nat (length cs)) # cs) @ rest) =
           (rc, ObjArray (map obj_of cs), length (enc (PackArray (of_nat (length cs)) # cs)))))"

lemma send_recv:
  assumes "msgpack_codec enc unpack_next" "wire_ok m"
  shows "\<exists>bs. bs \<noteq> [] \<and> send_paxos_message enc m io = Inr (io\<lparr>io_nmsg := io_nmsg io + 1,
      io_nbytes := io_nbytes io + of_nat (length bs), io_out := io_out io @ bs\<rparr>) \<and>
    (\<forall>rest old. recv_paxos_message unpack_next (bs @ rest) old = Inr (rest, Some (wire_image old m)))"
proof -
  obtain cs where cs: "travels m cs" using travels_ex[OF assms(2)] by blast
  let ?bs = "enc (PackArray (of_nat (length cs)) # cs)"
  have c: "?bs \<noteq> []" "\<exists>rc > 0. unpack_next (?bs @ rest) = (rc, ObjArray (map obj_of cs), length ?bs)" for rest
    using assms(1) cs unfolding msgpack_codec_def travels_def by blast+
  have "recv_paxos_message unpack_next (?bs @ rest) old = Inr (rest, Some (wire_image old m))" for rest old
  proof -
    obtain rc where "0 < rc" "unpack_next (?bs @ rest) = (rc, ObjArray (map obj_of cs), length ?bs)" using c(2) by blast
    then show ?thesis using c(1) cs by (simp add: recv_paxos_message_def travels_def)
  qed
  moreover have "send_paxos_message enc m io = Inr (io\<lparr>io_nmsg := io_nmsg io + 1,
      io_nbytes := io_nbytes io + of_nat (length ?bs), io_out := io_out io @ ?bs\<rparr>)"
    using cs by (simp add: send_paxos_message_def travels_def bufferevent_pack_data_def)
  ultimately show ?thesis using c(1) by blast
qed

text \<open>
  A message sent is the message received. Over a MessagePack library that decodes what it encoded,
  sending a well-formed message counts one message and its bytes and writes a non-empty frame; a
  receiver that finds this frame at the front of its input gets the message back and leaves exactly
  the bytes behind the frame.
\<close>

lemma send_then_receive:
  assumes "msgpack_codec enc unpack_next" "wire_ok m"
  shows "\<exists>io' bs. send_paxos_message enc m io = Inr io' \<and> io_out io' = io_out io @ bs \<and> bs \<noteq> [] \<and>
    getcnt io' = getcnt io + 1 \<and> getcntbytes io' = getcntbytes io + of_nat (length bs) \<and>
    (\<forall>rest old. recv_paxos_message unpack_next (bs @ rest) old = Inr (rest, Some (wire_image old m)))"
  using send_recv[OF assms, of io] by (auto simp: getcnt_def getcntbytes_def)

section \<open>The codec exists\<close>

text \<open>
  MessagePack's fixed-width formats: array 32 (\<open>dd\<close>), uint 32 (\<open>ce\<close>) and bin 32 (\<open>c6\<close>), big-endian. They
  meet the contract above.
\<close>

definition be32 :: "u32 \<Rightarrow> u8 list" where
  "be32 x = [of_nat (unat x div 2 ^ 24), of_nat (unat x div 2 ^ 16), of_nat (unat x div 2 ^ 8), of_nat (unat x)]"

definition un32 :: "u8 \<Rightarrow> u8 \<Rightarrow> u8 \<Rightarrow> u8 \<Rightarrow> u32" where
  "un32 a b c d = of_nat (unat a * 2 ^ 24 + unat b * 2 ^ 16 + unat c * 2 ^ 8 + unat d)"

fun ref_enc1 :: "pack_call \<Rightarrow> u8 list" where
  "ref_enc1 (PackArray n) = 0xdd # be32 n"
| "ref_enc1 (PackInt x) = 0xce # be32 x"
| "ref_enc1 (PackBin bs) = 0xc6 # be32 (of_nat (length bs)) @ bs"

definition ref_enc :: "pack_call list \<Rightarrow> u8 list" where
  "ref_enc cs = concat (map ref_enc1 cs)"

fun ref_item :: "u8 list \<Rightarrow> (msgpack_object \<times> u8 list) option" where
  "ref_item (t # a # b # c # d # bs) =
     (if t = 0xce then Some (ObjInt (ucast (un32 a b c d)), bs)
      else if t = 0xc6 then (let n = unat (un32 a b c d) in
        if n \<le> length bs then Some (ObjBin (take n bs), drop n bs) else None)
      else None)"
| "ref_item _ = None"

fun ref_items :: "nat \<Rightarrow> u8 list \<Rightarrow> (msgpack_object list \<times> u8 list) option" where
  "ref_items 0 bs = Some ([], bs)"
| "ref_items (Suc n) bs = (case ref_item bs of None \<Rightarrow> None
     | Some (x, bs) \<Rightarrow> (case ref_items n bs of None \<Rightarrow> None | Some (xs, bs) \<Rightarrow> Some (x # xs, bs)))"

fun ref_dec :: unpacker where
  "ref_dec (t # a # b # c # d # bs) =
     (if t = 0xdd then (case ref_items (unat (un32 a b c d)) bs of
        None \<Rightarrow> (0, ObjOther, 0) | Some (xs, rest) \<Rightarrow> (2, ObjArray xs, 5 + (length bs - length rest)))
      else (-1, ObjOther, 0))"
| "ref_dec _ = (0, ObjOther, 0)"

lemma word_of_nat_unat_id: "of_nat (unat (x :: u32)) = x"
  by simp

lemma un32_be32: "\<exists>a b c d. be32 x = [a, b, c, d] \<and> un32 a b c d = x"
proof -
  let ?n = "unat x"
  have lt: "?n < 2 ^ 32" using unsigned_less[of x] by simp
  have b: "unat (of_nat k :: u8) = k mod 256" for k by (simp add: unat_of_nat)
  define p q r where d: "p = ?n div 256" "q = p div 256" "r = q div 256"
  have k: "?n div 2 ^ 8 = p" "?n div 2 ^ 16 = q" "?n div 2 ^ 24 = r"
    by (simp_all add: d div_mult2_eq[symmetric])
  have m: "?n = p * 256 + ?n mod 256" "p = q * 256 + p mod 256" "q = r * 256 + q mod 256" by (simp_all add: d)
  have "r < 256" using lt k(3) by (simp add: less_mult_imp_div_less)
  then have "r mod 256 * 2 ^ 24 + q mod 256 * 2 ^ 16 + p mod 256 * 2 ^ 8 + ?n mod 256 = ?n" using m by simp
  then have "(?n div 2 ^ 24) mod 256 * 2 ^ 24 + (?n div 2 ^ 16) mod 256 * 2 ^ 16 + (?n div 2 ^ 8) mod 256 * 2 ^ 8 + ?n mod 256 = ?n"
    unfolding k .
  then have "un32 (of_nat (?n div 2 ^ 24)) (of_nat (?n div 2 ^ 16)) (of_nat (?n div 2 ^ 8)) (of_nat ?n) = x"
    unfolding un32_def b by (simp only: word_of_nat_unat_id)
  then show ?thesis by (simp add: be32_def)
qed

lemma ref_item_enc: "is_scalar c \<Longrightarrow> ref_item (ref_enc1 c @ rest) = Some (obj_of c, rest)"
proof (cases c)
  case (PackBin bs)
  assume "is_scalar c"
  then have "unat (of_nat (length bs) :: u32) = length bs" using PackBin by (simp add: unat_of_nat)
  then show ?thesis using PackBin un32_be32[of "of_nat (length bs)"] by auto
next
  case (PackInt x)
  then show ?thesis using un32_be32[of x] by auto
qed simp

lemma ref_items_enc:
  "\<forall>c \<in> set cs. is_scalar c \<Longrightarrow> ref_items (length cs) (ref_enc cs @ rest) = Some (map obj_of cs, rest)"
  by (induction cs) (simp_all add: ref_enc_def ref_item_enc)

lemma ref_codec: "msgpack_codec ref_enc ref_dec"
  unfolding msgpack_codec_def
proof (intro allI impI)
  fix cs rest assume cs: "\<forall>c \<in> set cs. is_scalar c" "length cs < 2 ^ 32"
  let ?h = "PackArray (of_nat (length cs))"
  have n: "unat (of_nat (length cs) :: u32) = length cs" using cs(2) by (simp add: unat_of_nat)
  obtain a b c d where h: "be32 (of_nat (length cs)) = [a, b, c, d]" "un32 a b c d = of_nat (length cs)"
    using un32_be32 by blast
  have e: "ref_enc (?h # cs) = 0xdd # a # b # c # d # ref_enc cs" using h(1) by (simp add: ref_enc_def)
  have "ref_dec (ref_enc (?h # cs) @ rest) = (2, ObjArray (map obj_of cs), length (ref_enc (?h # cs)))"
    unfolding e using ref_items_enc[OF cs(1), of rest] h(2) n by simp
  then show "ref_enc (?h # cs) \<noteq> [] \<and>
      (\<exists>rc > 0. ref_dec (ref_enc (?h # cs) @ rest) = (rc, ObjArray (map obj_of cs), length (ref_enc (?h # cs))))"
    using e by auto
qed

definition demo_wire_accept :: paxos_message where
  "demo_wire_accept = PAXOS_ACCEPT \<lparr>pa_src = 1, pa_iid = 7, pa_ballot = 1001, pa_value = \<lparr>pv_len = 2, pv_val = Some [5, 6]\<rparr>\<rparr>"

lemma demo_wire_accept_ok: "wire_ok demo_wire_accept"
  by (simp add: demo_wire_accept_def value_small_def value_ok_def)


section \<open>Messages the receiver cannot take\<close>

lemma uint32_past_end [simp]: "length xs \<le> i \<Longrightarrow> msgpack_unpack_uint32_at (ObjArray xs) i = Inl OutOfBounds"
  by (simp add: msgpack_unpack_uint32_at_def MSGPACK_OBJECT_AT_def)

lemma short_prepare:
  assumes "length xs < 3" "\<forall>x \<in> set xs. \<exists>w. x = ObjInt w"
  shows "msgpack_unpack_paxos_prepare (ObjArray (ObjInt 0 # xs)) = Inl OutOfBounds"
proof -
  consider "xs = []" | w where "xs = [ObjInt w]" | w w' where "xs = [ObjInt w, ObjInt w']"
    using assms by (cases xs; cases "tl xs"; cases "tl (tl xs)") auto
  then show ?thesis by cases (simp_all add: msgpack_unpack_paxos_prepare_def)
qed



end
