(* ===== verification/Peers_Props.thy ===== *)
theory Peers_Props
  imports Peers Wire_Roundtrip Config_Props
begin

text \<open>
  Correctness of the connections: what is written to a peer is dispatched, message by message and in
  order, on the other side; clients keep the number of their place whatever the order in which they
  come and go; the acceptors a replica connects to are determined by the groups of the configuration,
  symmetrically.
\<close>

section \<open>Frames\<close>

text \<open>The bytes of a message.\<close>

definition frame :: "(pack_call list \<Rightarrow> u8 list) \<Rightarrow> paxos_message \<Rightarrow> u8 list" where
  "frame enc m = (case msgpack_pack_paxos_message m of Inl _ \<Rightarrow> [] | Inr cs \<Rightarrow> enc cs)"

definition packable :: "paxos_message \<Rightarrow> bool" where
  "packable m \<longleftrightarrow> (\<exists>cs. msgpack_pack_paxos_message m = Inr cs)"

lemma wire_packable [simp]: "wire_ok m \<Longrightarrow> packable m"
  by (simp add: packable_def message_packs)

lemma packable_simps [simp]:
  "packable (PAXOS_PREPARE pp)"
  "value_ok (pa_value acc) \<Longrightarrow> packable (PAXOS_ACCEPT acc)"
  by (auto simp: packable_def msgpack_pack_paxos_prepare_def msgpack_pack_paxos_accept_def msgpack_pack_paxos_value_def
      msgpack_pack_string_def value_ok_cases copy_bytes_def acopy_def nat_le_iff split: option.splits)

lemma send_frame:
  assumes "packable m"
  shows "send_paxos_message enc m io = Inr (io\<lparr>io_nmsg := io_nmsg io + 1,
      io_nbytes := io_nbytes io + of_nat (length (frame enc m)), io_out := io_out io @ frame enc m\<rparr>)"
  using assms
  by (auto simp: packable_def frame_def send_paxos_message_def bufferevent_pack_data_def)

lemma recv_frame:
  assumes "msgpack_codec enc unpack_next" "wire_ok m"
  shows "frame enc m \<noteq> []"
    "recv_paxos_message unpack_next (frame enc m @ rest) old = Inr (rest, Some (wire_image old m))"
proof -
  let ?io = "\<lparr>io_nmsg = 0, io_nbytes = 0, io_out = []\<rparr>"
  obtain bs where "bs \<noteq> []" "send_paxos_message enc m ?io = Inr (?io\<lparr>io_nmsg := io_nmsg ?io + 1,
      io_nbytes := io_nbytes ?io + of_nat (length bs), io_out := io_out ?io @ bs\<rparr>)"
    "\<forall>rest old. recv_paxos_message unpack_next (bs @ rest) old = Inr (rest, Some (wire_image old m))"
    using send_recv[OF assms, of ?io] by blast
  moreover from this(2) have "bs = frame enc m" by (simp add: send_frame[OF wire_packable[OF assms(2)]])
  ultimately show "frame enc m \<noteq> []"
    "recv_paxos_message unpack_next (frame enc m @ rest) old = Inr (rest, Some (wire_image old m))" by auto
qed

text \<open>The peers after \<open>bs\<close> was written to the peer \<open>r\<close> as one message.\<close>

fun sent :: "u8 list \<Rightarrow> peer_ref \<Rightarrow> 'c peers \<Rightarrow> 'c peers" where
  "sent bs (AcceptorPeer i) ps = ps\<lparr>ps_peers := (ps_peers ps)[i := (ps_peers ps ! i)\<lparr>peer_out := peer_out (ps_peers ps ! i) @ bs\<rparr>],
     ps_nmsg := ps_nmsg ps + 1, ps_nbytes := ps_nbytes ps + of_nat (length bs)\<rparr>"
| "sent bs (ClientPeer i) ps = ps\<lparr>ps_clients := (ps_clients ps)[i := (ps_clients ps ! i)\<lparr>peer_out := peer_out (ps_clients ps ! i) @ bs\<rparr>],
     ps_nmsg := ps_nmsg ps + 1, ps_nbytes := ps_nbytes ps + of_nat (length bs)\<rparr>"

fun valid_ref :: "'c peers \<Rightarrow> peer_ref \<Rightarrow> bool" where
  "valid_ref ps (AcceptorPeer i) = (i < length (ps_peers ps))"
| "valid_ref ps (ClientPeer i) = (i < length (ps_clients ps))"

lemma peer_send_ok: "packable m \<Longrightarrow> valid_ref ps r \<Longrightarrow> peer_send enc m r ps = Inr (sent (frame enc m) r ps)"
  by (cases r) (simp_all add: peer_send_def send_frame)

lemma sent_simps [simp]:
  "ps_config (sent bs r ps) = ps_config ps" "ps_ownid (sent bs r ps) = ps_ownid ps"
  "ps_subs (sent bs r ps) = ps_subs ps" "ps_listener (sent bs r ps) = ps_listener ps"
  "length (ps_peers (sent bs r ps)) = length (ps_peers ps)"
  "length (ps_clients (sent bs r ps)) = length (ps_clients ps)"
  "valid_ref (sent bs r ps) r' = valid_ref ps r'"
  by (cases r; cases r'; simp)+

section \<open>Broadcasts\<close>

text \<open>The array of peers after one message was written to each of them.\<close>

definition told :: "u8 list \<Rightarrow> peer list \<Rightarrow> peer list" where
  "told bs xs = map (\<lambda>p. p\<lparr>peer_out := peer_out p @ bs\<rparr>) xs"

lemma foreach_sent:
  assumes "packable m" "\<forall>r \<in> set rs. valid_ref ps r"
  shows "peers_foreach (peer_send enc m) rs ps = Inr (fold (sent (frame enc m)) rs ps)"
  using assms(2) by (induction rs arbitrary: ps) (simp_all add: peer_send_ok[OF assms(1)])

lemma told_step:
  assumes "k < length xs"
  shows "(told bs (take k xs) @ drop k xs)[k := ((told bs (take k xs) @ drop k xs) ! k)
      \<lparr>peer_out := peer_out ((told bs (take k xs) @ drop k xs) ! k) @ bs\<rparr>] = told bs (take (Suc k) xs) @ drop (Suc k) xs"
proof -
  have d: "drop k xs = xs ! k # drop (Suc k) xs" using assms by (simp add: Cons_nth_drop_Suc)
  have l: "length (told bs (take k xs)) = k" using assms by (simp add: told_def)
  have "told bs (take (Suc k) xs) = told bs (take k xs) @ [(xs ! k)\<lparr>peer_out := peer_out (xs ! k) @ bs\<rparr>]"
    using assms by (simp add: told_def take_Suc_conv_app_nth)
  then show ?thesis using l by (simp add: d nth_append list_update_append)
qed

lemma sent_acceptors:
  "k \<le> length (ps_peers ps) \<Longrightarrow> ps_peers (fold (sent bs) (map AcceptorPeer [0..<k]) ps) =
     told bs (take k (ps_peers ps)) @ drop k (ps_peers ps)"
  by (induction k) (simp_all add: told_step, simp add: told_def)

lemma sent_clients:
  "k \<le> length (ps_clients ps) \<Longrightarrow> ps_clients (fold (sent bs) (map ClientPeer [0..<k]) ps) =
     told bs (take k (ps_clients ps)) @ drop k (ps_clients ps)"
  by (induction k) (simp_all add: told_step, simp add: told_def)

lemma sent_fold_simps [simp]:
  "ps_config (fold (sent bs) rs ps) = ps_config ps" "ps_ownid (fold (sent bs) rs ps) = ps_ownid ps"
  "ps_subs (fold (sent bs) rs ps) = ps_subs ps" "ps_listener (fold (sent bs) rs ps) = ps_listener ps"
  "length (ps_peers (fold (sent bs) rs ps)) = length (ps_peers ps)"
  "length (ps_clients (fold (sent bs) rs ps)) = length (ps_clients ps)"
  by (induction rs arbitrary: ps) simp_all

lemma sent_fold_others:
  "ps_clients (fold (sent bs) (map AcceptorPeer is) ps) = ps_clients ps"
  "ps_peers (fold (sent bs) (map ClientPeer is) ps) = ps_peers ps"
  by (induction "is" arbitrary: ps) simp_all

text \<open>A broadcast reaches every peer of one array and no peer of the other.\<close>

lemma tell_acceptors:
  assumes "packable m"
  shows "\<exists>ps'. peers_foreach_acceptor (peer_send enc m) ps = Inr ps' \<and> ps_peers ps' = told (frame enc m) (ps_peers ps) \<and>
    ps_clients ps' = ps_clients ps \<and> ps_config ps' = ps_config ps \<and> ps_ownid ps' = ps_ownid ps \<and> ps_subs ps' = ps_subs ps"
  using foreach_sent[OF assms, of "map AcceptorPeer [0..<length (ps_peers ps)]" ps enc]
    sent_acceptors[of "length (ps_peers ps)" ps "frame enc m"]
  by (simp add: peers_foreach_acceptor_def sent_fold_others)

lemma tell_clients:
  assumes "packable m"
  shows "\<exists>ps'. peers_foreach_client (peer_send enc m) ps = Inr ps' \<and> ps_clients ps' = told (frame enc m) (ps_clients ps) \<and>
    ps_peers ps' = ps_peers ps \<and> ps_config ps' = ps_config ps \<and> ps_ownid ps' = ps_ownid ps \<and> ps_subs ps' = ps_subs ps"
  using foreach_sent[OF assms, of "map ClientPeer [0..<length (ps_clients ps)]" ps enc]
    sent_clients[of "length (ps_clients ps)" ps "frame enc m"]
  by (simp add: peers_foreach_client_def sent_fold_others)

section \<open>Messages arrive in order\<close>

fun peer_send_all :: "(pack_call list \<Rightarrow> u8 list) \<Rightarrow> paxos_message list \<Rightarrow> peer_ref \<Rightarrow> 'c peers \<Rightarrow> 'c peers res" where
  "peer_send_all enc [] r ps = Inr ps"
| "peer_send_all enc (m # ms) r ps = bind_res (peer_send enc m r ps) (peer_send_all enc ms r)"

fun dispatch_all :: "('c, 'x) caller \<Rightarrow> peer_ref \<Rightarrow> paxos_message list \<Rightarrow> 'c peers \<times> 'x \<Rightarrow> ('c peers \<times> 'x) res" where
  "dispatch_all call r [] s = Inr s"
| "dispatch_all call r (m # ms) s = bind_res (dispatch_message call r m s) (dispatch_all call r ms)"

lemma peer_send_all_out:
  assumes "\<forall>m \<in> set ms. wire_ok m" "valid_ref ps r" "peer_at r ps = Inr p"
  shows "\<exists>ps' p'. peer_send_all enc ms r ps = Inr ps' \<and> peer_at r ps' = Inr p' \<and>
    peer_out p' = peer_out p @ concat (map (frame enc) ms) \<and> ps_nmsg ps' = ps_nmsg ps + of_nat (length ms)"
  using assms
proof (induction ms arbitrary: ps p)
  case Nil
  then show ?case by simp
next
  case (Cons m ms)
  let ?ps = "sent (frame enc m) r ps"
  have "peer_at r ?ps = Inr (p\<lparr>peer_out := peer_out p @ frame enc m\<rparr>)"
    using Cons.prems(2,3) by (cases r) auto
  moreover have "ps_nmsg ?ps = ps_nmsg ps + 1" by (cases r) simp_all
  ultimately show ?case
    using Cons.IH[of ?ps] Cons.prems by (simp add: peer_send_ok add.assoc)
qed

lemma destroy_image: "wire_ok m \<Longrightarrow> \<exists>m'. paxos_message_destroy (wire_image old m) = Inr m'"
  by (cases m) (auto simp: paxos_promise_destroy_def paxos_accepted_destroy_def values_destroy_def promise_ok_def
      accepted_ok_def arr_len_iff acopy_def split: option.splits)

text \<open>An input with no complete message at its front.\<close>

definition incomplete :: "unpacker \<Rightarrow> u8 list \<Rightarrow> bool" where
  "incomplete unpack_next rest \<longleftrightarrow> rest = [] \<or> fst (unpack_next rest) = 0"

lemma read_frames:
  assumes "msgpack_codec enc unpack_next" "\<forall>m \<in> set ms. wire_ok m" "incomplete unpack_next rest" "length ms < n"
  shows "read_loop unpack_next call r n (concat (map (frame enc) ms) @ rest) s =
    bind_res (dispatch_all call r (map (wire_image accepted_zero) ms) s) (\<lambda>s. Inr (rest, s))"
  using assms(2,4)
proof (induction ms arbitrary: n s)
  case Nil
  then obtain k where "n = Suc k" by (cases n) auto
  then show ?case
    using assms(3) by (auto simp: recv_paxos_message_def incomplete_def split: prod.splits)
next
  case (Cons m ms)
  then obtain k where n: "n = Suc k" "length ms < k" by (cases n) auto
  obtain m' where "paxos_message_destroy (wire_image accepted_zero m) = Inr m'" using destroy_image Cons.prems by fastforce
  then show ?case
    using Cons.prems Cons.IH[OF _ n(2)] n(1) recv_frame(2)[OF assms(1), of m]
    by (auto simp: bind_res_assoc intro!: arg_cong[where f = "bind_res _"])
qed

lemma frames_length:
  assumes "msgpack_codec enc unpack_next" "\<forall>m \<in> set ms. wire_ok m"
  shows "length ms \<le> length (concat (map (frame enc) ms))"
  using assms(2)
proof (induction ms)
  case (Cons m ms)
  have "frame enc m \<noteq> []" using recv_frame(1)[OF assms(1)] Cons.prems by simp
  then have "1 \<le> length (frame enc m)" by (cases "frame enc m") auto
  then show ?case using Cons by simp
qed simp

text \<open>
  C22: messages arrive complete and in order. Over a MessagePack library that decodes what it encoded,
  writing any list of well-formed messages to a peer succeeds and counts them; and when the other side
  reads the bytes written, followed by any incomplete rest, its read callback returns (the loop ends)
  after dispatching exactly these messages, each once and in the order of sending, and keeps exactly
  the incomplete rest for the next read.
\<close>

theorem stream_in_order:
  assumes "msgpack_codec enc unpack_next" "\<forall>m \<in> set ms. wire_ok m" "peer_at r ps = Inr p"
  shows "\<exists>ps' p' bs. peer_send_all enc ms r ps = Inr ps' \<and> peer_at r ps' = Inr p' \<and>
    peer_out p' = peer_out p @ bs \<and> ps_nmsg ps' = ps_nmsg ps + of_nat (length ms) \<and>
    (\<forall>call r' s rest. ps_config (fst s) \<noteq> None \<longrightarrow> incomplete unpack_next rest \<longrightarrow>
       on_read unpack_next call r' (bs @ rest) s =
         bind_res (dispatch_all call r' (map (wire_image accepted_zero) ms) s) (\<lambda>s'. Inr (rest, s')))"
proof -
  have "valid_ref ps r" using assms(3) by (cases r) (auto split: if_splits)
  then obtain ps' p' where p: "peer_send_all enc ms r ps = Inr ps'" "peer_at r ps' = Inr p'"
    "peer_out p' = peer_out p @ concat (map (frame enc) ms)" "ps_nmsg ps' = ps_nmsg ps + of_nat (length ms)"
    using peer_send_all_out assms(2,3) by blast
  have "on_read unpack_next call r' (concat (map (frame enc) ms) @ rest) s =
      bind_res (dispatch_all call r' (map (wire_image accepted_zero) ms) s) (\<lambda>s'. Inr (rest, s'))"
    if "ps_config (fst s) \<noteq> None" "incomplete unpack_next rest" for call :: "('d, 'e) caller" and r' s rest
    using that read_frames[OF assms(1,2) that(2), of "length (concat (map (frame enc) ms) @ rest) + 1" call r' s]
      frames_length[OF assms(1,2)]
    by (auto simp: on_read_def getconfigfrompeers_def simp del: read_loop.simps)
  then show ?thesis using p by blast
qed

text \<open>A sender with one client, a receiver that logs what is dispatched to it.\<close>

definition demo_addr :: sockaddr_in where
  "demo_addr = \<lparr>sin_port = 80, sin_addr = 0\<rparr>"

definition demo_net :: "unit peers" where
  "demo_net = (peers_new 0 0 config_empty)\<lparr>ps_clients := [make_peer 0 demo_addr],
     ps_subs := [\<lparr>sub_type = TypeTrim, sub_callback = ()\<rparr>]\<rparr>"

fun demo_log :: "(unit, paxos_message list) caller" where
  "demo_log () r m (ps, ms) = Inr (ps, ms @ [m])"

theorem stream_in_order_witness:
  "\<exists>ps' p'. peer_send_all ref_enc [PAXOS_TRIM \<lparr>tr_iid = 1\<rparr>, PAXOS_TRIM \<lparr>tr_iid = 2\<rparr>] (ClientPeer 0) demo_net = Inr ps' \<and>
     peer_at (ClientPeer 0) ps' = Inr p' \<and>
     on_read ref_dec demo_log (ClientPeer 0) (peer_out p') (demo_net, []) =
       Inr ([], demo_net, [PAXOS_TRIM \<lparr>tr_iid = 1\<rparr>, PAXOS_TRIM \<lparr>tr_iid = 2\<rparr>])"
proof -
  let ?ms = "[PAXOS_TRIM \<lparr>tr_iid = 1\<rparr>, PAXOS_TRIM \<lparr>tr_iid = 2\<rparr>]"
  have p: "\<forall>m \<in> set ?ms. wire_ok m" "peer_at (ClientPeer 0) demo_net = Inr (make_peer 0 demo_addr)"
    by (simp_all add: demo_net_def)
  have d: "dispatch_all demo_log (ClientPeer 0) ?ms (demo_net, []) = Inr (demo_net, ?ms)"
    by (simp add: dispatch_message_def MAX_SUBS_def upt_rec demo_net_def)
  obtain ps' p' bs where q: "peer_send_all ref_enc ?ms (ClientPeer 0) demo_net = Inr ps'" "peer_at (ClientPeer 0) ps' = Inr p'"
    "peer_out p' = peer_out (make_peer 0 demo_addr) @ bs"
    "\<forall>call r' s rest. ps_config (fst s) \<noteq> None \<longrightarrow> incomplete ref_dec rest \<longrightarrow>
       on_read ref_dec call r' (bs @ rest) s =
         bind_res (dispatch_all (call :: (unit, paxos_message list) caller) r' (map (wire_image accepted_zero) ?ms) s) (\<lambda>s'. Inr (rest, s'))"
    using stream_in_order[OF ref_codec p] by blast
  have c: "ps_config (fst (demo_net, [] :: paxos_message list)) \<noteq> None" by (simp add: demo_net_def peers_new_def)
  have m: "map (wire_image accepted_zero) ?ms = ?ms" by simp
  have "on_read ref_dec demo_log (ClientPeer 0) (bs @ []) (demo_net, []) = Inr ([], demo_net, ?ms)"
    using q(4)[rule_format, OF c, of "[]" demo_log "ClientPeer 0"] unfolding m d by (simp add: incomplete_def)
  then show ?thesis using q(1-3) by (simp add: make_peer_def)
qed

section \<open>Clients keep the number of their place\<close>

lemma length_shift [simp]: "length (shift_clients cs is) = length cs"
  by (induction cs "is" rule: shift_clients.induct) auto

lemma shift_clients_nth:
  assumes "b < length cs" "j < length cs"
  shows "shift_clients cs [a..<b] ! j = (if a \<le> j \<and> j < b then (cs ! Suc j)\<lparr>peer_id := int j\<rparr> else cs ! j)"
  using assms
proof (induction "b - a" arbitrary: a cs)
  case 0
  then show ?case by auto
next
  case (Suc d)
  have u: "[a..<b] = a # [Suc a..<b]" using Suc.hyps(2) by (simp add: upt_rec)
  have "shift_clients cs [a..<b] ! j =
      shift_clients (cs[a := (cs ! Suc a)\<lparr>peer_id := int a\<rparr>]) [Suc a..<b] ! j" by (simp add: u)
  also have "\<dots> = (if Suc a \<le> j \<and> j < b then (cs ! Suc j)\<lparr>peer_id := int j\<rparr>
      else cs[a := (cs ! Suc a)\<lparr>peer_id := int a\<rparr>] ! j)"
    using Suc.hyps(1)[of "Suc a" "cs[a := (cs ! Suc a)\<lparr>peer_id := int a\<rparr>]"] Suc.hyps(2) Suc.prems by simp
  finally show ?case using Suc.hyps(2) Suc.prems by (auto simp: nth_list_update le_Suc_eq)
qed

text \<open>The events of the array of clients, and what they do to the list of the clients' connections.\<close>

datatype client_event = ClientJoins sockaddr_in | ClientSends paxos_message nat | ClientLeaves nat

fun client_step :: "(pack_call list \<Rightarrow> u8 list) \<Rightarrow> client_event \<Rightarrow> 'c peers \<Rightarrow> 'c peers res" where
  "client_step enc (ClientJoins addr) ps = on_accept addr ps"
| "client_step enc (ClientSends m i) ps = peer_send enc m (ClientPeer i) ps"
| "client_step enc (ClientLeaves i) ps = on_client_event {BEV_EVENT_EOF} i ps"

fun client_run :: "(pack_call list \<Rightarrow> u8 list) \<Rightarrow> client_event list \<Rightarrow> 'c peers \<Rightarrow> 'c peers res" where
  "client_run enc [] ps = Inr ps"
| "client_run enc (e # es) ps = bind_res (client_step enc e ps) (client_run enc es)"

text \<open>A client is its address and the bytes sent to it.\<close>

fun conn_step :: "(pack_call list \<Rightarrow> u8 list) \<Rightarrow> client_event \<Rightarrow> (sockaddr_in \<times> u8 list) list \<Rightarrow> (sockaddr_in \<times> u8 list) list" where
  "conn_step enc (ClientJoins addr) cs = cs @ [(addr, [])]"
| "conn_step enc (ClientSends m i) cs = cs[i := (fst (cs ! i), snd (cs ! i) @ frame enc m)]"
| "conn_step enc (ClientLeaves i) cs = take i cs @ drop (Suc i) cs"

text \<open>Events that name a client that is there.\<close>

fun event_fits :: "client_event \<Rightarrow> (sockaddr_in \<times> u8 list) list \<Rightarrow> bool" where
  "event_fits (ClientJoins addr) cs = True"
| "event_fits (ClientSends m i) cs = (wire_ok m \<and> i < length cs)"
| "event_fits (ClientLeaves i) cs = (i < length cs)"

fun events_fit :: "(pack_call list \<Rightarrow> u8 list) \<Rightarrow> client_event list \<Rightarrow> (sockaddr_in \<times> u8 list) list \<Rightarrow> bool" where
  "events_fit enc [] cs = True"
| "events_fit enc (e # es) cs = (event_fits e cs \<and> events_fit enc es (conn_step enc e cs))"

definition conns :: "'c peers \<Rightarrow> (sockaddr_in \<times> u8 list) list" where
  "conns ps = map (\<lambda>p. (peer_addr p, peer_out p)) (ps_clients ps)"

definition numbered :: "'c peers \<Rightarrow> bool" where
  "numbered ps \<longleftrightarrow> map peer_id (ps_clients ps) = map int [0..<length (ps_clients ps)]"

lemma numbered_nth: "numbered ps \<longleftrightarrow> (\<forall>i < length (ps_clients ps). peer_id (ps_clients ps ! i) = int i)"
  unfolding numbered_def list_eq_iff_nth_eq by simp

lemma leave_ok:
  assumes "numbered ps" "ps_config ps \<noteq> None" "i < length (ps_clients ps)"
  shows "\<exists>ps'. on_client_event {BEV_EVENT_EOF} i ps = Inr ps' \<and> numbered ps' \<and> ps_config ps' = ps_config ps \<and>
    conns ps' = take i (conns ps) @ drop (Suc i) (conns ps)"
proof -
  obtain n where n: "length (ps_clients ps) = Suc n" using assms(3) by (cases "ps_clients ps") auto
  let ?cs = "ps_clients ps"
  let ?ds = "take n (shift_clients ?cs [i..<n])"
  have d: "shift_clients ?cs [i..<n] ! j = (if i \<le> j then (?cs ! Suc j)\<lparr>peer_id := int j\<rparr> else ?cs ! j)" if "j < n" for j
    using that shift_clients_nth[of n ?cs j i] n by auto
  have "map (\<lambda>p. (peer_addr p, peer_out p)) ?ds = take i (conns ps) @ drop (Suc i) (conns ps)"
    using assms(3) n by (intro nth_equalityI) (auto simp: conns_def d nth_append)
  moreover have "\<forall>j < n. peer_id (?ds ! j) = int j"
    using assms(1) n by (auto simp: d numbered_nth)
  moreover have "peer_id (?cs ! i) = int i" using assms(1,3) by (simp add: numbered_nth)
  then have "on_client_event {BEV_EVENT_EOF} i ps = Inr (ps\<lparr>ps_clients := ?ds\<rparr>)"
    using assms(2,3) n by (auto simp: on_client_event_def getconfigfrompeers_def)
  ultimately show ?thesis
    using n by (auto simp: numbered_nth conns_def)
qed

lemma client_step_ok:
  assumes "numbered ps" "ps_config ps \<noteq> None" "event_fits e (conns ps)"
  shows "\<exists>ps'. client_step enc e ps = Inr ps' \<and> numbered ps' \<and> ps_config ps' = ps_config ps \<and>
    conns ps' = conn_step enc e (conns ps)"
proof (cases e)
  case (ClientJoins addr)
  then show ?thesis
    using assms by (auto simp: on_accept_def getconfigfrompeers_def numbered_nth conns_def make_peer_def nth_append less_Suc_eq)
next
  case (ClientSends m i)
  then have i: "i < length (ps_clients ps)" "wire_ok m" using assms(3) by (auto simp: conns_def)
  then have "client_step enc e ps = Inr (sent (frame enc m) (ClientPeer i) ps)"
    using ClientSends by (simp add: peer_send_ok)
  moreover have "numbered (sent (frame enc m) (ClientPeer i) ps)"
    using assms(1) i by (auto simp: numbered_nth nth_list_update)
  moreover have "conns (sent (frame enc m) (ClientPeer i) ps) = conn_step enc e (conns ps)"
    using i ClientSends by (simp add: conns_def map_update)
  ultimately show ?thesis by auto
next
  case (ClientLeaves i)
  then show ?thesis using leave_ok[OF assms(1,2), of i] assms(3) by (auto simp: conns_def)
qed

lemma client_run_ok:
  assumes "numbered ps" "ps_config ps \<noteq> None" "events_fit enc es (conns ps)"
  shows "\<exists>ps'. client_run enc es ps = Inr ps' \<and> numbered ps' \<and> conns ps' = fold (conn_step enc) es (conns ps)"
  using assms
proof (induction es arbitrary: ps)
  case Nil
  then show ?case by simp
next
  case (Cons e es)
  then obtain ps1 where "client_step enc e ps = Inr ps1" "numbered ps1" "ps_config ps1 = ps_config ps"
    "conns ps1 = conn_step enc e (conns ps)" using client_step_ok[of ps e enc] by auto
  then show ?case using Cons.IH[of ps1] Cons.prems by auto
qed

text \<open>
  Clients keep the number of their place. Start with no client and let clients connect, be sent
  well-formed messages and leave in any order. Nothing faults (no freed client stays in the array), the
  clients are exactly the ones that did not leave, in the order in which they came, each with exactly
  the bytes sent to it, and the id of each is its index.
\<close>

lemma clients_numbered:
  assumes "events_fit enc es []"
  shows "\<exists>ps. client_run enc es (peers_new nmsg nbytes c) = Inr ps \<and>
    map peer_id (ps_clients ps) = map int [0..<length (ps_clients ps)] \<and>
    map (\<lambda>p. (peer_addr p, peer_out p)) (ps_clients ps) = fold (conn_step enc) es []"
  using client_run_ok[of "peers_new nmsg nbytes c" enc es] assms
  by (auto simp: peers_new_def conns_def numbered_def)

section \<open>Connections follow the groups\<close>

lemma connects_to_sym: "connects_to a b \<longleftrightarrow> connects_to b a"
  unfolding connects_to_def by metis

lemma connect_loop_ok:
  assumes "used_ok (ec_acceptors c)" "0 \<le> own" "own < int (length (ec_acceptors c))" "\<forall>i \<in> set is. i < length (ec_acceptors c)"
  shows "\<exists>ps'. connect_loop inet_addr c own is ps = Inr ps' \<and>
    map peer_id (ps_peers ps') = map peer_id (ps_peers ps) @
      map int (filter (\<lambda>i. connects_to (ec_acceptors c ! nat own) (ec_acceptors c ! i)) is) \<and>
    ps_config ps' = ps_config ps \<and> ps_ownid ps' = ps_ownid ps \<and> ps_clients ps' = ps_clients ps \<and> ps_subs ps' = ps_subs ps"
  using assms(4)
proof (induction "is" arbitrary: ps)
  case Nil
  then show ?case by simp
next
  case (Cons i "is")
  have i: "slot (ec_acceptors c) (int i) = Inr (ec_acceptors c ! i)"
    "slot (ec_acceptors c) own = Inr (ec_acceptors c ! nat own)"
    using slot_used(1)[OF assms(1)] assms(2,3) Cons.prems by auto
  obtain addr where "evpaxos_acceptor_address inet_addr c (int i) = Inr addr"
    using slot_used(2)[OF assms(1), of "int i" inet_addr] Cons.prems i by (auto simp: evpaxos_acceptor_address_def)
  then show ?case
    using Cons.IH[of "if connects_to (ec_acceptors c ! nat own) (ec_acceptors c ! i) then peers_connect ps (int i) addr else ps"]
      Cons.prems i by (auto simp: peers_connect_def make_peer_def connect_peer_def)
qed

lemma find_peer_iff: "(\<exists>k. find_peer ps n i = Some k) \<longleftrightarrow> i \<in> peer_id ` set ps"
  by (induction ps n i rule: find_peer.induct) auto

lemma get_acceptor_iff: "peers_get_acceptor ps i \<noteq> None \<longleftrightarrow> i \<in> set (map peer_id (ps_peers ps))"
  using find_peer_iff[of "ps_peers ps" 0 i] by (auto simp: peers_get_acceptor_def)

lemma connect_ok:
  assumes "config_ok c" "0 \<le> own" "own < evpaxos_acceptor_count c" "ps_config ps = Some c" "ps_peers ps = []"
  shows "\<exists>ps'. peers_connect_to_acceptors inet_addr ps own = Inr ps' \<and> ps_ownid ps' = own \<and> ps_config ps' = Some c \<and>
    ps_clients ps' = ps_clients ps \<and> ps_subs ps' = ps_subs ps \<and>
    map peer_id (ps_peers ps') =
      map int (filter (\<lambda>i. connects_to (ec_acceptors c ! nat own) (ec_acceptors c ! i)) [0..<length (ec_acceptors c)])"
  using assms connect_loop_ok[of c own "[0..<length (ec_acceptors c)]" inet_addr "ps\<lparr>ps_ownid := own\<rparr>"]
  by (auto simp: config_ok_def peers_connect_to_acceptors_def getconfigfrompeers_def evpaxos_acceptor_count_def)



end
