(* ===== verification/Evproposer_Props.thy ===== *)
theory Evproposer_Props
  imports Evproposer Proposer_Safety Peers_Props
begin

text \<open>
  Progress of the proposer process: the loop over \<open>proposer_accept\<close> ends, every message goes to every
  acceptor, and afterwards either no client value waits or the window of instances in phase 1 is full.
\<close>

lemma told_told: "told bs' (told bs xs) = told (bs @ bs') xs"
  by (simp add: told_def)

lemma told_nil: "told [] xs = xs"
  by (simp add: told_def map_idI)

lemma reachable_by:
  "proposer_reachable pid n p \<Longrightarrow> proposer_step e p = Inr (p', m) \<Longrightarrow> pevent_ok e p \<Longrightarrow> proposer_reachable pid n p'"
  by (rule reach_step)

lemma prepared_count_card: "proposer_ok p \<Longrightarrow> proposer_prepared_count p = card (dom (kh_lookup (po_prepare_instances p)))"
  by (simp add: proposer_prepared_count_def kh.count_card table_okD(1)[OF proposer_okD(4)])

lemma accept_value_ok:
  assumes "proposer_ok p" "kh_lookup (po_accept_instances p) i = Some (cleared inst)" "accept_value inst = Some v"
  shows "value_ok v"
proof -
  have "inst_ok (po_acceptors p) (po_id p) i (cleared inst)" by (rule table_okD(2)[OF proposer_okD(5)[OF assms(1)] assms(2)])
  then show ?thesis using assms(3) by (auto simp: inst_ok_def accept_value_def cleared_def split: if_splits)
qed

lemma prepare_values: "proposer_prepare now p = Inr (p', m) \<Longrightarrow> po_values p' = po_values p"
  by (auto simp: proposer_prepare_def Let_def res_iffs)

text \<open>The state after a number of messages was broadcast.\<close>

definition broadcast :: "(pack_call list \<Rightarrow> u8 list) \<Rightarrow> paxos_message list \<Rightarrow> 'c peers \<Rightarrow> 'c peers \<Rightarrow> bool" where
  "broadcast enc ms ps ps' \<longleftrightarrow> ps_peers ps' = told (concat (map (frame enc) ms)) (ps_peers ps) \<and> ps_clients ps' = ps_clients ps \<and>
     ps_config ps' = ps_config ps \<and> ps_ownid ps' = ps_ownid ps \<and> ps_subs ps' = ps_subs ps"

lemma broadcast_none [simp]: "broadcast enc [] ps ps"
  by (simp add: broadcast_def told_nil)

lemma broadcast_more: "broadcast enc ms ps ps' \<Longrightarrow> broadcast enc ms' ps' ps'' \<Longrightarrow> broadcast enc (ms @ ms') ps ps''"
  by (auto simp: broadcast_def told_told)

lemma broadcast_one: "packable m \<Longrightarrow> \<exists>ps'. peers_foreach_acceptor (peer_send enc m) ps = Inr ps' \<and> broadcast enc [m] ps ps'"
  using tell_acceptors[of m enc ps] by (auto simp: broadcast_def)

text \<open>An accept request for an instance that now waits in phase 2 with the request's ballot and value.\<close>

definition in_phase2 :: "proposer \<Rightarrow> paxos_message \<Rightarrow> bool" where
  "in_phase2 p m \<longleftrightarrow> (\<exists>a inst. m = PAXOS_ACCEPT a \<and> kh_lookup (po_accept_instances p) (pa_iid a) = Some inst \<and>
     pi_ballot inst = pa_ballot a \<and> accept_value inst = Some (pa_value a))"

text \<open>A prepare request for an instance that now waits in phase 1 with the request's ballot.\<close>

definition in_phase1 :: "proposer \<Rightarrow> paxos_message \<Rightarrow> bool" where
  "in_phase1 p m \<longleftrightarrow> (\<exists>q inst. m = PAXOS_PREPARE q \<and> kh_lookup (po_prepare_instances p) (pp_iid q) = Some inst \<and>
     pi_ballot inst = pp_ballot q)"

lemma accept_loop_ok:
  assumes "proposer_reachable pid n (ep_state p)" "proposer_prepared_count (ep_state p) < k"
  shows "\<exists>ps' st ms. accept_loop enc k (ps, p) = Inr (ps', p\<lparr>ep_state := st\<rparr>) \<and> proposer_reachable pid n st \<and>
    pending st = pending (ep_state p) \<and> po_next_prepare_iid st = po_next_prepare_iid (ep_state p) \<and>
    broadcast enc ms ps ps' \<and> (\<forall>m \<in> set ms. in_phase2 st m) \<and>
    map_le (kh_lookup (po_accept_instances (ep_state p))) (kh_lookup (po_accept_instances st))"
  using assms
proof (induction k arbitrary: ps p)
  case 0
  then show ?case by simp
next
  case (Suc k)
  note ok = proposer_reachable_ok[OF Suc.prems(1)]
  obtain st out where st: "proposer_accept (ep_state p) = Inr (st, out)" "keeps (ep_state p) st" "pending st = pending (ep_state p)"
    "po_next_prepare_iid st = po_next_prepare_iid (ep_state p)"
    and out: "\<forall>a. out = Some a \<longrightarrow> (\<exists>inst. kh_lookup (po_prepare_instances (ep_state p)) (pa_iid a) = Some inst \<and>
       pa_ballot a = pi_ballot inst \<and> accept_value (taken (ep_state p) inst) = Some (pa_value a) \<and>
       kh_lookup (po_prepare_instances st) = (kh_lookup (po_prepare_instances (ep_state p)))(pa_iid a := None) \<and>
       kh_lookup (po_accept_instances st) = (kh_lookup (po_accept_instances (ep_state p)))(pa_iid a \<mapsto> cleared (taken (ep_state p) inst)))"
    using proposer_accept_ok[of "ep_state p"] ok by blast
  have reach: "proposer_reachable pid n st"
    by (rule reachable_by[OF Suc.prems(1), of PeAccept]) (simp_all add: st(1))
  show ?case
  proof (cases out)
    case None
    have "po_accept_instances st = po_accept_instances (ep_state p)"
      using st(1) None by (auto simp: proposer_accept_def res_iffs Let_def split: option.split_asm if_split_asm)
    then show ?thesis using st reach None by (intro exI[of _ ps] exI[of _ st] exI[of _ "[]"]) simp
  next
    case (Some a)
    then obtain inst where i: "kh_lookup (po_prepare_instances (ep_state p)) (pa_iid a) = Some inst"
       "pa_ballot a = pi_ballot inst" "accept_value (taken (ep_state p) inst) = Some (pa_value a)"
       "kh_lookup (po_prepare_instances st) = (kh_lookup (po_prepare_instances (ep_state p)))(pa_iid a := None)"
       "kh_lookup (po_accept_instances st) = (kh_lookup (po_accept_instances (ep_state p)))(pa_iid a \<mapsto> cleared (taken (ep_state p) inst))"
      using out by blast
    have stok: "proposer_ok st" using st(2) by (simp add: keeps_def)
    have v: "value_ok (pa_value a)" by (rule accept_value_ok[OF stok _ i(3), of "pa_iid a"]) (simp add: i(5))
    obtain ps1 where b: "peers_foreach_acceptor (peer_send enc (PAXOS_ACCEPT a)) ps = Inr ps1" "broadcast enc [PAXOS_ACCEPT a] ps ps1"
      using broadcast_one[of "PAXOS_ACCEPT a" enc ps] v by auto
    have "card (dom (kh_lookup (po_prepare_instances (ep_state p))) - {pa_iid a}) < card (dom (kh_lookup (po_prepare_instances (ep_state p))))"
      using proposer_okD(9)[of "ep_state p"] ok i(1) by (intro card_Diff1_less) auto
    then have "proposer_prepared_count st < proposer_prepared_count (ep_state p)"
      using ok stok by (simp add: prepared_count_card i(4) del: card_Diff_insert card_Diff_singleton_if)
    then have "proposer_prepared_count (ep_state (p\<lparr>ep_state := st\<rparr>)) < k" using Suc.prems(2) by simp
    from Suc.IH[OF _ this, of ps1] reach obtain ps' st' ms where r: "accept_loop enc k (ps1, p\<lparr>ep_state := st\<rparr>) = Inr (ps', p\<lparr>ep_state := st'\<rparr>)"
      "proposer_reachable pid n st'" "pending st' = pending st" "po_next_prepare_iid st' = po_next_prepare_iid st"
      "broadcast enc ms ps1 ps'" "\<forall>m \<in> set ms. in_phase2 st' m"
      "map_le (kh_lookup (po_accept_instances st)) (kh_lookup (po_accept_instances st'))" by auto
    have "kh_lookup (po_accept_instances st') (pa_iid a) = Some (cleared (taken (ep_state p) inst))"
      using r(7) i(5) by (auto simp: map_le_def dom_def)
    then have "in_phase2 st' (PAXOS_ACCEPT a)"
      using i(2,3) by (auto simp: in_phase2_def accept_value_cleared cleared_props taken_def)
    moreover have "kh_lookup (po_accept_instances (ep_state p)) (pa_iid a) = None"
      using proposer_okD(7)[of "ep_state p"] ok i(1) by blast
    then have "map_le (kh_lookup (po_accept_instances (ep_state p))) (kh_lookup (po_accept_instances st))"
      by (auto simp: i(5) map_le_def)
    then have "map_le (kh_lookup (po_accept_instances (ep_state p))) (kh_lookup (po_accept_instances st'))"
      using r(7) map_le_trans by blast
    ultimately show ?thesis
      using st Some b r(1-6) broadcast_more[OF b(2) r(5)] by (intro exI[of _ ps'] exI[of _ st'] exI[of _ "PAXOS_ACCEPT a # ms"]) simp
  qed
qed

lemma preexec_loop_ok:
  assumes "proposer_reachable pid n (ep_state p)" "unat (po_next_prepare_iid (ep_state p)) + k < 2 ^ 32"
  shows "\<exists>ps' st ms. preexec_loop enc now k (ps, p) = Inr (ps', p\<lparr>ep_state := st\<rparr>) \<and> proposer_reachable pid n st \<and>
    pending st = pending (ep_state p) \<and> po_values st = po_values (ep_state p) \<and>
    po_accept_instances st = po_accept_instances (ep_state p) \<and>
    proposer_prepared_count st = proposer_prepared_count (ep_state p) + k \<and>
    broadcast enc ms ps ps' \<and> length ms = k \<and> (\<forall>m \<in> set ms. in_phase1 st m) \<and>
    map_le (kh_lookup (po_prepare_instances (ep_state p))) (kh_lookup (po_prepare_instances st))"
  using assms
proof (induction k arbitrary: ps p)
  case 0
  then show ?case by (intro exI[of _ ps] exI[of _ "ep_state p"] exI[of _ "[]"]) simp
next
  case (Suc k)
  note ok = proposer_reachable_ok[OF Suc.prems(1)]
  let ?i = "po_next_prepare_iid (ep_state p) + 1"
  have u: "unat ?i = unat (po_next_prepare_iid (ep_state p)) + 1" using Suc.prems(2) by (intro u32_Suc) simp
  then have room: "?i \<noteq> 0" by (metis Suc_eq_plus1 nat.distinct(1) unat_eq_zero)
  obtain st inst where st: "proposer_prepare now (ep_state p) = Inr (st, prepare_message (po_id (ep_state p)) inst)"
    "keeps (ep_state p) st" "pending st = pending (ep_state p)" "po_next_prepare_iid st = ?i" "pi_iid inst = ?i"
    "kh_lookup (po_prepare_instances st) = (kh_lookup (po_prepare_instances (ep_state p)))(?i \<mapsto> inst)"
    "po_accept_instances st = po_accept_instances (ep_state p)" "po_next_prepare_iid (ep_state p) < ?i"
    using prepare_ok[of "ep_state p" now] ok room by blast
  let ?m = "PAXOS_PREPARE (prepare_message (po_id (ep_state p)) inst)"
  have reach: "proposer_reachable pid n st"
    by (rule reachable_by[OF Suc.prems(1), of "PePrepare now"]) (simp_all add: st(1) room)
  have fresh: "kh_lookup (po_prepare_instances (ep_state p)) ?i = None"
    using table_okD(3)[OF proposer_okD(4)[of "ep_state p"], of ?i] ok st(8) by (cases "kh_lookup (po_prepare_instances (ep_state p)) ?i") force+
  have cnt: "proposer_prepared_count st = proposer_prepared_count (ep_state p) + 1"
    using ok st(2) fresh proposer_okD(9)[of "ep_state p"] by (simp add: prepared_count_card keeps_def st(6) domIff)
  obtain ps1 where b: "peers_foreach_acceptor (peer_send enc ?m) ps = Inr ps1" "broadcast enc [?m] ps ps1"
    using broadcast_one[of ?m enc ps] by auto
  have "unat (po_next_prepare_iid (ep_state (p\<lparr>ep_state := st\<rparr>))) + k < 2 ^ 32" using Suc.prems(2) u st(4) by simp
  from Suc.IH[OF _ this, of ps1] reach obtain ps' st' ms where r: "preexec_loop enc now k (ps1, p\<lparr>ep_state := st\<rparr>) = Inr (ps', p\<lparr>ep_state := st'\<rparr>)"
    "proposer_reachable pid n st'" "pending st' = pending st" "po_values st' = po_values st"
    "po_accept_instances st' = po_accept_instances st" "proposer_prepared_count st' = proposer_prepared_count st + k"
    "broadcast enc ms ps1 ps'" "length ms = k" "\<forall>m \<in> set ms. in_phase1 st' m"
    "map_le (kh_lookup (po_prepare_instances st)) (kh_lookup (po_prepare_instances st'))" by auto
  have "kh_lookup (po_prepare_instances st') ?i = Some inst" using r(10) st(6) by (auto simp: map_le_def dom_def)
  then have "in_phase1 st' ?m" using st(5) by (auto simp: in_phase1_def prepare_message_def)
  moreover have "map_le (kh_lookup (po_prepare_instances (ep_state p))) (kh_lookup (po_prepare_instances st))"
    using fresh by (auto simp: st(6) map_le_def)
  then have "map_le (kh_lookup (po_prepare_instances (ep_state p))) (kh_lookup (po_prepare_instances st'))"
    using r(10) map_le_trans by blast
  ultimately show ?case
    using st b(1) r cnt prepare_values[OF st(1)] broadcast_more[OF b(2) r(7)]
    by (intro exI[of _ ps'] exI[of _ st'] exI[of _ "?m # ms"]) simp
qed


definition demo_ep :: evproposer where
  "demo_ep = \<lparr>ep_id = 0, ep_preexec_window = 2, ep_state = proposer_new 0 3, ep_tv = \<lparr>tv_sec = 1, tv_usec = 0\<rparr>, ep_timeout_armed = True\<rparr>"


end
