(* ===== verification/Acceptor_Routing.thy ===== *)
theory Acceptor_Routing
  imports Acceptor_Safety
begin

text \<open>
  The answers of an acceptor to a prepare, branch by branch, and the routing of the answers of
  subordinate acceptors back to the proposer that asked.
\<close>

section \<open>Prepare requests\<close>



section \<open>Answers of subordinates\<close>

lemma fold_merge_aids:
  "set (the (ac_aids (fold merge_entry es r))) = fst ` set es \<union> set (the (ac_aids r))"
proof (induction es arbitrary: r)
  case Nil
  then show ?case by simp
next
  case (Cons e es)
  then show ?case using merge_entry_aids by (cases e) auto
qed

lemma fold_merge_heads:
  assumes "accepted_ok r" "ac_values r = None" "unat (ac_n_aids r) + length es < 2 ^ 32"
  shows "accepted_ok (fold merge_entry es r) \<and> promised (fold merge_entry es r) = promised r"
  using assms
proof (induction es arbitrary: r)
  case Nil
  then show ?case by simp
next
  case (Cons e es)
  obtain x b vb where e: "e = (x, b, vb)" by (cases e)
  have "unat (ac_n_aids (merge_entry e r)) \<le> unat (ac_n_aids r) + 1"
    using Cons.prems(3) u32_Suc[of "ac_n_aids r"] by (auto simp: e merge_entry_def)
  moreover have "accepted_ok (merge_entry e r)"
  proof (cases "x \<in> set (the (ac_aids r))")
    case True
    with Cons.prems(1) show ?thesis by (simp add: e merge_entry_def)
  next
    case False
    with append_ok(2)[OF Cons.prems(1) _ False Cons.prems(2)] Cons.prems(3) show ?thesis by (simp add: e)
  qed
  ultimately show ?case
    using Cons.IH[of "merge_entry e r"] Cons.prems merge_entry_heads(1)[OF Cons.prems(1)] merge_entry_keeps(2)
    by simp
qed


definition demo_promise :: paxos_promise where
  "demo_promise = \<lparr>pr_src = 0, pr_iid = 5, pr_ballot_0 = 101, pr_value_ballot_0 = 101, pr_n_aids = 1,
     pr_aids = Some [4], pr_value_0 = value_zero, pr_values = Some [value_zero], pr_ballots = Some [101],
     pr_value_ballots = Some [101]\<rparr>"


text \<open>
  Merging can read past an array. When the record of the instance carries an accepted value, the
  answer of an acceptor the record does not name yet makes \<^verbatim>\<open>get_srcid_accepted\<close> store a record that
  names one acceptor more than it has values, and the copy reads past the end of \<^verbatim>\<open>values\<close>: the
  arrays \<^verbatim>\<open>aids\<close>, \<^verbatim>\<open>ballots\<close> and \<^verbatim>\<open>value_ballots\<close> are grown together, \<^verbatim>\<open>values\<close> is not.
\<close>

lemma srcid_accepted_overread:
  assumes reach: "acceptor_reachable aid a"
    and m: "0 < ac_n_aids ac" "ac_aids ac = Some (x # xs)" "ac_ballots ac = Some (b # bs)"
      "ac_value_ballots ac = Some (vb # vbs)"
    and r: "acceptor_recs a (ac_iid ac) = Some r" "ac_values r = Some vs" "x \<notin> set (the (ac_aids r))"
      "unat (ac_n_aids r) + 1 < 2 ^ 32"
  shows "get_srcid_accepted ac a = Inl OutOfBounds"
proof -
  note inv = acceptor_reachable_inv(1)[OF reach]
  obtain s1 where s1: "storage_tx_begin (ar_store a) = (s1, 0)"
    "storage_holds mem_api mem_ok mem_recs s1 (acceptor_recs a)"
    using ms.begin_holds[OF mem_invD(1)[OF inv]] mem_never_fails by metis
  have g: "storage_get_record s1 (ac_iid ac) accepted_zero = Inr (1, r)" using ms.get_holds[OF s1(2)] r(1) by simp
  have "0 < unat (ac_n_aids ac)" using m(1) by (rule unat_u32_pos)
  then have js: "[0..<unat (ac_n_aids ac)] = 0 # [Suc 0..<unat (ac_n_aids ac)]" by (simp add: upt_rec)
  note rok = mem_invD(3)[OF inv r(1)]
  have se: "aids_search (ac_aids r) [0..<unat (ac_n_aids r)] x = Inr False"
    using aids_search_ok[of "ac_aids r" "ac_n_aids r" x] rok r(3) by (simp add: accepted_ok_def)
  have "accepted_append r x b vb = Inr (merge_entry (x, b, vb) r)" by (rule append_ok(1)[OF rok r(4,3)])
  moreover have "storage_put_record s1 (merge_entry (x, b, vb) r) = Inl OutOfBounds"
    using append_values_overread[OF s1(2) rok r(2,3,4), of b vb] calculation by simp
  ultimately have "srcid_loop (ac_aids ac) (ac_ballots ac) (ac_value_ballots ac) [0..<unat (ac_n_aids ac)] s1 r 0 =
      Inl OutOfBounds"
    using m(2-4) se by (simp add: js)
  then show ?thesis using s1(1) g by (simp add: get_srcid_accepted_def srcid_merge_def)
qed

definition demo_accepted :: paxos_accepted where
  "demo_accepted = accepted_record 4 demo_accept"

lemma demo_overread:
  assumes "a = demo_acceptor [RecvAccept demo_accept]"
  shows "acceptor_reachable 1 a" "\<exists>r vs. acceptor_recs a (ac_iid demo_accepted) = Some r \<and> ac_values r = Some vs \<and>
      4 \<notin> set (the (ac_aids r)) \<and> unat (ac_n_aids r) + 1 < 2 ^ 32"
    and "0 < ac_n_aids demo_accepted" "ac_aids demo_accepted = Some [4]" "ac_ballots demo_accepted = Some [101]"
      "ac_value_ballots demo_accepted = Some [101]"
proof -
  have ok: "\<forall>e \<in> set [RecvAccept demo_accept]. event_ok e"
    by (simp add: demo_accept_def demo_value_def value_ok_def)
  note p = demo_acceptor_props[OF ok]
  let ?r = "record_clip (accepted_record 1 demo_accept)"
  show "acceptor_reachable 1 a" using p(2) assms by simp
  have r: "acceptor_recs a (ac_iid demo_accepted) = Some ?r"
    using p(3) assms by (simp add: demo_accept_def demo_accepted_def accepted_record_def accept_result_def Let_def)
  moreover have "ac_values ?r = Some (map value_clip (the (ac_values (accepted_record 1 demo_accept))))"
    "(4::u32) \<notin> set (the (ac_aids ?r))" "unat (ac_n_aids ?r) + 1 < 2 ^ 32"
    by (simp_all add: record_clip_def accepted_record_def u32_of_int_def)
  ultimately show "\<exists>r vs. acceptor_recs a (ac_iid demo_accepted) = Some r \<and> ac_values r = Some vs \<and>
      4 \<notin> set (the (ac_aids r)) \<and> unat (ac_n_aids r) + 1 < 2 ^ 32" by blast
  show "0 < ac_n_aids demo_accepted" "ac_aids demo_accepted = Some [4]" "ac_ballots demo_accepted = Some [101]"
    "ac_value_ballots demo_accepted = Some [101]"
    by (simp_all add: demo_accepted_def accepted_record_def u32_of_int_def demo_accept_def)
qed

end
