(* ===== verification/Evacceptor_Props.thy ===== *)
theory Evacceptor_Props
  imports Evacceptor Acceptor_Routing Peers_Props
begin

text \<open>
  Correctness of the acceptor process: the scan of the groups ends and counts the subordinates, an
  accept request is answered to exactly the right connections, a repeat request sends exactly the
  recorded values of the range unless its upper bound is the largest instance number, and the
  stand-alone acceptor reads its freed configuration at the first message.
\<close>

section \<open>Counting subordinates\<close>

text \<open>An array of \<open>n\<close> slots whose used slots come first.\<close>

definition padded :: "nat \<Rightarrow> int list \<Rightarrow> int list \<Rightarrow> bool" where
  "padded n xs q \<longleftrightarrow> xs = q @ replicate (n - length q) (-1) \<and> length q \<le> n \<and> -1 \<notin> set q"

lemma store_group_free: "g \<notin> set q \<Longrightarrow> -1 \<notin> set q \<Longrightarrow> store_group (q @ replicate (Suc k) (-1)) g = q @ g # replicate k (-1)"
  by (induction q) auto

lemma store_group_padded:
  assumes "padded n xs q" "g \<notin> set q" "g \<noteq> -1" "length q < n"
  shows "padded n (store_group xs g) (q @ [g])"
proof -
  obtain k where k: "n - length q = Suc k" using assms(4) by (cases "n - length q") auto
  then have "n - Suc (length q) = k" by simp
  then show ?thesis using assms k store_group_free[of g q k] by (auto simp: padded_def)
qed

text \<open>
  The groups below a group: \<open>group_edge own g h\<close> holds when the scan for the acceptor \<open>own\<close> goes from
  group \<open>g\<close> on to group \<open>h\<close>; \<open>counted own g\<close> are the acceptors it counts at \<open>g\<close>.
\<close>

definition counted :: "address \<Rightarrow> int \<Rightarrow> address \<Rightarrow> bool" where
  "counted own g a \<longleftrightarrow> ad_groupid a = g \<and> ad_groupid a = ad_parentid own \<or> ad_parentid a = g"

definition group_edge :: "address list \<Rightarrow> address \<Rightarrow> int \<Rightarrow> int \<Rightarrow> bool" where
  "group_edge accs own g h \<longleftrightarrow> h \<noteq> -1 \<and> (\<exists>a \<in> set accs. ad_groupid a = h \<and> ad_parentid a = g \<and>
     \<not> (ad_groupid a = g \<and> ad_groupid a = ad_parentid own))"

lemma distinct_groups_bound:
  assumes "distinct xs" "set xs \<subseteq> ad_groupid ` set accs"
  shows "length xs \<le> length accs"
proof -
  have "length xs = card (set xs)" using assms(1) by (simp add: distinct_card)
  also have "\<dots> \<le> card (ad_groupid ` set accs)" using assms(2) by (simp add: card_mono)
  also have "\<dots> \<le> length accs" by (meson card_image_le card_length finite_set le_trans)
  finally show ?thesis .
qed

lemma scan_entries_ok:
  assumes "padded n scanned D" "D \<noteq> []" "n = length accs" "set as \<subseteq> set accs"
    "padded n toscan q" "distinct (D @ q)" "set (D @ q) \<subseteq> ad_groupid ` set accs"
  shows "\<exists>toscan' q'. fold (scan_entry own grp scanned) as (toscan, ncnt) =
      (toscan', ncnt + int (length (filter (counted own grp) as))) \<and>
    padded n toscan' q' \<and> distinct (D @ q') \<and> set (D @ q') \<subseteq> ad_groupid ` set accs \<and>
    set (D @ q') = set (D @ q) \<union> {h. group_edge as own grp h}"
  using assms(4-7)
proof (induction as arbitrary: toscan q ncnt)
  case Nil
  then show ?case by (auto simp: group_edge_def)
next
  case (Cons a as)
  let ?g = "ad_groupid a"
  let ?new = "ad_parentid a = grp \<and> \<not> (?g = grp \<and> ?g = ad_parentid own)"
  have "length (D @ q) \<le> n" using distinct_groups_bound[OF Cons.prems(3,4)] assms(3) by simp
  then have free: "-1 \<in> set scanned \<or> -1 \<in> set toscan"
    using assms(1,2) Cons.prems(2) by (cases D) (auto simp: padded_def)
  have known: "?g \<in> set scanned \<or> ?g \<in> set toscan \<longleftrightarrow> ?g = -1 \<or> ?g \<in> set (D @ q)"
    using free assms(1) Cons.prems(2) by (auto simp: padded_def)
  obtain toscan1 q1 where s: "scan_entry own grp scanned a (toscan, ncnt) =
      (toscan1, ncnt + (if counted own grp a then 1 else 0))"
    "padded n toscan1 q1" "distinct (D @ q1)" "set (D @ q1) \<subseteq> ad_groupid ` set accs"
    "set (D @ q1) = set (D @ q) \<union> (if ?new \<and> ?g \<noteq> -1 then {?g} else {})"
  proof (cases "?new \<and> ?g \<noteq> -1 \<and> ?g \<notin> set (D @ q)")
    case True
    then have "distinct ((D @ q) @ [?g])" "set ((D @ q) @ [?g]) \<subseteq> ad_groupid ` set accs" using Cons.prems by auto
    then have "length q < n" using distinct_groups_bound[of "(D @ q) @ [?g]" accs] assms(3) by simp
    then have p: "padded n (store_group toscan ?g) (q @ [?g])" using store_group_padded Cons.prems(2) True by simp
    show ?thesis
      by (rule that[OF _ p]) (use True known Cons.prems in \<open>auto simp: scan_entry_def counted_def\<close>)
  next
    case False
    show ?thesis
      by (rule that[OF _ Cons.prems(2)]) (use False known Cons.prems in \<open>auto simp: scan_entry_def counted_def\<close>)
  qed
  have e: "{h. group_edge (a # as) own grp h} = (if ?new \<and> ?g \<noteq> -1 then {?g} else {}) \<union> {h. group_edge as own grp h}"
    by (auto simp: group_edge_def)
  obtain toscan' q' where r: "fold (scan_entry own grp scanned) as (toscan1, ncnt + (if counted own grp a then 1 else 0)) =
      (toscan', ncnt + (if counted own grp a then 1 else 0) + int (length (filter (counted own grp) as)))"
    "padded n toscan' q'" "distinct (D @ q')" "set (D @ q') \<subseteq> ad_groupid ` set accs"
    "set (D @ q') = set (D @ q1) \<union> {h. group_edge as own grp h}"
    using Cons.IH[OF _ s(2-4), of "ncnt + (if counted own grp a then 1 else 0)"] Cons.prems(1) by auto
  have "set (D @ q') = set (D @ q) \<union> {h. group_edge (a # as) own grp h}" unfolding r(5) s(5) e by (rule Un_assoc)
  moreover have "fold (scan_entry own grp scanned) (a # as) (toscan, ncnt) =
      (toscan', ncnt + int (length (filter (counted own grp) (a # as))))" using s(1) r(1) by simp
  ultimately show ?case using r(2-4) by blast
qed

definition group_weight :: "address list \<Rightarrow> address \<Rightarrow> int \<Rightarrow> int" where
  "group_weight accs own g = int (length (filter (counted own g) accs))"

lemma scan_groups_ok:
  assumes "padded n scanned d" "padded n toscan q" "n = length accs" "0 < n" "distinct (d @ q)"
    "set (d @ q) \<subseteq> ad_groupid ` set accs" "g0 \<in> set (d @ q)" "\<forall>g \<in> set (d @ q). rtranclp (group_edge accs own) g0 g"
    "\<forall>g \<in> set d. \<forall>h. group_edge accs own g h \<longrightarrow> h \<in> set (d @ q)"
    "ncnt = sum_list (map (group_weight accs own) d)" "n - length d < k"
  shows "scan_groups k accs own scanned toscan ncnt =
    Inr (\<Sum>g | rtranclp (group_edge accs own) g0 g. group_weight accs own g)"
  using assms
proof (induction k arbitrary: scanned toscan ncnt d q)
  case 0
  then show ?case by simp
next
  case (Suc k)
  show ?case
  proof (cases q)
    case Nil
    have "toscan = replicate n (-1)" using Suc.prems(2) Nil by (simp add: padded_def)
    then obtain ys where t: "toscan = -1 # ys" using Suc.prems(4) by (cases n) auto
    have "g \<in> set d" if "rtranclp (group_edge accs own) g0 g" for g
      using that by (induction rule: rtranclp_induct) (use Suc.prems(7,9) Nil in auto)
    then have "{g. rtranclp (group_edge accs own) g0 g} = set d" using Suc.prems(8) Nil by auto
    then have "(\<Sum>g | rtranclp (group_edge accs own) g0 g. group_weight accs own g) = ncnt"
      using Suc.prems(5,10) Nil by (simp add: sum_list_distinct_conv_sum_set)
    then show ?thesis using t by simp
  next
    case (Cons grp q0)
    have t: "toscan = grp # (q0 @ replicate (n - length q) (-1))" "grp \<noteq> -1" "-1 \<notin> set q0" "length q0 < n"
      using Suc.prems(2) Cons by (auto simp: padded_def)
    have "length d + length q \<le> n" using distinct_groups_bound[OF Suc.prems(5,6)] Suc.prems(3) by simp
    then have ld: "length d < n" using Cons by simp
    have sc: "padded n (store_group scanned grp) (d @ [grp])"
      using store_group_padded[OF Suc.prems(1) _ t(2) ld] Suc.prems(5) Cons by simp
    have "Suc (n - length q) = n - length q0" using t(4) Cons by auto
    then have "(q0 @ replicate (n - length q) (-1)) @ [-1] = q0 @ replicate (n - length q0) (-1)"
      by (metis append_assoc replicate_Suc replicate_append_same)
    then have pq: "padded n ((q0 @ replicate (n - length q) (-1)) @ [-1]) q0" using t(3,4) by (simp add: padded_def)
    obtain toscan' q' where f: "fold (scan_entry own grp (store_group scanned grp)) accs
        ((q0 @ replicate (n - length q) (-1)) @ [-1], ncnt) = (toscan', ncnt + group_weight accs own grp)"
      "padded n toscan' q'" "distinct ((d @ [grp]) @ q')" "set ((d @ [grp]) @ q') \<subseteq> ad_groupid ` set accs"
      "set ((d @ [grp]) @ q') = set ((d @ [grp]) @ q0) \<union> {h. group_edge accs own grp h}"
      using scan_entries_ok[OF sc _ Suc.prems(3) subset_refl pq, of own grp ncnt] Suc.prems(5,6) Cons
      unfolding group_weight_def by auto
    have "scan_groups k accs own (store_group scanned grp) toscan' (ncnt + group_weight accs own grp) =
      Inr (\<Sum>g | rtranclp (group_edge accs own) g0 g. group_weight accs own g)"
    proof (rule Suc.IH[OF sc f(2) Suc.prems(3,4) f(3,4)])
      show "g0 \<in> set ((d @ [grp]) @ q')" using Suc.prems(7) Cons unfolding f(5) by auto
      show "\<forall>g \<in> set ((d @ [grp]) @ q'). rtranclp (group_edge accs own) g0 g"
        using Suc.prems(8) Cons unfolding f(5) by (auto intro: rtranclp.rtrancl_into_rtrancl)
      show "\<forall>g \<in> set (d @ [grp]). \<forall>h. group_edge accs own g h \<longrightarrow> h \<in> set ((d @ [grp]) @ q')"
        using Suc.prems(9) Cons unfolding f(5) by auto
      show "ncnt + group_weight accs own grp = sum_list (map (group_weight accs own) (d @ [grp]))" using Suc.prems(10) by simp
      show "n - length (d @ [grp]) < k" using Suc.prems(11) ld by simp
    qed
    then show ?thesis using t f(1) by simp
  qed
qed

lemma count_subordinates_ok:
  assumes "used_ok (ec_acceptors c)" "0 \<le> aid" "aid < int (length (ec_acceptors c))"
  shows "count_subordinates c aid = Inr (let own = ec_acceptors c ! nat aid in
    if ad_groupid own = ad_parentid own \<or> ad_groupid own = -1 then 0
    else \<Sum>g | rtranclp (group_edge (ec_acceptors c) own) (ad_groupid own) g. group_weight (ec_acceptors c) own g)"
proof -
  let ?accs = "ec_acceptors c" let ?own = "ec_acceptors c ! nat aid" let ?n = "length (ec_acceptors c)"
  have s: "slot ?accs aid = Inr ?own" by (rule slot_used(1)[OF assms])
  have in_accs: "?own \<in> set ?accs" using assms(2,3) by simp
  obtain m where n: "?n = Suc m" using assms(2,3) by (cases ?n) auto
  show ?thesis
  proof (cases "ad_groupid ?own = ad_parentid ?own \<or> ad_groupid ?own = -1")
    case True
    then show ?thesis using s n by (auto simp: count_subordinates_def Let_def)
  next
    case False
    have "padded ?n (replicate ?n (-1)) []" by (simp add: padded_def)
    moreover have "padded ?n ((replicate ?n (-1))[0 := ad_groupid ?own]) [ad_groupid ?own]"
      using False n by (simp add: padded_def)
    ultimately have "scan_groups (?n + 1) ?accs ?own (replicate ?n (-1)) ((replicate ?n (-1))[0 := ad_groupid ?own]) 0 =
      Inr (\<Sum>g | rtranclp (group_edge ?accs ?own) (ad_groupid ?own) g. group_weight ?accs ?own g)"
      by (rule scan_groups_ok) (use n in_accs in auto)
    then show ?thesis using False s n by (simp add: count_subordinates_def Let_def del: scan_groups.simps)
  qed
qed

lemma subscribe_all_ok:
  "length (ps_subs ps) + length xs \<le> MAX_SUBS \<Longrightarrow>
   subscribe_all xs ps = Inr (ps\<lparr>ps_subs := ps_subs ps @ map (\<lambda>(ty, cb). \<lparr>sub_type = ty, sub_callback = cb\<rparr>) xs\<rparr>)"
  by (induction xs ps rule: subscribe_all.induct) (simp_all add: peers_subscribe_def)

text \<open>
  C23: the scan of the groups ends and counts the subordinates. For a configuration that was read and an
  acceptor of it, the set-up returns (the scan makes at most one round per acceptor), registers the
  seven callbacks behind the existing ones, and gives the acceptor the number of subordinates: 0 for an
  acceptor of a root group (group = parent) or without a group, otherwise the sum, over all groups
  reachable from its own group through parent links, of the acceptors counted at the group.
\<close>

theorem subordinates_counted:
  assumes "evpaxos_config_read g file = Inr (cfg, Some c)" "storage_backend cfg = PAXOS_MEM_STORAGE"
    "0 \<le> aid" "aid < evpaxos_acceptor_count c" "length (ps_subs ps) \<le> 25"
  shows "\<exists>ps' a. evacceptor_init_internal cfg junk aid c ps = Inr (Some (ps', a)) \<and>
    map sub_callback (ps_subs ps') = map sub_callback (ps_subs ps) @ map snd evacceptor_subs \<and>
    ar_subordinates (ea_state a) = (let own = ec_acceptors c ! nat aid in
      if ad_groupid own = ad_parentid own \<or> ad_groupid own = -1 then 0
      else \<Sum>g | rtranclp (group_edge (ec_acceptors c) own) (ad_groupid own) g. group_weight (ec_acceptors c) own g)"
proof -
  obtain st where st: "acceptor_new cfg junk aid = Some st" using acceptor_new_mem[OF assms(2)] by blast
  have "used_ok (ec_acceptors c)" using config_read_ok[OF assms(1)] by (simp add: config_ok_def)
  note n = count_subordinates_ok[OF this assms(3)]
  have "subscribe_all evacceptor_subs ps = Inr (ps\<lparr>ps_subs := ps_subs ps @
      map (\<lambda>(ty, cb). \<lparr>sub_type = ty, sub_callback = cb\<rparr>) evacceptor_subs\<rparr>)"
    by (rule subscribe_all_ok) (use assms(5) in \<open>simp add: evacceptor_subs_def MAX_SUBS_def\<close>)
  then show ?thesis
    using n assms(4) st by (simp add: evacceptor_init_internal_def setsubordinates_def evpaxos_acceptor_count_def evacceptor_subs_def)
qed

theorem subordinates_counted_witness:
  "\<exists>g c. evpaxos_config_read paxos_config_default (Some (config_text demo_replicas)) = Inr (g, Some c) \<and>
     (\<exists>ps' a. evacceptor_init_internal g 0 1 c (peers_new 0 0 c) = Inr (Some (ps', a)) \<and> 0 < ar_subordinates (ea_state a))"
proof -
  obtain c where c: "evpaxos_config_read paxos_config_default (Some (config_text demo_replicas)) = Inr (paxos_config_default, Some c)"
    "ec_acceptors c = map snd demo_replicas"
    using read_replicas[OF demo_replicas_ok, of config_empty paxos_config_default]
    by (auto simp: evpaxos_config_read_def config_empty_def demo_replicas_def)
  let ?own = "map snd demo_replicas ! 1"
  have own: "?own = \<lparr>ad_addr = Some ''127.0.0.1'', ad_port = 8801, ad_groupid = 1, ad_parentid = -1\<rparr>"
    by (simp add: demo_replicas_def)
  have e: "group_edge (map snd demo_replicas) ?own 1 h \<longleftrightarrow> h = 1" for h
    by (auto simp: group_edge_def demo_replicas_def)
  have "g = 1" if "rtranclp (group_edge (map snd demo_replicas) ?own) 1 g" for g
    using that
  proof (induction rule: rtranclp_induct)
    case (step g h)
    then show ?case using e by blast
  qed (rule refl)
  then have "{g. rtranclp (group_edge (map snd demo_replicas) ?own) 1 g} = {1}" by blast
  then have "(\<Sum>g | rtranclp (group_edge (map snd demo_replicas) ?own) 1 g. group_weight (map snd demo_replicas) ?own g) = 1"
    by (simp add: group_weight_def counted_def demo_replicas_def)
  then show ?thesis
    using subordinates_counted[OF c(1), of 1 "peers_new 0 0 c" 0] c own
    by (auto simp: paxos_config_default_def evpaxos_acceptor_count_def demo_replicas_def peers_new_def)
qed

section \<open>Answers to requests\<close>

text \<open>An acceptor of a root group forwards nothing.\<close>

definition root_acceptor :: "'c peers \<Rightarrow> bool" where
  "root_acceptor ps \<longleftrightarrow> (\<exists>c own. ps_config ps = Some c \<and> slot (ec_acceptors c) (ps_ownid ps) = Inr own \<and>
     ad_groupid own = ad_parentid own)"

lemma root_forwards_nothing: "root_acceptor ps \<Longrightarrow> peers_foreach_down_acceptor cb ps = Inr ps"
  by (auto simp: root_acceptor_def peers_foreach_down_acceptor_def getconfigfrompeers_def)

lemma reachable_step:
  assumes "acceptor_reachable aid a" "event_ok e"
  shows "\<exists>a'. acceptor_step e a = Inr (a', snd (abs_step aid e (ar_trim_iid a, acceptor_recs a))) \<and>
    acceptor_reachable aid a' \<and>
    (ar_trim_iid a', acceptor_recs a') = fst (abs_step aid e (ar_trim_iid a, acceptor_recs a))"
proof -
  have "mem_rel aid (ar_trim_iid a, acceptor_recs a) a"
    using acceptor_reachable_inv[OF assms(1)] by (simp add: mem_inv_def)
  then obtain a' where a': "acceptor_step e a = Inr (a', snd (abs_step aid e (ar_trim_iid a, acceptor_recs a)))"
    "mem_rel aid (fst (abs_step aid e (ar_trim_iid a, acceptor_recs a))) a'" using mem_step[OF _ assms(2)] by blast
  moreover have "acceptor_reachable aid a'"
    using assms a'(1) move_msg[OF assms(2)] unfolding acceptor_reachable_def by (meson rtranclp.rtrancl_into_rtrancl)
  ultimately show ?thesis using mem_relD[OF a'(2)] by auto
qed

lemma accepted_record_wire:
  assumes "value_small (pa_value req)"
  shows "wire_ok (PAXOS_ACCEPTED (accepted_record aid req))"
proof -
  have v: "value_ok (pa_value req)" using assms by (simp add: value_small_def)
  have "value_small \<lparr>pv_len = pv_len (pa_value req),
      pv_val = Some (take (nat (pv_len (pa_value req))) (case pv_val (pa_value req) of None \<Rightarrow> [] | Some bs \<Rightarrow> bs))\<rparr>"
    using assms by (auto simp: value_small_def value_ok_cases nat_le_iff)
  then show ?thesis using accepted_record_props(1)[OF v, of aid] by (simp add: accepted_record_def)
qed

lemma peer_at_valid: "peer_at r ps = Inr p \<Longrightarrow> valid_ref ps r"
  by (cases r) (auto split: if_splits)

text \<open>
  Who hears about an accept request. For an acceptor of a root group in any reachable state, a
  request with a value that fits a message is handled without a fault. Below the trim bound nothing
  changes and nothing is sent. A request whose ballot is below the promised one is answered with the
  promised ballot, to the sender only. Any other request is recorded, and every client, and no other
  peer, is sent the acceptance with the request's ballot and value.
\<close>

lemma accept_answers:
  assumes "acceptor_reachable aid (ea_state a)" "root_acceptor ps" "value_small (pa_value req)" "peer_at r ps = Inr p"
  shows "\<exists>ps' a'. evacceptor_handle_accept enc r (PAXOS_ACCEPT req) (ps, a) = Inr (ps', a') \<and>
    acceptor_reachable aid (ea_state a') \<and>
    (if pa_iid req \<le> ar_trim_iid (ea_state a) then ps' = ps \<and> acceptor_recs (ea_state a') = acceptor_recs (ea_state a)
     else if \<exists>rec. acceptor_recs (ea_state a) (pa_iid req) = Some rec \<and> pa_ballot req < promised rec
     then ps' = sent (frame enc (PAXOS_PREEMPTED \<lparr>pe_aid = u32_of_int aid, pe_iid = pa_iid req,
            pe_ballot = promised (the (acceptor_recs (ea_state a) (pa_iid req)))\<rparr>)) r ps \<and>
          acceptor_recs (ea_state a') = acceptor_recs (ea_state a)
     else ps_clients ps' = told (frame enc (PAXOS_ACCEPTED (accepted_record aid req))) (ps_clients ps) \<and>
          ps_peers ps' = ps_peers ps \<and>
          acceptor_recs (ea_state a') =
            (acceptor_recs (ea_state a))(pa_iid req \<mapsto> record_clip (accepted_record aid req)))"
proof -
  let ?st = "ea_state a" let ?R = "acceptor_recs (ea_state a)"
  have v: "value_ok (pa_value req)" using assms(3) by (simp add: value_small_def)
  obtain st' where st: "acceptor_receive_accept ?st req = Inr (st', snd (abs_step aid (RecvAccept req) (ar_trim_iid ?st, ?R)))"
    "acceptor_reachable aid st'" "(ar_trim_iid st', acceptor_recs st') = fst (abs_step aid (RecvAccept req) (ar_trim_iid ?st, ?R))"
    using reachable_step[OF assms(1), of "RecvAccept req"] v by auto
  note handle = evacceptor_handle_accept.simps(1) root_forwards_nothing[OF assms(2)] st(1)
  consider (trim) "pa_iid req \<le> ar_trim_iid ?st"
    | (low) rec where "\<not> pa_iid req \<le> ar_trim_iid ?st" "?R (pa_iid req) = Some rec" "pa_ballot req < promised rec"
    | (ok) "\<not> pa_iid req \<le> ar_trim_iid ?st" "\<not> (\<exists>rec. ?R (pa_iid req) = Some rec \<and> pa_ballot req < promised rec)"
    by blast
  then show ?thesis
  proof cases
    case trim
    then show ?thesis using st by (simp add: handle)
  next
    case low
    let ?m = "PAXOS_PREEMPTED \<lparr>pe_aid = u32_of_int aid, pe_iid = pa_iid req, pe_ballot = promised rec\<rparr>"
    have res: "accept_result aid req (?R (pa_iid req)) = (rec, ?m)" using low by (auto simp: accept_result_def)
    have "peer_send enc ?m r ps = Inr (sent (frame enc ?m) r ps)"
      by (rule peer_send_ok) (simp_all add: peer_at_valid[OF assms(4)])
    moreover have "?R(pa_iid req \<mapsto> rec) = ?R" using low(2) by auto
    ultimately show ?thesis using st low res by (auto simp: handle send_answer_def)
  next
    case ok
    let ?acc = "accepted_record aid req"
    have res: "accept_result aid req (?R (pa_iid req)) = (record_clip ?acc, PAXOS_ACCEPTED ?acc)"
      using ok(2) by (auto simp: accept_result_def Let_def not_less split: option.splits)
    obtain d where "paxos_accepted_destroy ?acc = Inr d" using accepted_destroy_ok accepted_record_props(1)[OF v] by blast
    then show ?thesis
      using tell_clients[OF wire_packable[OF accepted_record_wire[OF assms(3)]], of enc aid ps] st ok res
      by (auto simp: handle send_answer_def)
  qed
qed

section \<open>Repeating a range\<close>

text \<open>The instances from \<open>i\<close> to \<open>j\<close>, and the messages a repeat of these instances sends.\<close>

definition iid_range :: "iid_t \<Rightarrow> iid_t \<Rightarrow> iid_t list" where
  "iid_range i j = map word_of_nat [unat i..<Suc (unat j)]"

definition repeats :: "(iid_t \<Rightarrow> paxos_accepted option) \<Rightarrow> iid_t list \<Rightarrow> paxos_message list" where
  "repeats R is = map PAXOS_ACCEPTED (List.map_filter (\<lambda>i. repeat_result (R i)) is)"

lemma iid_range_step: "i \<le> j \<Longrightarrow> iid_range i j = i # map word_of_nat [Suc (unat i)..<Suc (unat j)]"
  unfolding iid_range_def by (subst upt_conv_Cons) (simp_all add: word_le_nat_alt)

lemma iid_range_empty: "\<not> i \<le> j \<Longrightarrow> iid_range i j = []"
  by (simp add: iid_range_def word_le_nat_alt)

lemma iid_range_Cons:
  assumes "i \<le> j" "i + 1 \<noteq> 0"
  shows "iid_range i j = i # iid_range (i + 1) j"
  using iid_range_step[OF assms(1)] u32_inc_unat[OF assms(2)] by (simp add: iid_range_def)

lemma repeat_one_ok:
  assumes "acceptor_reachable aid (ea_state a)" "valid_ref ps r"
    "\<forall>i rec. acceptor_recs (ea_state a) i = Some rec \<longrightarrow> wire_ok (PAXOS_ACCEPTED rec)"
  shows "\<exists>a'. repeat_one enc r i (ps, a) =
      Inr (fold (\<lambda>m. sent (frame enc m) r) (repeats (acceptor_recs (ea_state a)) [i]) ps, a') \<and>
    acceptor_reachable aid (ea_state a') \<and> acceptor_recs (ea_state a') = acceptor_recs (ea_state a)"
proof -
  let ?R = "acceptor_recs (ea_state a)"
  obtain st' where st: "acceptor_step (RecvRepeat i) (ea_state a) = Inr (st', map_option PAXOS_ACCEPTED (repeat_result (?R i)))"
    "acceptor_reachable aid st'" "acceptor_recs st' = ?R"
    using reachable_step[OF assms(1), of "RecvRepeat i"] by auto
  obtain out where o: "acceptor_receive_repeat (ea_state a) i = Inr (st', out)" "map_option PAXOS_ACCEPTED out = map_option PAXOS_ACCEPTED (repeat_result (?R i))"
    using st(1) by (auto simp: bind_res_Inr_iff)
  have out: "out = repeat_result (?R i)" using o(2) by (cases out; cases "repeat_result (?R i)") auto
  show ?thesis
  proof (cases "repeat_result (?R i)")
    case None
    then show ?thesis using o(1) out st by (simp add: repeat_one_def repeats_def map_filter_simps)
  next
    case (Some rec)
    then have w: "wire_ok (PAXOS_ACCEPTED rec)" using assms(3) by (auto simp: repeat_result_def split: option.splits if_splits)
    obtain d where "paxos_accepted_destroy rec = Inr d" using w accepted_destroy_ok by fastforce
    then show ?thesis
      using o(1) out Some st peer_send_ok[OF wire_packable[OF w] assms(2)] by (simp add: repeat_one_def repeats_def map_filter_simps)
  qed
qed

lemma repeats_Cons: "repeats R (i # is) = repeats R [i] @ repeats R is"
  by (cases "repeat_result (R i)") (simp_all add: repeats_def map_filter_simps)

lemma valid_ref_fold [simp]: "valid_ref (fold (\<lambda>m. sent (frame enc m) r) ms ps) r' = valid_ref ps r'"
  by (induction ms arbitrary: ps) simp_all

lemma repeat_loop_ok:
  assumes "acceptor_reachable aid (ea_state a)" "valid_ref ps r"
    "\<forall>i rec. acceptor_recs (ea_state a) i = Some rec \<longrightarrow> wire_ok (PAXOS_ACCEPTED rec)"
  shows "if to = -1 then repeat_loop enc r i to (ps, a) = Inl Diverges
    else \<exists>a'. repeat_loop enc r i to (ps, a) =
        Inr (fold (\<lambda>m. sent (frame enc m) r) (repeats (acceptor_recs (ea_state a)) (iid_range i to)) ps, a') \<and>
      acceptor_recs (ea_state a') = acceptor_recs (ea_state a)"
  using assms
proof (induction "2 ^ 32 - unat i" arbitrary: i ps a rule: less_induct)
  case less
  show ?case
  proof (cases "i \<le> to")
    case False
    then have "to \<noteq> -1" by auto
    then show ?thesis using False by (subst repeat_loop.simps) (auto simp: iid_range_empty repeats_def map_filter_simps repeat_loop.simps)
  next
    case True
    let ?R = "acceptor_recs (ea_state a)"
    let ?ps = "fold (\<lambda>m. sent (frame enc m) r) (repeats ?R [i]) ps"
    obtain a1 where a1: "repeat_one enc r i (ps, a) = Inr (?ps, a1)" "acceptor_reachable aid (ea_state a1)"
      "acceptor_recs (ea_state a1) = ?R" using repeat_one_ok[OF less.prems, of enc i] by blast
    have loop: "repeat_loop enc r i to (ps, a) = (if i + 1 = 0 then Inl Diverges else repeat_loop enc r (i + 1) to (?ps, a1))"
      using True a1(1) by (subst repeat_loop.simps) simp
    show ?thesis
    proof (cases "i + 1 = 0")
      case w: True
      then have "i = -1" by (metis add_eq_0_iff2 add.commute)
      then have "to = -1" using True by (simp add: word_order.extremum_unique)
      then show ?thesis using loop w by simp
    next
      case n: False
      have "if to = -1 then repeat_loop enc r (i + 1) to (?ps, a1) = Inl Diverges
        else \<exists>a'. repeat_loop enc r (i + 1) to (?ps, a1) =
            Inr (fold (\<lambda>m. sent (frame enc m) r) (repeats (acceptor_recs (ea_state a1)) (iid_range (i + 1) to)) ?ps, a') \<and>
          acceptor_recs (ea_state a') = acceptor_recs (ea_state a1)"
        using less.hyps[OF u32_inc_measure[OF n] a1(2), of ?ps] less.prems(2,3) a1(3) by simp
      then show ?thesis
        using loop n a1(3) by (simp add: iid_range_Cons[OF True n] repeats_Cons[of ?R i "iid_range (i + 1) to"] split: if_splits)
    qed
  qed
qed

text \<open>
  C31: what a repeat request sends. When the stored records fit a message, the acceptor answers a
  request for the instances from \<open>from\<close> to \<open>to\<close> with exactly the records with a value among them, in
  ascending order, to the sender only, and keeps its records; except that with \<open>to = 2^32 - 1\<close> the loop
  never ends, because the counter wraps around before it can exceed the bound.
\<close>

theorem repeat_answers:
  assumes "acceptor_reachable aid (ea_state a)" "peer_at r ps = Inr p"
    "\<forall>i rec. acceptor_recs (ea_state a) i = Some rec \<longrightarrow> wire_ok (PAXOS_ACCEPTED rec)"
  shows "if rp_to q = -1 then evacceptor_handle_repeat enc r (PAXOS_REPEAT q) (ps, a) = Inl Diverges
    else \<exists>a'. evacceptor_handle_repeat enc r (PAXOS_REPEAT q) (ps, a) =
        Inr (fold (\<lambda>m. sent (frame enc m) r) (repeats (acceptor_recs (ea_state a)) (iid_range (rp_from q) (rp_to q))) ps, a') \<and>
      acceptor_recs (ea_state a') = acceptor_recs (ea_state a)"
  unfolding evacceptor_handle_repeat.simps by (rule repeat_loop_ok[OF assms(1) peer_at_valid[OF assms(2)] assms(3)])

text \<open>An acceptor of a root group with one client.\<close>

definition demo_root :: address where
  "demo_root = \<lparr>ad_addr = Some ''127.0.0.1'', ad_port = 8800, ad_groupid = 0, ad_parentid = 0\<rparr>"

definition demo_peers :: "ev_callback peers" where
  "demo_peers = (peers_new 0 0 \<lparr>ec_proposers = [], ec_acceptors = [demo_root], ec_pgs = None\<rparr>)
     \<lparr>ps_ownid := 0, ps_clients := [make_peer 0 demo_addr]\<rparr>"

definition demo_ea :: "acceptor_event list \<Rightarrow> mem_storage evacceptor" where
  "demo_ea es = \<lparr>ea_state = demo_acceptor es, ea_subordinates = 0, ea_timer = Some 2\<rparr>"

lemma demo_peers_root: "root_acceptor demo_peers" "peer_at (ClientPeer 0) demo_peers = Inr (make_peer 0 demo_addr)"
  by (simp_all add: root_acceptor_def demo_peers_def peers_new_def slot_def MAX_N_OF_PROPOSERS_def demo_root_def)

theorem repeat_answers_witness:
  "evacceptor_handle_repeat ref_enc (ClientPeer 0) (PAXOS_REPEAT \<lparr>rp_from = 1, rp_to = -1\<rparr>) (demo_peers, demo_ea []) = Inl Diverges \<and>
   (\<exists>a'. evacceptor_handle_repeat ref_enc (ClientPeer 0) (PAXOS_REPEAT \<lparr>rp_from = 1, rp_to = 9\<rparr>) (demo_peers, demo_ea []) = Inr (demo_peers, a'))"
proof -
  have p: "acceptor_reachable 1 (ea_state (demo_ea []))"
    "\<forall>i rec. acceptor_recs (ea_state (demo_ea [])) i = Some rec \<longrightarrow> wire_ok (PAXOS_ACCEPTED rec)"
    and e: "acceptor_recs (ea_state (demo_ea [])) = Map.empty"
    using demo_acceptor_props[of "[]"] by (simp_all add: demo_ea_def)
  have "repeats Map.empty is = []" for "is" by (induction "is") (simp_all add: repeats_def map_filter_simps repeat_result_def)
  then show ?thesis
    using repeat_answers[OF p(1) demo_peers_root(2) p(2), of "\<lparr>rp_from = 1, rp_to = -1\<rparr>" ref_enc]
      repeat_answers[OF p(1) demo_peers_root(2) p(2), of "\<lparr>rp_from = 1, rp_to = 9\<rparr>" ref_enc] e
    by (auto split: if_splits)
qed

section \<open>The stand-alone acceptor\<close>

text \<open>
  The stand-alone acceptor uses its configuration after it was freed. Whenever the set-up of a
  stand-alone acceptor succeeds, accepting a connection, reading from one and noticing that one is gone
  all read the freed configuration, whatever the input.
\<close>

lemma standalone_acceptor_dangling:
  assumes "evacceptor_init cfg bind_ok junk aid file = Inr (cfg', Some (ps, a))"
  shows "on_accept addr ps = Inl Dangling \<and> on_read unpack_next call r buf (ps, x) = Inl Dangling \<and>
    on_client_event ev i ps = Inl Dangling"
proof -
  obtain cfg1 c where read: "evpaxos_config_read cfg file = Inr (cfg1, Some c)"
    using assms by (cases "evpaxos_config_read cfg file") (auto simp: evacceptor_init_def split: option.split_asm)
  obtain port where port: "evpaxos_acceptor_listen_port c aid = Inr port"
    using assms read by (cases "evpaxos_acceptor_listen_port c aid") (auto simp: evacceptor_init_def split: if_split_asm)
  have "ps_config ps = None"
    using assms read port
    by (auto simp: evacceptor_init_def peers_listen_def bind_res_Inr_iff split: option.split_asm if_split_asm)
  then show ?thesis by (simp add: on_accept_def on_read_def on_client_event_def getconfigfrompeers_def)
qed

end
