(* ===== verification/Evreplica_Props.thy ===== *)
theory Evreplica_Props
  imports Evreplica Evlearner_Props Evproposer_Props Evacceptor_Props
begin

text \<open>
  The replica: its delivery callback meets the contract of the learner process, so the application sees
  every decided instance once and in order and the proposer of the process follows; which acceptor a
  submitted value goes to; and what merging votes does to a replica.
\<close>

section \<open>Delivery to the application\<close>

definition replica_ready :: "evpaxos_replica \<Rightarrow> bool" where
  "replica_ready r \<longleftrightarrow> (\<forall>p. er_proposer r = Some p \<longrightarrow> (\<exists>pid n. proposer_reachable pid n (ep_state p)))"

definition replica_delivered :: "iid_t \<Rightarrow> u8 arr \<Rightarrow> int \<Rightarrow> evpaxos_replica \<Rightarrow> evpaxos_replica" where
  "replica_delivered i v s r = (case evpaxos_replica_deliver i v s r of Inl _ \<Rightarrow> r | Inr r' \<Rightarrow> r')"

definition log_entry :: "paxos_accepted \<Rightarrow> iid_t \<times> u8 arr \<times> int" where
  "log_entry m = (ac_iid m, pv_val (first_val m), pv_len (first_val m))"

text \<open>
  The proposer a delivery leaves behind: the same client values are pending, and it has moved past the
  instances of \<open>is\<close>.
\<close>

definition follows :: "evproposer option \<Rightarrow> iid_t set \<Rightarrow> evproposer option \<Rightarrow> bool" where
  "follows p is p' \<longleftrightarrow> (case (p, p') of
      (None, None) \<Rightarrow> True
    | (Some p, Some p') \<Rightarrow> pending (ep_state p') = pending (ep_state p) \<and>
        po_next_prepare_iid (ep_state p) \<le> po_next_prepare_iid (ep_state p') \<and>
        (\<forall>i \<in> is. i \<le> po_next_prepare_iid (ep_state p'))
    | _ \<Rightarrow> False)"

lemma follows_none [simp]: "follows p {} p"
  by (cases p) (simp_all add: follows_def)

lemma follows_trans: "follows p is p' \<Longrightarrow> follows p' js p'' \<Longrightarrow> follows p (is \<union> js) p''"
  by (auto simp: follows_def split: option.splits)

lemma replica_deliver_ok:
  assumes "replica_ready r"
  shows "\<exists>p'. evpaxos_replica_deliver i v s r =
      Inr (r\<lparr>er_proposer := p', er_log := (if er_deliver r then er_log r @ [(i, v, s)] else er_log r)\<rparr>) \<and>
    follows (er_proposer r) {i} p' \<and> replica_ready (r\<lparr>er_proposer := p'\<rparr>)"
proof (cases "er_proposer r")
  case None
  then show ?thesis
    by (intro exI[of _ None]) (simp add: evpaxos_replica_deliver_def evproposer_set_instance_id_def follows_def replica_ready_def)
next
  case (Some p)
  then obtain pid n where reach: "proposer_reachable pid n (ep_state p)" using assms by (auto simp: replica_ready_def)
  then have "proposer_ok (ep_state p)" using proposer_reachable_ok by blast
  then obtain st where st: "proposer_set_instance_id (ep_state p) i = Inr st" "pending st = pending (ep_state p)"
    "po_next_prepare_iid st = max (po_next_prepare_iid (ep_state p)) i" using set_instance_id_ok by blast
  have "proposer_reachable pid n st" by (rule reach_step[OF reach, of "PeSetId i" _ None]) (simp_all add: st(1))
  then show ?thesis
    using Some st by (intro exI[of _ "Some (p\<lparr>ep_state := st\<rparr>)"]) (auto simp: evpaxos_replica_deliver_def evproposer_set_instance_id_def follows_def replica_ready_def)
qed

interpretation rd: delivery evpaxos_replica_deliver replica_delivered replica_ready
proof unfold_locales
  fix r i v s
  assume "replica_ready r"
  then obtain p' where p': "evpaxos_replica_deliver i v s r =
      Inr (r\<lparr>er_proposer := p', er_log := (if er_deliver r then er_log r @ [(i, v, s)] else er_log r)\<rparr>)"
    "replica_ready (r\<lparr>er_proposer := p'\<rparr>)" using replica_deliver_ok by blast
  then show "evpaxos_replica_deliver i v s r = Inr (replica_delivered i v s r)" by (simp add: replica_delivered_def)
  show "replica_ready (replica_delivered i v s r)" using p' by (simp add: replica_delivered_def replica_ready_def)
qed

lemma replica_hand_out:
  assumes "replica_ready r"
  shows "\<exists>p'. fold (hand_out replica_delivered) ds r =
      r\<lparr>er_proposer := p', er_log := (if er_deliver r then er_log r @ map log_entry ds else er_log r)\<rparr> \<and>
    follows (er_proposer r) (ac_iid ` set ds) p'"
  using assms
proof (induction ds arbitrary: r)
  case Nil
  then show ?case by (auto intro!: exI[of _ "er_proposer r"])
next
  case (Cons m ds)
  obtain p1 where p1: "hand_out replica_delivered m r =
      r\<lparr>er_proposer := p1, er_log := (if er_deliver r then er_log r @ [log_entry m] else er_log r)\<rparr>"
    "follows (er_proposer r) {ac_iid m} p1"
    using replica_deliver_ok[OF Cons.prems, of "ac_iid m" "pv_val (first_val m)" "pv_len (first_val m)"]
    unfolding hand_out_def replica_delivered_def log_entry_def by force
  have "replica_ready (hand_out replica_delivered m r)"
    using rd.stays_ready[OF Cons.prems] by (simp add: hand_out_def)
  from Cons.IH[OF this] p1 show ?case
    using follows_trans[OF p1(2)] by (auto split: if_splits)
qed


definition demo_replica :: "acceptor_event list \<Rightarrow> evpaxos_replica" where
  "demo_replica es = \<lparr>er_acceptor = demo_ea es, er_proposer = None, er_learner = demo_el, er_deliver = True, er_log = []\<rparr>"


section \<open>Submitting\<close>

lemma submit_loop_skip:
  assumes "\<forall>i \<in> set is. \<exists>r p. peers_get_acceptor ps (int i) = Some r \<and> peer_at r ps = Inr p \<and> \<not> peer_connected p"
  shows "submit_loop enc val sz (is @ js) ps = submit_loop enc val sz js ps"
  using assms by (induction "is") auto

lemma find_peer_bound: "find_peer xs n i = Some k \<Longrightarrow> k < n + length xs"
  by (induction xs n i rule: find_peer.induct) (auto split: if_splits)

lemma get_acceptor_valid: "peers_get_acceptor ps i = Some r \<Longrightarrow> valid_ref ps r \<and> (\<exists>p. peer_at r ps = Inr p)"
  using find_peer_bound[of "ps_peers ps" 0] by (auto simp: peers_get_acceptor_def)

lemma packable_client_value: "value_ok (cv_value v) \<Longrightarrow> packable (PAXOS_CLIENT_VALUE v)"
  by (auto simp: packable_def msgpack_pack_paxos_client_value_def msgpack_pack_paxos_value_def
      msgpack_pack_string_def value_ok_cases copy_bytes_def acopy_def nat_le_iff split: option.splits)

text \<open>
  A submitted value goes to one acceptor, or the process dereferences a null pointer. Let the
  acceptors numbered below \<open>k\<close> be peers of the replica that are not connected, and acceptor \<open>k\<close>, if it is
  a peer, connected. If \<open>k\<close> is the number of peers, nothing is sent. If \<open>k\<close> is smaller and acceptor \<open>k\<close>
  is a peer, the value is written to its connection as one message and to no other. If \<open>k\<close> is smaller and
  no peer has the number \<open>k\<close>, which happens when the replica does not connect to every acceptor of the
  configuration, \<^verbatim>\<open>peers_get_acceptor\<close> returns \<^verbatim>\<open>NULL\<close> and \<^verbatim>\<open>peer_connected\<close> reads through it.
\<close>

lemma submit_goes_to_first:
  assumes "\<forall>i < k. \<exists>r p. peers_get_acceptor ps (int i) = Some r \<and> peer_at r ps = Inr p \<and> \<not> peer_connected p"
    and "\<forall>r p. peers_get_acceptor ps (int k) = Some r \<longrightarrow> peer_at r ps = Inr p \<longrightarrow> peer_connected p"
    and "k \<le> length (ps_peers ps)" "value_ok \<lparr>pv_len = sz, pv_val = val\<rparr>"
  shows "evpaxos_replica_submit enc val sz ps =
    (if k = length (ps_peers ps) then Inr ps
     else case peers_get_acceptor ps (int k) of
        None \<Rightarrow> Inl NullDeref
      | Some r \<Rightarrow> Inr (sent (frame enc (PAXOS_CLIENT_VALUE \<lparr>cv_value = \<lparr>pv_len = sz, pv_val = val\<rparr>\<rparr>)) r ps))"
proof -
  let ?n = "length (ps_peers ps)"
  have "[0..<?n] = [0..<k] @ [k..<?n]" using assms(3) by (metis le_Suc_ex upt_add_eq_append zero_le)
  then have run: "evpaxos_replica_submit enc val sz ps = submit_loop enc val sz [k..<?n] ps"
    using submit_loop_skip[of "[0..<k]" ps] assms(1) by (simp add: evpaxos_replica_submit_def)
  show ?thesis
  proof (cases "k = ?n")
    case False
    then have "[k..<?n] = k # [Suc k..<?n]" using assms(3) by (simp add: upt_conv_Cons)
    moreover have "packable (PAXOS_CLIENT_VALUE \<lparr>cv_value = \<lparr>pv_len = sz, pv_val = val\<rparr>\<rparr>)"
      using assms(4) by (simp add: packable_client_value)
    ultimately show ?thesis
      using False run assms(2) get_acceptor_valid[of ps "int k"] by (auto simp: peer_send_ok split: option.splits)
  qed (simp add: run)
qed

section \<open>A second vote\<close>

definition subscriptions :: "(paxos_message_type \<times> 'c) list \<Rightarrow> 'c subscription list" where
  "subscriptions xs = map (\<lambda>(ty, cb). \<lparr>sub_type = ty, sub_callback = cb\<rparr>) xs"

text \<open>The callback of the acceptor is the first that sees an acceptance.\<close>

lemma accepted_dispatch:
  assumes "ps_subs ps = subscriptions (evacceptor_subs @ rest)"
    and "call Evacceptor_fwd_accepted peer (PAXOS_ACCEPTED ac) (ps, x) = Inl e"
  shows "dispatch_message call peer (PAXOS_ACCEPTED ac) (ps, x) = Inl e"
proof -
  have "[0..<MAX_SUBS] = 0 # 1 # 2 # 3 # 4 # 5 # [6..<32]" by (simp add: MAX_SUBS_def upt_rec)
  then show ?thesis using assms by (simp add: dispatch_message_def subscriptions_def evacceptor_subs_def)
qed

text \<open>
  C30: a replica that voted does not survive the vote of another acceptor. When the acceptor of a
  replica stores a record with a value, a vote for the same instance by an acceptor that the record does
  not name, which every other acceptor of the group sends to its clients, is merged into the record
  before the proposer and the learner of the replica see it, and the merge reads past the end of the
  record's \<^verbatim>\<open>values\<close>.
\<close>

theorem replica_second_vote_overread:
  assumes "acceptor_reachable aid (ea_state (er_acceptor r))"
    and "0 < ac_n_aids ac" "ac_aids ac = Some (x # xs)" "ac_ballots ac = Some (b # bs)" "ac_value_ballots ac = Some (vb # vbs)"
    and "acceptor_recs (ea_state (er_acceptor r)) (ac_iid ac) = Some rec" "ac_values rec = Some vs"
      "x \<notin> set (the (ac_aids rec))" "unat (ac_n_aids rec) + 1 < 2 ^ 32"
    and "ps_subs ps = subscriptions (evacceptor_subs @ rest)"
  shows "dispatch_message (replica_call enc now) peer (PAXOS_ACCEPTED ac) (ps, r) = Inl OutOfBounds"
  using srcid_accepted_overread[OF assms(1-9)] by (intro accepted_dispatch[OF assms(10)]) (simp add: on_acceptor_def)

theorem replica_second_vote_overread_witness:
  "dispatch_message (replica_call ref_enc \<lparr>tv_sec = 0, tv_usec = 0\<rparr>) (AcceptorPeer 0) (PAXOS_ACCEPTED demo_accepted)
     (demo_peers\<lparr>ps_subs := subscriptions (evacceptor_subs @ evlearner_subs)\<rparr>, demo_replica [RecvAccept demo_accept]) =
   Inl OutOfBounds"
proof -
  let ?r = "demo_replica [RecvAccept demo_accept]"
  have r: "ea_state (er_acceptor ?r) = demo_acceptor [RecvAccept demo_accept]" by (simp add: demo_replica_def demo_ea_def)
  obtain rec vs where rec: "acceptor_recs (ea_state (er_acceptor ?r)) (ac_iid demo_accepted) = Some rec" "ac_values rec = Some vs"
    "4 \<notin> set (the (ac_aids rec))" "unat (ac_n_aids rec) + 1 < 2 ^ 32" using demo_overread(2)[OF r] by blast
  show ?thesis
    by (rule replica_second_vote_overread[OF demo_overread(1)[OF r] demo_overread(3-6)[OF r] rec, of _ evlearner_subs]) simp
qed

end
