(* ===== verification/Counter_Props.thy ===== *)
theory Counter_Props
  imports Counter System_Agreement Evreplica_Props
begin

text \<open>
  The replicated counter: recovery from a checkpoint gives the state the replica would have had, replicas that deliver
  the same log agree, trimming never passes a checkpoint that was not announced, and the messages that stop it.
\<close>

section \<open>State machines with checkpoints\<close>

definition apply_log :: "(iid_t \<Rightarrow> 'v \<Rightarrow> 's \<Rightarrow> 's) \<Rightarrow> (iid_t \<times> 'v) list \<Rightarrow> 's \<Rightarrow> 's" where
  "apply_log ap es s = fold (\<lambda>(i, v). ap i v) es s"

lemma apply_log_simps [simp]:
  "apply_log ap [] s = s"
  "apply_log ap ((i, v) # es) s = apply_log ap es (ap i v s)"
  "apply_log ap (xs @ ys) s = apply_log ap ys (apply_log ap xs s)"
  by (simp_all add: apply_log_def)

text \<open>
  A state machine that remembers the position of the last entry that changed it. Entries that \<open>skips\<close> holds of change
  nothing, the others move the position to their instance; what \<open>save\<close> writes \<open>restore\<close> reads back.
\<close>

locale checkpointed =
  fixes ap :: "iid_t \<Rightarrow> 'v \<Rightarrow> 's \<Rightarrow> 's" and pos :: "'s \<Rightarrow> iid_t" and skips :: "'v \<Rightarrow> bool"
    and save :: "'s \<Rightarrow> 't" and restore :: "'t \<Rightarrow> 's" and ok :: "'s \<Rightarrow> bool"
  assumes skip: "skips v \<Longrightarrow> ap i v s = s"
    and moves: "\<not> skips v \<Longrightarrow> pos (ap i v s) = i"
    and keeps: "ok s \<Longrightarrow> ok (ap i v s)"
    and reads_back: "ok s \<Longrightarrow> restore (save s) = s"
begin

lemma log_ok: "ok s \<Longrightarrow> ok (apply_log ap es s)"
  by (induction es arbitrary: s) (auto simp: keeps)

lemma skipped: "\<forall>(i, v) \<in> set es. skips v \<Longrightarrow> apply_log ap es s = s"
  by (induction es) (auto simp: skip)

text \<open>Nothing beyond the position changed the state, and the position is not beyond the log.\<close>

lemma tail_skips:
  assumes "sorted_wrt (<) (map fst es)" "\<forall>x \<in> set es. pos s < fst x"
  shows "(\<forall>(i, v) \<in> set es. pos (apply_log ap es s) < i \<longrightarrow> skips v) \<and>
    (\<forall>j. pos s < j \<and> (\<forall>x \<in> set es. fst x < j) \<longrightarrow> pos (apply_log ap es s) < j)"
  using assms
proof (induction es rule: rev_induct)
  case (snoc x es)
  obtain i v where x: "x = (i, v)" by (cases x)
  have sorted: "\<forall>y \<in> set es. fst y < i" using snoc.prems(1) x by (auto simp: sorted_wrt_append)
  have IH: "\<forall>(i, v) \<in> set es. pos (apply_log ap es s) < i \<longrightarrow> skips v"
    "\<forall>j. pos s < j \<and> (\<forall>x \<in> set es. fst x < j) \<longrightarrow> pos (apply_log ap es s) < j"
    using snoc.IH snoc.prems by (auto simp: sorted_wrt_append)
  show ?case
  proof (cases "skips v")
    case True
    then show ?thesis using IH x skip[OF True] by auto
  next
    case False
    then show ?thesis using sorted x moves[OF False] by (auto simp: less_le_not_le)
  qed
qed simp

lemma recovery:
  assumes "ok s" "sorted_wrt (<) (map fst (xs @ ys))" "\<forall>x \<in> set (xs @ ys). pos s < fst x"
  shows "apply_log ap (filter (\<lambda>(i, v). pos (apply_log ap xs s) < i) (xs @ ys)) (restore (save (apply_log ap xs s))) =
    apply_log ap (xs @ ys) s"
proof -
  let ?t = "apply_log ap xs s"
  have xs: "(\<forall>(i, v) \<in> set xs. pos ?t < i \<longrightarrow> skips v) \<and> (\<forall>j. pos s < j \<and> (\<forall>x \<in> set xs. fst x < j) \<longrightarrow> pos ?t < j)"
    using tail_skips[of xs s] assms(2,3) by (auto simp: sorted_wrt_append)
  have "apply_log ap (filter (\<lambda>(i, v). pos ?t < i) xs) ?t = ?t" using xs by (intro skipped) auto
  moreover have "pos ?t < fst y" if y: "y \<in> set ys" for y
  proof -
    have "pos s < fst y" "\<forall>x \<in> set xs. fst x < fst y" using assms(2,3) y by (auto simp: sorted_wrt_append)
    then show ?thesis using xs by blast
  qed
  then have "filter (\<lambda>(i, v). pos ?t < i) ys = ys" by (intro filter_True) auto
  ultimately show ?thesis using reads_back[OF log_ok[OF assms(1)]] by simp
qed

end

section \<open>The counter as such a machine\<close>

definition trim_of :: "u8 arr \<Rightarrow> (int \<times> int) option" where
  "trim_of v = (case c_string v of Inl _ \<Rightarrow> None | Inr s \<Rightarrow> scan_trim s)"

definition is_trim :: "u8 arr \<Rightarrow> bool" where
  "is_trim v \<longleftrightarrow> trim_of v \<noteq> None"

definition counter_apply :: "iid_t \<Rightarrow> u8 arr \<Rightarrow> int \<times> iid_t \<Rightarrow> int \<times> iid_t" where
  "counter_apply i v s = (if is_trim v then s else (int_of_long (fst s + 1), i))"

definition state_of :: "counter_replica \<Rightarrow> int \<times> iid_t" where
  "state_of c = (cr_count c, cr_instance_id c)"

definition save_state :: "int \<times> iid_t \<Rightarrow> string" where
  "save_state s = show_int (fst s) @ '' '' @ show_int (int_of_u32 (snd s))"

definition load_state :: "string \<Rightarrow> int \<times> iid_t" where
  "load_state txt = state_of (init_state \<lparr>cr_id = 0, cr_count = 0, cr_instance_id = 0, cr_trim = trim_zero 0,
     cr_client_ev = False, cr_file = Some txt\<rparr>)"

lemma int_range_long: "int_range (int_of_long v)"
  using sint_ge[of "u32_of_int v"] sint_lt[of "u32_of_int v"] by (simp add: int_range_def int_of_long_def int_of_u32_def)

lemma int_range_u32: "int_range (int_of_u32 i)" "u32_of_int (int_of_u32 i) = i"
  using sint_ge[of i] sint_lt[of i] by (simp_all add: int_range_def int_of_u32_def u32_of_int_def)

lemma state_text_saves: "state_text c = save_state (state_of c)"
  by (simp add: state_text_def save_state_def state_of_def)

lemma init_state_loads: "cr_file c = Some txt \<Longrightarrow> state_of (init_state c) = load_state txt"
  by (auto simp: load_state_def init_state_def scan_state_def state_of_def Let_def split: option.splits)

lemma load_save:
  assumes "int_range (fst s)"
  shows "load_state (save_state s) = s"
proof -
  have e: "ends_number ('' '' @ x)" "ends_number []" for x by (simp_all add: ends_number_def c_isdigit_def)
  have "c_isspace (CHR '' '')" by (simp add: c_isspace_def)
  then have "scan_int ('' '' @ show_int (int_of_u32 (snd s))) = Some (int_of_u32 (snd s), [])"
    using scan_int_show[OF int_range_u32(1) e(2)] by (simp add: scan_skip_space)
  then show ?thesis
    using scan_int_show[OF assms e(1)] by (simp add: load_state_def save_state_def init_state_def scan_state_def state_of_def int_range_u32)
qed

interpretation cm: checkpointed counter_apply snd is_trim save_state load_state "\<lambda>s. int_range (fst s)"
  by unfold_locales (auto simp: counter_apply_def int_range_long load_save)

section \<open>Delivering a log\<close>

fun counter_run :: "bool \<Rightarrow> (pack_call list \<Rightarrow> u8 list) \<Rightarrow> (iid_t \<times> u8 arr \<times> int) list \<Rightarrow> counter_world \<Rightarrow> counter_world res" where
  "counter_run writable enc [] w = Inr w"
| "counter_run writable enc ((i, v, sz) # es) w = bind_res (on_deliver writable enc i v sz w) (counter_run writable enc es)"

definition entries :: "(iid_t \<times> u8 arr \<times> int) list \<Rightarrow> (iid_t \<times> u8 arr) list" where
  "entries es = map (\<lambda>(i, v, sz). (i, v)) es"

lemma counter_run_Cons:
  "counter_run writable enc (e # es) w =
     bind_res (on_deliver writable enc (fst e) (fst (snd e)) (snd (snd e)) w) (counter_run writable enc es)"
  by (cases e) simp

lemma counter_run_append:
  "counter_run writable enc (xs @ ys) w = bind_res (counter_run writable enc xs w) (counter_run writable enc ys)"
proof (induction xs arbitrary: w)
  case (Cons e xs)
  then show ?case by (simp add: counter_run_Cons del: counter_run.simps) (metis (no_types, lifting) Cons ext)
qed simp

lemma counter_run_ConsE:
  assumes "counter_run writable enc (e # es) w = Inr w'"
  obtains w1 where "on_deliver writable enc (fst e) (fst (snd e)) (snd (snd e)) w = Inr w1" "counter_run writable enc es w1 = Inr w'"
  using assms unfolding counter_run_Cons bind_res_Inr_iff by blast

lemma counter_run_appendE:
  assumes "counter_run writable enc (xs @ ys) w = Inr w'"
  obtains w1 where "counter_run writable enc xs w = Inr w1" "counter_run writable enc ys w1 = Inr w'"
  using assms unfolding counter_run_append bind_res_Inr_iff by blast

lemma update_trim_info_frame:
  assumes "update_trim_info enc r k w = Inr w'"
  shows "state_of (snd w') = state_of (snd w) \<and> cr_file (snd w') = cr_file (snd w) \<and> cr_id (snd w') = cr_id (snd w) \<and>
    snd (fst w') = snd (fst w)"
  using assms
  by (auto simp: update_trim_info_def evpaxos_replica_send_trim_def state_of_def bind_res_Inr_iff Let_def split: prod.splits if_splits)

text \<open>What a delivery does to the count, the position and the state file.\<close>

lemma on_deliver_split:
  assumes "on_deliver writable enc i v sz w = Inr w'"
  shows "\<exists>m w1. c_string v = Inr m \<and>
    (case scan_trim m of Some (r, k) \<Rightarrow> update_trim_info enc r k w | None \<Rightarrow> Inr (fst w, update_state i (snd w))) = Inr w1 \<and>
    (if i mod 100 = 0 then bind_res (checkpoint_state writable (snd w1)) (\<lambda>c. submit_trim enc (fst w1, c)) else Inr w1) = Inr w'"
  using assms unfolding on_deliver_def bind_res_Inr_iff case_prod_unfold prod.collapse by blast

lemma on_deliver_state:
  assumes "on_deliver writable enc i v sz w = Inr w'"
  shows "state_of (snd w') = counter_apply i v (state_of (snd w)) \<and> cr_id (snd w') = cr_id (snd w) \<and>
    cr_file (snd w') = (if i mod 100 = 0 then Some (save_state (state_of (snd w'))) else cr_file (snd w))"
proof -
  obtain m w1 where t: "c_string v = Inr m"
    "(case scan_trim m of Some (r, k) \<Rightarrow> update_trim_info enc r k w | None \<Rightarrow> Inr (fst w, update_state i (snd w))) = Inr w1"
    "(if i mod 100 = 0 then bind_res (checkpoint_state writable (snd w1)) (\<lambda>c. submit_trim enc (fst w1, c)) else Inr w1) = Inr w'"
    using on_deliver_split[OF assms] by blast
  have w1: "state_of (snd w1) = counter_apply i v (state_of (snd w))" "cr_id (snd w1) = cr_id (snd w)" "cr_file (snd w1) = cr_file (snd w)"
    using t(1,2) update_trim_info_frame[of enc _ _ w w1]
    by (auto simp: counter_apply_def is_trim_def trim_of_def state_of_def update_state_def split: option.splits)
  show ?thesis
    using t(3) w1 by (auto simp: checkpoint_state_def submit_trim_def bind_res_Inr_iff state_text_saves state_of_def split: if_splits prod.splits)
qed

lemma counter_run_state:
  assumes "counter_run writable enc es w = Inr w'"
  shows "state_of (snd w') = apply_log counter_apply (entries es) (state_of (snd w))"
  using assms
proof (induction es arbitrary: w)
  case (Cons e es)
  obtain w1 where w1: "on_deliver writable enc (fst e) (fst (snd e)) (snd (snd e)) w = Inr w1" "counter_run writable enc es w1 = Inr w'"
    using Cons.prems by (rule counter_run_ConsE)
  then show ?case using Cons.IH[OF w1(2)] on_deliver_state[OF w1(1)] by (simp add: entries_def case_prod_unfold)
qed (simp add: entries_def)

lemma counter_run_file:
  assumes "counter_run writable enc es w = Inr w'" "\<forall>e \<in> set es. fst e mod 100 \<noteq> 0"
  shows "cr_file (snd w') = cr_file (snd w)"
  using assms
proof (induction es arbitrary: w)
  case (Cons e es)
  obtain w1 where w1: "on_deliver writable enc (fst e) (fst (snd e)) (snd (snd e)) w = Inr w1" "counter_run writable enc es w1 = Inr w'"
    using Cons.prems(1) by (rule counter_run_ConsE)
  have "fst e mod 100 \<noteq> 0" using Cons.prems(2) by simp
  then show ?case using Cons.IH[OF w1(2)] Cons.prems(2) on_deliver_state[OF w1(1)] by simp
qed simp

text \<open>
  C8: recovery of the counter. A replica delivers a log in the order of the instances, writes its last checkpoint at an
  instance that is a multiple of 100 and crashes at any later point. Another process reads the state file and
  delivers the entries after the instance the file names, whatever the state of its connections: if it delivers
  them, its count and its instance number are those of the replica that crashed.
\<close>

theorem counter_recovery:
  assumes run: "counter_run writable enc (xs @ [e] @ ys) w = Inr w'" and cp: "fst e mod 100 = 0" "\<forall>y \<in> set ys. fst y mod 100 \<noteq> 0"
    and start: "int_range (cr_count (snd w))" "sorted_wrt (<) (map fst (xs @ [e] @ ys))"
      "\<forall>x \<in> set (xs @ [e] @ ys). cr_instance_id (snd w) < fst x"
    and rest: "cr_file c = cr_file (snd w')"
      "counter_run writable' enc' (filter (\<lambda>x. cr_instance_id (init_state c) < fst x) (xs @ [e] @ ys)) (s, init_state c) = Inr w''"
  shows "cr_count (snd w'') = cr_count (snd w') \<and> cr_instance_id (snd w'') = cr_instance_id (snd w')"
proof -
  let ?es = "entries (xs @ [e])" and ?ys = "entries ys"
  let ?t = "apply_log counter_apply ?es (state_of (snd w))"
  obtain w1 where w1: "counter_run writable enc (xs @ [e]) w = Inr w1" "counter_run writable enc ys w1 = Inr w'"
    using run counter_run_appendE[of writable enc "xs @ [e]" ys w w'] by (metis append_assoc)
  obtain w0 where w0: "on_deliver writable enc (fst e) (fst (snd e)) (snd (snd e)) w0 = Inr w1"
    using w1(1) by (elim counter_run_appendE counter_run_ConsE) (simp only: counter_run.simps sum.inject)
  have saved: "cr_file (snd w') = Some (save_state ?t)"
    using counter_run_file[OF w1(2) cp(2)] on_deliver_state[OF w0] cp(1) counter_run_state[OF w1(1)] by simp
  have es: "entries (xs @ [e] @ ys) = ?es @ ?ys" by (simp add: entries_def)
  have load: "state_of (init_state c) = ?t"
    using init_state_loads[of c] rest(1) saved start(1) cm.log_ok[of "state_of (snd w)" ?es] load_save by (simp add: state_of_def)
  then have "cr_instance_id (init_state c) = snd ?t" by (metis snd_conv state_of_def)
  then have f: "entries (filter (\<lambda>x. cr_instance_id (init_state c) < fst x) (xs @ [e] @ ys)) = filter (\<lambda>(i, v). snd ?t < i) (?es @ ?ys)"
    unfolding es[symmetric] by (simp add: entries_def filter_map comp_def case_prod_unfold)
  have m: "map fst (?es @ ?ys) = map fst (xs @ [e] @ ys)" by (simp add: entries_def case_prod_unfold)
  have "state_of (snd w'') = apply_log counter_apply (filter (\<lambda>(i, v). snd ?t < i) (?es @ ?ys)) (load_state (save_state ?t))"
    using counter_run_state[OF rest(2)] load f start(1) cm.log_ok[of "state_of (snd w)" ?es] load_save by (simp add: state_of_def)
  also have "\<dots> = apply_log counter_apply (?es @ ?ys) (state_of (snd w))"
  proof (rule cm.recovery)
    show "int_range (fst (state_of (snd w)))" using start(1) by (simp add: state_of_def)
    show "sorted_wrt (<) (map fst (?es @ ?ys))" unfolding m by (rule start(2))
    have "\<forall>i \<in> set (map fst (?es @ ?ys)). cr_instance_id (snd w) < i" unfolding m using start(3) by auto
    then show "\<forall>x \<in> set (?es @ ?ys). snd (state_of (snd w)) < fst x" by (auto simp: state_of_def)
  qed
  also have "\<dots> = state_of (snd w')" using counter_run_state[OF run] es by simp
  finally show ?thesis by (simp add: state_of_def)
qed

section \<open>Announcements\<close>

lemma byte_char: "char_of (unat (word_of_nat (of_char c) :: u8)) = c"
proof -
  have "unat (word_of_nat (of_char c) :: u8) = of_char c mod 256" by (simp add: unat_of_nat)
  then show ?thesis by simp
qed

lemma byte_nonzero:
  assumes "c \<noteq> CHR 0x00"
  shows "(word_of_nat (of_char c) :: u8) \<noteq> 0"
proof
  assume "(word_of_nat (of_char c) :: u8) = 0"
  then have "char_of (unat (0 :: u8)) = c" using byte_char[of c] by simp
  then show False using assms by (simp add: char_of_def)
qed

lemma c_string_bytes: "CHR 0x00 \<notin> set s \<Longrightarrow> c_string (Some (str_bytes s @ [0])) = Inr s"
proof -
  assume s: "CHR 0x00 \<notin> set s"
  have "b \<noteq> 0" if "b \<in> set (str_bytes s)" for b
  proof -
    obtain c where c: "c \<in> set s" "b = word_of_nat (of_char c)" using \<open>b \<in> _\<close> unfolding str_bytes_def set_map by (rule imageE)
    have "c \<noteq> CHR 0x00" using c(1) s by metis
    then show ?thesis unfolding c(2) by (rule byte_nonzero)
  qed
  then have "takeWhile (\<lambda>b. b \<noteq> 0) (str_bytes s @ [0]) = str_bytes s" by simp
  moreover have "map (\<lambda>b. char_of (unat b)) (str_bytes s) = s" by (simp add: str_bytes_def comp_def byte_char)
  ultimately show ?thesis by (simp add: c_string_def)
qed

lemma show_int_no_null: "CHR 0x00 \<notin> set (show_int n)"
proof -
  have "\<not> c_isdigit (CHR 0x00)" by (simp add: c_isdigit_def)
  then have "CHR 0x00 \<notin> set (show_nat k)" for k using show_nat_digits[of k] by blast
  then show ?thesis by (simp add: show_int_def)
qed

text \<open>The buffer of 64 characters is large enough.\<close>

lemma trim_text_complete:
  assumes "int_range (cr_id c)"
  shows "trim_text c = ''TRIM '' @ show_int (cr_id c) @ '' '' @ show_int (int_of_u32 (cr_instance_id c))"
proof -
  have "length (show_int (cr_id c)) \<le> 11" "length (show_int (int_of_u32 (cr_instance_id c))) \<le> 11"
    using assms int_range_u32(1)[of "cr_instance_id c"] by (simp_all add: int_range_def show_int_length)
  then show ?thesis by (simp add: trim_text_def)
qed

text \<open>
  An announcement arrives as it was sent. The value a replica submits after a checkpoint is read by every replica
  that delivers it as the id of the sender and the instance of its state, for every id and every instance.
\<close>

lemma trim_message_roundtrip:
  assumes "int_range (cr_id c)"
  shows "trim_of (Some (str_bytes (trim_text c) @ [0])) = Some (cr_id c, int_of_u32 (cr_instance_id c))"
proof -
  let ?j = "int_of_u32 (cr_instance_id c)"
  have sp: "c_isspace (CHR '' '')" by (simp add: c_isspace_def)
  have e: "ends_number ('' '' @ x)" "ends_number []" for x by (simp_all add: ends_number_def c_isdigit_def)
  have "scan_int ('' '' @ show_int ?j) = Some (?j, [])"
    using scan_int_show[OF int_range_u32(1) e(2)] sp by (simp add: scan_skip_space)
  moreover have "scan_int (CHR '' '' # show_int (cr_id c) @ '' '' @ show_int ?j) = Some (cr_id c, '' '' @ show_int ?j)"
    using scan_int_show[OF assms e(1)] sp by (simp add: scan_skip_space)
  ultimately have "scan_trim (trim_text c) = Some (cr_id c, ?j)" by (simp add: trim_text_complete[OF assms] scan_trim_def)
  moreover have "CHR 0x00 \<notin> set (trim_text c)" using show_int_no_null by (simp add: trim_text_complete[OF assms])
  ultimately show ?thesis by (simp add: trim_of_def c_string_bytes)
qed

section \<open>Trimming\<close>

lemma trim_min_ok:
  assumes "\<forall>i \<in> set is. i < length xs"
  shows "\<exists>m'. trim_min xs is m = Inr m' \<and> m' \<le> m \<and> (\<forall>i \<in> set is. m' \<le> xs ! i)"
  using assms
proof (induction "is" arbitrary: m)
  case (Cons i "is")
  then obtain m' where "trim_min xs is (if xs ! i < m then xs ! i else m) = Inr m'" "m' \<le> (if xs ! i < m then xs ! i else m)"
    "\<forall>i \<in> set is. m' \<le> xs ! i" by fastforce
  then show ?case using Cons.prems by (auto split: if_splits)
qed simp

lemma trim_min_out: "i \<in> set is \<Longrightarrow> length xs \<le> i \<Longrightarrow> trim_min xs is m = Inl OutOfBounds"
  by (induction "is" arbitrary: m) auto

text \<open>The highest instance replica \<open>r\<close> announced in a log.\<close>

definition announced :: "(iid_t \<times> u8 arr \<times> int) list \<Rightarrow> int \<Rightarrow> int" where
  "announced es r = fold (\<lambda>e a. case trim_of (fst (snd e)) of Some (r', k) \<Rightarrow> if r' = r then max k a else a | None \<Rightarrow> a) es 0"

definition trim_ok :: "int \<Rightarrow> (iid_t \<times> u8 arr \<times> int) list \<Rightarrow> trim_info \<Rightarrow> bool" where
  "trim_ok n es t \<longleftrightarrow> length (ti_instances t) = 16 \<and> ti_count t = n \<and> 0 \<le> ti_count t \<and> ti_count t \<le> 16 \<and> 0 \<le> ti_last_trim t \<and>
     (\<forall>r < 16. ti_instances t ! r = announced es (int r)) \<and>
     (\<forall>r < nat (ti_count t). ti_last_trim t \<le> ti_instances t ! r)"

lemma trim_ok_zero: "0 \<le> n \<Longrightarrow> n \<le> 16 \<Longrightarrow> trim_ok n [] (trim_zero n)"
  by (auto simp: trim_ok_def trim_zero_def announced_def)

lemma announced_snoc:
  "announced (es @ [e]) r = (case trim_of (fst (snd e)) of Some (r', k) \<Rightarrow> if r' = r then max k (announced es r) else announced es r
     | None \<Rightarrow> announced es r)"
  unfolding announced_def fold_append by simp

lemma update_trim_out:
  "\<not> (0 \<le> r \<and> nat r < length (ti_instances (cr_trim (snd w)))) \<Longrightarrow> update_trim_info enc r k w = Inl OutOfBounds"
  by (auto simp: update_trim_info_def trim_at_def Let_def case_prod_unfold)

lemma update_trim_in:
  assumes "0 \<le> r" "nat r < length (ti_instances (cr_trim (snd w)))"
  shows "update_trim_info enc r k w = (let t = cr_trim (snd w); xs = (ti_instances t)[nat r := k] in
     if k \<le> ti_instances t ! nat r then Inr w
     else bind_res (trim_min xs [0..<nat (ti_count t)] (ti_instances t ! 0)) (\<lambda>m.
          if m > ti_last_trim t
          then bind_res (evpaxos_replica_send_trim enc (u32_of_int m) (fst w)) (\<lambda>s.
               Inr (s, (snd w)\<lparr>cr_trim := t\<lparr>ti_instances := xs, ti_last_trim := m\<rparr>\<rparr>))
          else Inr (fst w, (snd w)\<lparr>cr_trim := t\<lparr>ti_instances := xs\<rparr>\<rparr>)))"
proof -
  have "0 < length (ti_instances (cr_trim (snd w)))" using assms by linarith
  then show ?thesis using assms by (simp add: update_trim_info_def trim_at_def Let_def case_prod_unfold)
qed

lemma update_trim_ok:
  assumes t: "trim_ok n es (cr_trim (snd w))" and v: "trim_of (fst (snd e)) = Some (r, k)"
    and u: "update_trim_info enc r k w = Inr w'"
  shows "trim_ok n (es @ [e]) (cr_trim (snd w'))"
proof -
  let ?t = "cr_trim (snd w)"
  let ?xs = "(ti_instances ?t)[nat r := k]"
  have len: "length (ti_instances ?t) = 16" using t by (simp add: trim_ok_def)
  have r: "0 \<le> r" "nat r < 16" using u update_trim_out[of r w enc k] len by fastforce+
  note up = u[unfolded update_trim_in[OF r(1) r(2)[folded len]] Let_def]
  have an: "announced (es @ [e]) (int j) = (if j = nat r then max k (announced es (int j)) else announced es (int j))" for j
    using v r by (auto simp: announced_snoc)
  show ?thesis
  proof (cases "k \<le> ti_instances ?t ! nat r")
    case True
    then have "w' = w" using up by simp
    moreover have "announced (es @ [e]) (int j) = announced es (int j)" for j
      using an[of j] True t r by (auto simp: trim_ok_def max_def)
    ultimately show ?thesis using t by (simp add: trim_ok_def)
  next
    case False
    have in_range: "\<forall>i \<in> set [0..<nat (ti_count ?t)]. i < length ?xs" using t by (auto simp: trim_ok_def)
    obtain m' where m: "trim_min ?xs [0..<nat (ti_count ?t)] (ti_instances ?t ! 0) = Inr m'"
      "\<forall>i < nat (ti_count ?t). m' \<le> ?xs ! i" using trim_min_ok[OF in_range, of "ti_instances ?t ! 0"] by auto
    have t': "cr_trim (snd w') = ?t\<lparr>ti_instances := ?xs, ti_last_trim := max (ti_last_trim ?t) m'\<rparr>"
      using up False m(1) by (auto simp: bind_res_Inr_iff max_def split: if_splits)
    have "?xs ! j = announced (es @ [e]) (int j)" if "j < 16" for j
      using an[of j] that t r False by (auto simp: trim_ok_def nth_list_update max_def)
    moreover have "max (ti_last_trim ?t) m' \<le> ?xs ! j" if "j < nat (ti_count ?t)" for j
      using m(2) t that False r by (force simp: trim_ok_def nth_list_update)
    ultimately show ?thesis using t unfolding t' by (simp add: trim_ok_def le_max_iff_disj)
  qed
qed

lemma on_deliver_trim:
  assumes "on_deliver writable enc i v sz w = Inr w'" "trim_ok n es (cr_trim (snd w))"
  shows "trim_ok n (es @ [(i, v, sz)]) (cr_trim (snd w'))"
proof -
  obtain m w1 where t: "c_string v = Inr m"
    "(case scan_trim m of Some (r, k) \<Rightarrow> update_trim_info enc r k w | None \<Rightarrow> Inr (fst w, update_state i (snd w))) = Inr w1"
    "(if i mod 100 = 0 then bind_res (checkpoint_state writable (snd w1)) (\<lambda>c. submit_trim enc (fst w1, c)) else Inr w1) = Inr w'"
    using on_deliver_split[OF assms(1)] by blast
  have tr: "trim_of v = scan_trim m" using t(1) by (simp add: trim_of_def)
  have "trim_ok n (es @ [(i, v, sz)]) (cr_trim (snd w1))"
  proof (cases "scan_trim m")
    case None
    then have "announced (es @ [(i, v, sz)]) r = announced es r" for r using tr by (simp add: announced_snoc)
    then show ?thesis using None t(2) assms(2) by (auto simp: trim_ok_def update_state_def)
  next
    case (Some rk)
    then show ?thesis using update_trim_ok[OF assms(2), of "(i, v, sz)" "fst rk" "snd rk"] t(2) tr by (simp add: case_prod_unfold)
  qed
  moreover have "cr_trim (snd w') = cr_trim (snd w1)"
    using t(3) by (auto simp: checkpoint_state_def submit_trim_def bind_res_Inr_iff split: if_splits prod.splits)
  ultimately show ?thesis by simp
qed

lemma counter_run_trim:
  assumes "counter_run writable enc es w = Inr w'" "trim_ok n es0 (cr_trim (snd w))"
  shows "trim_ok n (es0 @ es) (cr_trim (snd w'))"
  using assms
proof (induction es arbitrary: w es0)
  case (Cons e es)
  obtain w1 where w1: "on_deliver writable enc (fst e) (fst (snd e)) (snd (snd e)) w = Inr w1" "counter_run writable enc es w1 = Inr w'"
    using Cons.prems(1) by (rule counter_run_ConsE)
  show ?case using Cons.IH[OF w1(2) on_deliver_trim[OF w1(1) Cons.prems(2)]] by simp
qed simp


text \<open>
  C35: what stops a counter. A delivered value without a null character, an announcement with a replica id outside of
  0 to 15 and, where there are more than 16 replicas, any announcement that is news make the delivery leave an
  array. Any client can submit such a value, and it is delivered to every replica.
\<close>

theorem counter_faults:
  assumes "length (ti_instances (cr_trim (snd w))) = 16"
  shows "(\<forall>bs. 0 \<notin> set bs \<longrightarrow> on_deliver writable enc i (Some bs) sz w = Inl OutOfBounds) \<and>
    (\<forall>v r k. trim_of v = Some (r, k) \<and> (r < 0 \<or> 16 \<le> r) \<longrightarrow> on_deliver writable enc i v sz w = Inl OutOfBounds) \<and>
    (\<forall>v r k. trim_of v = Some (r, k) \<and> 0 \<le> r \<and> r < 16 \<and> ti_instances (cr_trim (snd w)) ! nat r < k \<and> 16 < ti_count (cr_trim (snd w)) \<longrightarrow>
       on_deliver writable enc i v sz w = Inl OutOfBounds)"
proof (intro conjI allI impI)
  show "on_deliver writable enc i (Some bs) sz w = Inl OutOfBounds" if "0 \<notin> set bs" for bs
    using that by (simp add: on_deliver_def c_string_def)
  have trim: "on_deliver writable enc i v sz w = Inl OutOfBounds" if "trim_of v = Some (r, k)" "update_trim_info enc r k w = Inl OutOfBounds" for v r k
    using that by (auto simp: trim_of_def on_deliver_def split: sum.splits)
  show "on_deliver writable enc i v sz w = Inl OutOfBounds" if "trim_of v = Some (r, k) \<and> (r < 0 \<or> 16 \<le> r)" for v r k
    using that update_trim_out[of r w enc k] assms by (intro trim[of v r k]) auto
  show "on_deliver writable enc i v sz w = Inl OutOfBounds"
    if h: "trim_of v = Some (r, k) \<and> 0 \<le> r \<and> r < 16 \<and> ti_instances (cr_trim (snd w)) ! nat r < k \<and> 16 < ti_count (cr_trim (snd w))" for v r k
  proof (rule trim[of v r k])
    have r: "0 \<le> r" "nat r < length (ti_instances (cr_trim (snd w)))" using h assms by auto
    have "trim_min ((ti_instances (cr_trim (snd w)))[nat r := k]) [0..<nat (ti_count (cr_trim (snd w)))] m = Inl OutOfBounds" for m
      by (rule trim_min_out[of 16]) (use h assms in auto)
    then show "update_trim_info enc r k w = Inl OutOfBounds" using h by (simp add: update_trim_in[OF r] Let_def)
  qed (use h in simp)
qed

section \<open>Agreement\<close>

text \<open>The calls of the delivery function at learner \<open>k\<close>.\<close>

definition learner_log :: "nat \<Rightarrow> system \<Rightarrow> (iid_t \<times> u8 arr \<times> int) list" where
  "learner_log k s = map (log_entry \<circ> snd) (filter (\<lambda>d. fst d = k) (sy_delivered s))"

lemma learner_log_value:
  assumes "system_reachable n s" "int n < 2 ^ 31" "length (sy_proposers s) = 1"
    and "e \<in> set (learner_log k s)" "e' \<in> set (learner_log k' s)" "fst e = fst e'"
  shows "e = e'"
proof -
  obtain m m' where m: "(k, m) \<in> set (sy_delivered s)" "e = log_entry m" "(k', m') \<in> set (sy_delivered s)" "e' = log_entry m'"
    using assms(4,5) by (auto simp: learner_log_def)
  have "first_val m = first_val m'" using single_proposer_agrees[OF assms(1-3) m(1,3)] assms(6) m(2,4) by (simp add: log_entry_def)
  then show ?thesis using assms(6) m(2,4) by (simp add: log_entry_def)
qed

text \<open>
  C7: replicated counters agree. In every run of a system with one proposer, let two learners have delivered the same
  instances in the same order. Counters that start in the same state and deliver these two logs, on whatever
  connections and under whatever id, end with the same count and the same instance number.
\<close>

theorem counter_agreement:
  assumes "system_reachable n s" "int n < 2 ^ 31" "length (sy_proposers s) = 1"
    and "map fst (learner_log k s) = map fst (learner_log k' s)"
    and "counter_run wr enc (learner_log k s) w = Inr w1" "counter_run wr' enc' (learner_log k' s) w' = Inr w1'"
    and "cr_count (snd w) = cr_count (snd w')" "cr_instance_id (snd w) = cr_instance_id (snd w')"
  shows "cr_count (snd w1) = cr_count (snd w1') \<and> cr_instance_id (snd w1) = cr_instance_id (snd w1')"
proof -
  have "learner_log k s = learner_log k' s"
  proof (rule nth_equalityI)
    show len: "length (learner_log k s) = length (learner_log k' s)" using assms(4) by (metis length_map)
    show "learner_log k s ! i = learner_log k' s ! i" if "i < length (learner_log k s)" for i
      using learner_log_value[OF assms(1-3) nth_mem[OF that], of "learner_log k' s ! i" k'] that len assms(4) by (metis nth_map nth_mem)
  qed
  then have "state_of (snd w1) = state_of (snd w1')"
    using counter_run_state[OF assms(5)] counter_run_state[OF assms(6)] assms(7,8) by (simp add: state_of_def)
  then show ?thesis by (simp add: state_of_def)
qed

section \<open>A counter to compute with\<close>

definition demo_counter :: "int \<Rightarrow> string option \<Rightarrow> counter_world" where
  "demo_counter rid st = ((demo_peers, demo_replica []),
     \<lparr>cr_id = rid, cr_count = 7, cr_instance_id = 98, cr_trim = trim_zero 2, cr_client_ev = True, cr_file = st\<rparr>)"

definition count_msg :: "u8 arr" where
  "count_msg = Some (str_bytes ''COUNT'' @ [0])"

definition trim_msg :: "string \<Rightarrow> u8 arr" where
  "trim_msg s = Some (str_bytes (''TRIM '' @ s) @ [0])"

definition demo_log :: "(iid_t \<times> u8 arr \<times> int) list" where
  "demo_log = [(99, count_msg, 6)] @ [(100, count_msg, 6)] @ [(101, trim_msg ''0 100'', 11), (102, count_msg, 6)]"

definition outcome :: "counter_world res \<Rightarrow> (int \<times> iid_t \<times> string option \<times> int) option" where
  "outcome r = (case r of Inl _ \<Rightarrow> None
     | Inr w \<Rightarrow> Some (cr_count (snd w), cr_instance_id (snd w), cr_file (snd w), ti_last_trim (cr_trim (snd w))))"

lemma outcome_Some: "outcome r = Some x \<Longrightarrow> \<exists>w. r = Inr w \<and> cr_file (snd w) = fst (snd (snd x))"
  by (auto simp: outcome_def split: sum.splits)

lemma demo_outcomes:
  "outcome (counter_run True ref_enc demo_log (demo_counter 0 None)) = Some (10, 102, Some ''9 100'', 0)"
  "outcome (counter_run True ref_enc (filter (\<lambda>x. cr_instance_id (init_state (snd (demo_counter 1 (Some ''9 100'')))) < fst x) demo_log)
     (fst (demo_counter 1 None), init_state (snd (demo_counter 1 (Some ''9 100''))))) = Some (10, 102, Some ''9 100'', 0)"
  "outcome (counter_run True ref_enc [(1, trim_msg ''0 100'', 11), (2, trim_msg ''1 90'', 10)] (demo_counter 0 None)) = Some (7, 98, None, 90)"
  by code_simp+

theorem counter_recovery_witness:
  "\<exists>w' w''. counter_run True ref_enc demo_log (demo_counter 0 None) = Inr w' \<and>
     counter_run True ref_enc (filter (\<lambda>x. cr_instance_id (init_state (snd (demo_counter 1 (Some ''9 100'')))) < fst x) demo_log)
       (fst (demo_counter 1 None), init_state (snd (demo_counter 1 (Some ''9 100'')))) = Inr w'' \<and>
     cr_count (snd w'') = cr_count (snd w') \<and> cr_instance_id (snd w'') = cr_instance_id (snd w')"
proof -
  obtain w' where w': "counter_run True ref_enc demo_log (demo_counter 0 None) = Inr w'" "cr_file (snd w') = Some ''9 100''"
    using outcome_Some[OF demo_outcomes(1)] by fastforce
  obtain w'' where w'': "counter_run True ref_enc (filter (\<lambda>x. cr_instance_id (init_state (snd (demo_counter 1 (Some ''9 100'')))) < fst x) demo_log)
       (fst (demo_counter 1 None), init_state (snd (demo_counter 1 (Some ''9 100'')))) = Inr w''"
    using outcome_Some[OF demo_outcomes(2)] by fastforce
  have "cr_count (snd w'') = cr_count (snd w') \<and> cr_instance_id (snd w'') = cr_instance_id (snd w')"
    by (rule counter_recovery[OF w'(1)[unfolded demo_log_def] _ _ _ _ _ _ w''[unfolded demo_log_def]])
      (simp_all add: w'(2) demo_counter_def int_range_def)
  then show ?thesis using w'(1) w'' by blast
qed


theorem counter_faults_witness:
  "on_deliver True ref_enc 1 (trim_msg ''16 1'') 10 (demo_counter 0 None) = Inl OutOfBounds"
proof -
  have "trim_of (trim_msg ''16 1'') = Some (16, 1)" by code_simp
  then show ?thesis using counter_faults[of "demo_counter 0 None" True ref_enc 1 10] by (simp add: demo_counter_def trim_zero_def)
qed

definition count_round :: "system_event list" where
  "count_round = map (\<lambda>e. case e of Client j _ \<Rightarrow> Client j (str_bytes ''COUNT'' @ [0]) | _ \<Rightarrow> e) first_round @
     [ToLearner 1 5, ToLearner 1 4, Deliver 1]"

definition round_logs :: "system res \<Rightarrow> (iid_t \<times> u8 arr \<times> int) list \<times> (iid_t \<times> u8 arr \<times> int) list" where
  "round_logs r = (case r of Inl _ \<Rightarrow> ([], []) | Inr s \<Rightarrow> (learner_log 0 s, learner_log 1 s))"

lemma count_round_logs:
  "ready_run count_round solo_system"
  "round_logs (system_run count_round solo_system) = ([(1, count_msg, 6)], [(1, count_msg, 6)])"
  by code_simp+

theorem counter_agreement_witness:
  "\<exists>s w1 w1'. system_run count_round solo_system = Inr s \<and>
     counter_run True ref_enc (learner_log 0 s) (demo_counter 0 None) = Inr w1 \<and>
     counter_run True ref_enc (learner_log 1 s) (demo_counter 1 None) = Inr w1' \<and> cr_count (snd w1) = cr_count (snd w1')"
proof -
  have new: "system_reachable 3 solo_system" unfolding solo_system_def by (rule sys_new) (simp add: paxos_config_default_def)
  obtain s where s: "system_run count_round solo_system = Inr s" "system_reachable 3 s"
    using ready_run_reachable[OF new count_round_logs(1)] by blast
  have l: "learner_log 0 s = [(1, count_msg, 6)]" "learner_log 1 s = [(1, count_msg, 6)]"
    using count_round_logs(2) s(1) by (simp_all add: round_logs_def)
  have "outcome (counter_run True ref_enc [(1, count_msg, 6)] (demo_counter 0 None)) = Some (8, 1, None, 0)"
    "outcome (counter_run True ref_enc [(1, count_msg, 6)] (demo_counter 1 None)) = Some (8, 1, None, 0)" by code_simp+
  then obtain w1 w1' where w: "counter_run True ref_enc (learner_log 0 s) (demo_counter 0 None) = Inr w1"
    "counter_run True ref_enc (learner_log 1 s) (demo_counter 1 None) = Inr w1'" unfolding l using outcome_Some by blast
  have "length (sy_proposers s) = 1" using s(1) system_run_proposers[of _ solo_system s] by (simp add: solo_system_def system_new_def)
  from counter_agreement[OF s(2) _ this _ w] have "cr_count (snd w1) = cr_count (snd w1')" using l by (simp add: demo_counter_def)
  then show ?thesis using s(1) w by blast
qed

end
