(* ===== verification/Client.thy ===== *)
theory Client
  imports Evreplica_Props Storage_Utils C_Library
begin

text \<open>
  \<^verbatim>\<open>sample/client.c\<close>: a client that keeps a number of values outstanding. It submits them when it is connected to a
  proposer, listens to the decided values as a learner, and submits another value for each of its own that is
  delivered. The layout of \<^verbatim>\<open>struct client_value\<close> is a parameter, so are the clock and the results of \<^verbatim>\<open>rand\<close>. What
  \<^verbatim>\<open>on_stats\<close> prints and writes to its file is output only; what it does to the state is modelled.
\<close>

section \<open>State\<close>

text \<open>
  The bytes of the fixed part of \<^verbatim>\<open>struct client_value\<close>: how they are written, and how the client id and the time are
  read from the bytes up to \<open>vl_id_end\<close> and \<open>vl_time_end\<close>.
\<close>

record value_layout =
  vl_sizeof :: nat
  vl_write :: "int \<Rightarrow> timeval \<Rightarrow> int \<Rightarrow> u8 list"
  vl_id_end :: nat
  vl_client_id :: "u8 list \<Rightarrow> int"
  vl_time_end :: nat
  vl_time :: "u8 list \<Rightarrow> timeval"

record stats =
  min_latency :: int
  max_latency :: int
  avg_latency :: int
  delivered_count :: int
  delivered_bytes :: "64 word"

record client =
  cl_id :: int
  cl_value_size :: int
  cl_outstanding :: int
  cl_stats :: stats
  cl_bev :: message_io
  cl_stats_ev :: bool

definition stats_zero :: stats where
  "stats_zero = \<lparr>min_latency = 0, max_latency = 0, avg_latency = 0, delivered_count = 0, delivered_bytes = 0\<rparr>"

section \<open>Submitting\<close>

definition alphanum :: string where
  "alphanum = ''0123456789abcdefghijklmnopqrstuvwxyz''"

text \<open>\<open>rs j\<close> is the \<open>j\<close>-th result of \<^verbatim>\<open>rand\<close>. With a length below 1 the terminator is written before the array.\<close>

definition random_string :: "(nat \<Rightarrow> nat) \<Rightarrow> int \<Rightarrow> u8 list res" where
  "random_string rs len =
     (if len < 1 then Inl OutOfBounds
      else Inr (map (\<lambda>j. word_of_nat (of_char (alphanum ! (rs j mod length alphanum)))) [0..<nat (len - 1)] @ [0]))"

definition client_submit_value ::
  "value_layout \<Rightarrow> (pack_call list \<Rightarrow> u8 list) \<Rightarrow> timeval \<Rightarrow> (nat \<Rightarrow> nat) \<Rightarrow> client \<Rightarrow> client res" where
  "client_submit_value L enc now rs c =
     bind_res (random_string rs (cl_value_size c)) (\<lambda>s.
     let buf = vl_write L (cl_id c) now (cl_value_size c) @ s in
     bind_res (paxos_submit enc (Some buf) (int (vl_sizeof L) + cl_value_size c) (cl_bev c)) (\<lambda>io.
     Inr (c\<lparr>cl_bev := io\<rparr>)))"

fun submit_times ::
  "value_layout \<Rightarrow> (pack_call list \<Rightarrow> u8 list) \<Rightarrow> timeval \<Rightarrow> (nat \<Rightarrow> nat) \<Rightarrow> nat \<Rightarrow> client \<Rightarrow> client res" where
  "submit_times L enc now rs 0 c = Inr c"
| "submit_times L enc now rs (Suc n) c = bind_res (client_submit_value L enc now rs c) (submit_times L enc now rs n)"

definition on_connect ::
  "value_layout \<Rightarrow> (pack_call list \<Rightarrow> u8 list) \<Rightarrow> timeval \<Rightarrow> (nat \<Rightarrow> nat) \<Rightarrow> bool \<Rightarrow> client \<Rightarrow> client res" where
  "on_connect L enc now rs conn c =
     (if conn then submit_times L enc now rs (nat (cl_outstanding c)) c else Inr c)"

section \<open>Statistics\<close>

text \<open>The product with \<^verbatim>\<open>1e6\<close> is computed in a \<^verbatim>\<open>double\<close>, exactly below \<open>2^53\<close>.\<close>

definition timeval_diff :: "timeval \<Rightarrow> timeval \<Rightarrow> int" where
  "timeval_diff t1 t2 =
     (let us = (tv_sec t2 - tv_sec t1) * 1000000 in
      if us < 0 then 0 else us + (tv_usec t2 - tv_usec t1))"

definition update_stats :: "timeval \<Rightarrow> timeval \<Rightarrow> int \<Rightarrow> stats \<Rightarrow> stats" where
  "update_stats now sent_at sz s =
     (let lat = timeval_diff sent_at now;
          s = s\<lparr>delivered_count := delivered_count s + 1, delivered_bytes := delivered_bytes s + word_of_int sz\<rparr>;
          s = s\<lparr>avg_latency := avg_latency s + (lat - avg_latency s) sdiv delivered_count s\<rparr>;
          s = (if min_latency s = 0 \<or> lat < min_latency s then s\<lparr>min_latency := lat\<rparr> else s)
      in if lat > max_latency s then s\<lparr>max_latency := lat\<rparr> else s)"

definition on_stats :: "client \<Rightarrow> client" where
  "on_stats c = c\<lparr>cl_stats := stats_zero, cl_stats_ev := True\<rparr>"

section \<open>Delivery\<close>

definition read_client_id :: "value_layout \<Rightarrow> u8 arr \<Rightarrow> int res" where
  "read_client_id L val = bind_res (acopy val (vl_id_end L)) (\<lambda>bs. Inr (vl_client_id L bs))"

definition read_client_time :: "value_layout \<Rightarrow> u8 arr \<Rightarrow> timeval res" where
  "read_client_time L val = bind_res (acopy val (vl_time_end L)) (\<lambda>bs. Inr (vl_time L bs))"

definition client_on_deliver ::
  "value_layout \<Rightarrow> (pack_call list \<Rightarrow> u8 list) \<Rightarrow> timeval \<Rightarrow> (nat \<Rightarrow> nat) \<Rightarrow> u8 arr \<Rightarrow> int \<Rightarrow> client \<Rightarrow> client res" where
  "client_on_deliver L enc now rs val sz c =
     bind_res (read_client_id L val) (\<lambda>cid.
     if cid = cl_id c
     then bind_res (read_client_time L val) (\<lambda>t.
          client_submit_value L enc now rs (c\<lparr>cl_stats := update_stats now t sz (cl_stats c)\<rparr>))
     else Inr c)"

section \<open>Set-up\<close>

text \<open>
  \<^verbatim>\<open>connect_to_proposer\<close> looks the proposer up in the configuration; without a configuration the process exits
  (\<open>None\<close>). \<^verbatim>\<open>make_client\<close> then reads the configuration again for its learner, with \<^verbatim>\<open>learner_catch_up\<close> off.
\<close>

definition connect_to_proposer ::
  "paxos_config \<Rightarrow> (string \<Rightarrow> u32) \<Rightarrow> string option \<Rightarrow> int \<Rightarrow> (paxos_config \<times> sockaddr_in option) res" where
  "connect_to_proposer cfg inet_addr file pid =
     bind_res (evpaxos_config_read cfg file) (\<lambda>(cfg, conf). case conf of
        None \<Rightarrow> Inr (cfg, None)
      | Some c \<Rightarrow> bind_res (evpaxos_proposer_address inet_addr c pid) (\<lambda>a. Inr (cfg, Some a)))"

definition make_client ::
  "paxos_config \<Rightarrow> (string \<Rightarrow> u32) \<Rightarrow> string option \<Rightarrow> int \<Rightarrow> int \<Rightarrow> int \<Rightarrow> int \<Rightarrow> 64 word \<times> 64 word \<Rightarrow>
     (client \<times> (ev_callback peers \<times> evlearner) option) option res" where
  "make_client cfg inet_addr file rid pid outstanding value_size counters =
     bind_res (connect_to_proposer cfg inet_addr file pid) (\<lambda>(cfg, bev). case bev of
        None \<Rightarrow> Inr None
      | Some _ \<Rightarrow>
          bind_res (evlearner_init (cfg\<lparr>learner_catch_up := 0\<rparr>) inet_addr file) (\<lambda>(cfg, l).
          Inr (Some (\<lparr>cl_id = rid, cl_value_size = value_size, cl_outstanding = outstanding, cl_stats = stats_zero,
                      cl_bev = \<lparr>io_nmsg = fst counters, io_nbytes = snd counters, io_out = []\<rparr>, cl_stats_ev = True\<rparr>, l))))"

section \<open>Events\<close>

datatype cl_event = Connected timeval "nat \<Rightarrow> nat" | Delivered timeval "nat \<Rightarrow> nat" "u8 arr" int | StatsTimer

fun cl_step :: "value_layout \<Rightarrow> (pack_call list \<Rightarrow> u8 list) \<Rightarrow> cl_event \<Rightarrow> client \<Rightarrow> client res" where
  "cl_step L enc (Connected now rs) c = on_connect L enc now rs True c"
| "cl_step L enc (Delivered now rs val sz) c = client_on_deliver L enc now rs val sz c"
| "cl_step L enc StatsTimer c = Inr (on_stats c)"

fun cl_run :: "value_layout \<Rightarrow> (pack_call list \<Rightarrow> u8 list) \<Rightarrow> cl_event list \<Rightarrow> client \<Rightarrow> client res" where
  "cl_run L enc [] c = Inr c"
| "cl_run L enc (e # es) c = bind_res (cl_step L enc e c) (cl_run L enc es)"

section \<open>The closed loop\<close>

text \<open>What C promises of the layout: the fixed part has its size, and numbers of the fields' types are read as written.\<close>

definition long_range :: "int \<Rightarrow> bool" where
  "long_range v \<longleftrightarrow> - (2 ^ 63) \<le> v \<and> v < 2 ^ 63"

definition value_layout_ok :: "value_layout \<Rightarrow> bool" where
  "value_layout_ok L \<longleftrightarrow> vl_id_end L \<le> vl_sizeof L \<and> vl_time_end L \<le> vl_sizeof L \<and>
     (\<forall>i t n. length (vl_write L i t n) = vl_sizeof L \<and>
        (int_range i \<longrightarrow> vl_client_id L (take (vl_id_end L) (vl_write L i t n)) = i) \<and>
        (long_range (tv_sec t) \<longrightarrow> long_range (tv_usec t) \<longrightarrow> vl_time L (take (vl_time_end L) (vl_write L i t n)) = t))"

lemma paxos_submit_counts:
  assumes "sz = int (length buf)"
  shows "\<exists>io'. paxos_submit enc (Some buf) sz io = Inr io' \<and> io_nmsg io' = io_nmsg io + 1"
proof -
  have "value_ok (cv_value \<lparr>cv_value = \<lparr>pv_len = sz, pv_val = Some buf\<rparr>\<rparr>)" using assms by (simp add: value_ok_def)
  from packable_client_value[OF this] show ?thesis
    by (auto simp: packable_def paxos_submit_def send_paxos_message_def bufferevent_pack_data_def)
qed

lemma client_submit_ok:
  assumes "value_layout_ok L" "1 \<le> cl_value_size c"
  shows "\<exists>io. client_submit_value L enc now rs c = Inr (c\<lparr>cl_bev := io\<rparr>) \<and> io_nmsg io = io_nmsg (cl_bev c) + 1"
proof -
  obtain s where s: "random_string rs (cl_value_size c) = Inr s" "int (length s) = cl_value_size c"
    using assms(2) by (auto simp: random_string_def)
  have "int (vl_sizeof L) + cl_value_size c = int (length (vl_write L (cl_id c) now (cl_value_size c) @ s))"
    using s(2) assms(1) by (simp add: value_layout_ok_def)
  from paxos_submit_counts[OF this, of enc "cl_bev c"] show ?thesis using s(1) by (auto simp: client_submit_value_def)
qed

lemma submit_times_ok:
  assumes "value_layout_ok L" "1 \<le> cl_value_size c"
  shows "\<exists>io. submit_times L enc now rs n c = Inr (c\<lparr>cl_bev := io\<rparr>) \<and> io_nmsg io = io_nmsg (cl_bev c) + of_nat n"
  using assms(2)
proof (induction n arbitrary: c)
  case (Suc n)
  obtain io where io: "client_submit_value L enc now rs c = Inr (c\<lparr>cl_bev := io\<rparr>)" "io_nmsg io = io_nmsg (cl_bev c) + 1"
    using client_submit_ok[OF assms(1) Suc.prems] by blast
  show ?case using Suc.IH[of "c\<lparr>cl_bev := io\<rparr>"] Suc.prems io by (auto simp: algebra_simps)
next
  case 0
  show ?case by (intro exI[of _ "cl_bev c"]) simp
qed

text \<open>A value of the client, long enough to hold the fixed part; connections and own deliveries in a run.\<close>

definition own_value :: "value_layout \<Rightarrow> int \<Rightarrow> u8 arr \<Rightarrow> bool" where
  "own_value L cid val \<longleftrightarrow> read_client_id L val = Inr cid"

fun long_enough :: "value_layout \<Rightarrow> cl_event \<Rightarrow> bool" where
  "long_enough L (Delivered now rs val sz) \<longleftrightarrow> (case val of None \<Rightarrow> False | Some bs \<Rightarrow> vl_sizeof L \<le> length bs)"
| "long_enough L _ \<longleftrightarrow> True"

fun is_connected :: "cl_event \<Rightarrow> bool" where
  "is_connected (Connected now rs) = True"
| "is_connected _ = False"

fun is_own :: "value_layout \<Rightarrow> int \<Rightarrow> cl_event \<Rightarrow> bool" where
  "is_own L cid (Delivered now rs val sz) = own_value L cid val"
| "is_own L cid _ = False"

definition submissions :: "value_layout \<Rightarrow> client \<Rightarrow> cl_event list \<Rightarrow> nat" where
  "submissions L c es = length (filter is_connected es) * nat (cl_outstanding c) + length (filter (is_own L (cl_id c)) es)"

definition same_client :: "client \<Rightarrow> client \<Rightarrow> bool" where
  "same_client c c' \<longleftrightarrow> cl_id c' = cl_id c \<and> cl_value_size c' = cl_value_size c \<and> cl_outstanding c' = cl_outstanding c"

lemma cl_step_ok:
  assumes "value_layout_ok L" "1 \<le> cl_value_size c" "long_enough L e"
  shows "\<exists>c'. cl_step L enc e c = Inr c' \<and> same_client c c' \<and>
    io_nmsg (cl_bev c') = io_nmsg (cl_bev c) + of_nat (submissions L c [e])"
proof (cases e)
  case (Connected now rs)
  then show ?thesis using submit_times_ok[OF assms(1,2), of enc now rs "nat (cl_outstanding c)"]
    by (auto simp: on_connect_def same_client_def submissions_def)
next
  case (Delivered now rs val sz)
  then obtain bs where bs: "val = Some bs" "vl_sizeof L \<le> length bs" using assms(3) by (auto split: option.splits)
  obtain cid t where r: "read_client_id L val = Inr cid" "read_client_time L val = Inr t"
    using bs assms(1) by (simp add: read_client_id_def read_client_time_def value_layout_ok_def acopy_Some)
  let ?c = "c\<lparr>cl_stats := update_stats now t sz (cl_stats c)\<rparr>"
  show ?thesis using client_submit_ok[OF assms(1), of ?c enc now rs] assms(2) r Delivered
    by (auto simp: client_on_deliver_def same_client_def submissions_def own_value_def)
next
  case StatsTimer
  then show ?thesis by (simp add: on_stats_def same_client_def submissions_def)
qed


text \<open>When one of its values comes back the client recognises it, with the time at which it was sent.\<close>

lemma submitted_is_own:
  assumes "value_layout_ok L" "int_range i" "long_range (tv_sec t)" "long_range (tv_usec t)"
  shows "own_value L i (Some (vl_write L i t n @ s)) \<and> read_client_time L (Some (vl_write L i t n @ s)) = Inr t"
  using assms by (simp add: own_value_def read_client_id_def read_client_time_def value_layout_ok_def acopy_Some)

section \<open>Latencies\<close>

lemma sdiv_between:
  fixes n x :: int
  assumes "0 < n"
  shows "if 0 \<le> x then 0 \<le> x sdiv n \<and> x sdiv n \<le> x else x \<le> x sdiv n \<and> x sdiv n \<le> 0"
proof -
  have d: "0 \<le> y div n \<and> y div n \<le> y" if "0 \<le> y" for y
    using zdiv_mono2[of y 1 n] assms that by (simp add: pos_imp_zdiv_nonneg_iff)
  show ?thesis using d[of x] d[of "- x"] assms by (auto simp: signed_divide_int_def sgn_if)
qed

text \<open>For normalised times the difference is exact when the clock did not go back.\<close>

definition micros :: "timeval \<Rightarrow> int" where
  "micros t = tv_sec t * 1000000 + tv_usec t"

lemma timeval_diff_exact:
  assumes "0 \<le> tv_usec t1" "tv_usec t1 < 1000000" "0 \<le> tv_usec t2" "tv_usec t2 < 1000000" "micros t1 \<le> micros t2"
  shows "timeval_diff t1 t2 = micros t2 - micros t1"
proof -
  have "tv_sec t1 \<le> tv_sec t2" using assms by (simp add: micros_def)
  then show ?thesis by (simp add: timeval_diff_def micros_def algebra_simps)
qed

text \<open>The running average stays between 0 and the largest latency.\<close>

lemma update_stats_average:
  assumes "0 \<le> avg_latency s" "avg_latency s \<le> max_latency s" "0 \<le> delivered_count s" "0 \<le> timeval_diff t now"
  shows "0 \<le> avg_latency (update_stats now t sz s) \<and> avg_latency (update_stats now t sz s) \<le> max_latency (update_stats now t sz s)"
proof -
  let ?l = "timeval_diff t now" and ?a = "avg_latency s" and ?n = "delivered_count s + 1"
  let ?q = "(?l - ?a) sdiv ?n"
  have "(if ?a \<le> ?l then 0 \<le> ?q \<and> ?q \<le> ?l - ?a else ?l - ?a \<le> ?q \<and> ?q \<le> 0)"
    using sdiv_between[of ?n "?l - ?a"] assms(3) by (auto split: if_splits)
  then have "0 \<le> ?a + ?q \<and> ?a + ?q \<le> max ?a ?l" using assms(1,4) by (auto split: if_splits)
  then show ?thesis using assms(2) by (auto simp: update_stats_def Let_def)
qed

section \<open>A concrete layout\<close>

text \<open>\<^verbatim>\<open>struct client_value\<close> on a 64-bit little-endian machine: 32 bytes, the time from the ninth on.\<close>

definition lp64_value :: value_layout where
  "lp64_value = \<lparr>vl_sizeof = 32,
     vl_write = \<lambda>i t n. le_bytes 4 (unat (word_of_int i :: u32)) @ replicate 4 0 @ le_bytes 8 (unat (word_of_int (tv_sec t) :: 64 word)) @
       le_bytes 8 (unat (word_of_int (tv_usec t) :: 64 word)) @ le_bytes 8 (unat (word_of_int n :: 64 word)),
     vl_id_end = 4, vl_client_id = \<lambda>bs. sint (word_of_nat (le_nat bs) :: u32),
     vl_time_end = 24, vl_time = \<lambda>bs. \<lparr>tv_sec = sint (word_of_nat (le_nat (take 8 (drop 8 bs))) :: 64 word),
       tv_usec = sint (word_of_nat (le_nat (take 8 (drop 16 bs))) :: 64 word)\<rparr>\<rparr>"

lemma le_u32: "word_of_nat (le_nat (le_bytes 4 (unat w))) = (w :: u32)"
  using layout_okD(2)[OF lp64_ok, of w] by (simp add: lp64_def)

lemma le_u64: "word_of_nat (le_nat (le_bytes 8 (unat w))) = (w :: 64 word)"
proof -
  have "unat w < 2 ^ 64" using unsigned_less[of w] by simp
  then show ?thesis by (simp add: le_nat_bytes)
qed

lemma sint_range:
  "int_range i \<Longrightarrow> sint (word_of_int i :: u32) = i" "long_range i \<Longrightarrow> sint (word_of_int i :: 64 word) = i"
  by (simp_all add: int_range_def long_range_def signed_of_int signed_take_bit_int_eq_self)

lemma lp64_value_ok: "value_layout_ok lp64_value"
  by (simp add: value_layout_ok_def lp64_value_def le_u32 le_u64 sint_range)

definition demo_client :: client where
  "demo_client = \<lparr>cl_id = 42, cl_value_size = 3, cl_outstanding = 2, cl_stats = stats_zero,
     cl_bev = \<lparr>io_nmsg = 0, io_nbytes = 0, io_out = []\<rparr>, cl_stats_ev = True\<rparr>"


end
